(* ===== verification/Prelude.thy ===== *)
theory Prelude
  imports Main "HOL-Library.Word"
begin

text \<open>
  Shared vocabulary of the development: the machine integers of the Rust code, the
  little-endian byte codecs of the standard library (\<open>to_le_bytes\<close> and
  \<open>from_le_bytes\<close>), slices, the generic lemmas on lists and maps that several
  components use, and the collections of simplification rules.

  Conventions.  \<open>u8\<close>, \<open>u32\<close> and \<open>u64\<close> are words of that width; \<open>usize\<close> is 64 bits
  wide where its wrap-around matters (the ring's counters) and a natural number where it
  is the length of something in memory.  \<open>Vec\<close> and slices are lists, \<open>HashMap\<close> is
  a map, \<open>HashSet\<close> and \<open>BTreeSet\<close> are sets; \<open>Result\<close> is a sum with the error on
  the left.
\<close>

unbundle bit_operations_syntax

type_synonym u8 = "8 word"
type_synonym u32 = "32 word"
type_synonym u64 = "64 word"
type_synonym usize = "64 word"

named_theorems codec_simps \<open>rewriting of encoded byte strings and slices of them\<close>
named_theorems lww_simps \<open>last-write-wins merging of versioned states\<close>
named_theorems frame_simps \<open>fields that an operation does not write\<close>

section \<open>Ranges of machine integers\<close>

lemma unat_u8_bound: "unat (x :: u8) < 256"
  using unsigned_less [of x] by simp

lemma unat_u32_bound: "unat (x :: u32) < 4294967296"
  using unsigned_less [of x] by simp

lemma unat_u64_bound: "unat (x :: u64) < 18446744073709551616"
  using unsigned_less [of x] by simp

lemma unat_word_of_nat_u32: "n < 4294967296 \<Longrightarrow> unat (word_of_nat n :: u32) = n"
  by (simp add: unat_of_nat)

lemma unat_word_of_nat_u64: "n < 18446744073709551616 \<Longrightarrow> unat (word_of_nat n :: u64) = n"
  by (simp add: unat_of_nat)

section \<open>Little-endian integers\<close>

fun le_bytes :: "nat \<Rightarrow> nat \<Rightarrow> u8 list" where
  "le_bytes 0 n = []"
| "le_bytes (Suc k) n = word_of_nat n # le_bytes k (n div 256)"

fun le_nat :: "u8 list \<Rightarrow> nat" where
  "le_nat [] = 0"
| "le_nat (b # bs) = unat b + 256 * le_nat bs"

definition u32_to_le_bytes :: "u32 \<Rightarrow> u8 list" where
  "u32_to_le_bytes x = le_bytes 4 (unat x)"

definition u64_to_le_bytes :: "u64 \<Rightarrow> u8 list" where
  "u64_to_le_bytes x = le_bytes 8 (unat x)"

definition u32_from_le_bytes :: "u8 list \<Rightarrow> u32" where
  "u32_from_le_bytes bs = word_of_nat (le_nat bs)"

definition u64_from_le_bytes :: "u8 list \<Rightarrow> u64" where
  "u64_from_le_bytes bs = word_of_nat (le_nat bs)"

lemma length_le_bytes [simp, codec_simps]: "length (le_bytes k n) = k"
  by (induction k arbitrary: n) auto

lemma le_nat_le_bytes: "le_nat (le_bytes k n) = n mod 256 ^ k"
proof (induction k arbitrary: n)
  case 0
  then show ?case by simp
next
  case (Suc k)
  have "n mod 256 ^ Suc k = 256 * (n div 256 mod 256 ^ k) + n mod 256"
    by (simp add: mod_mult2_eq)
  then show ?case by (simp add: Suc unat_of_nat)
qed

lemma le_nat_bound: "le_nat bs < 256 ^ length bs"
proof (induction bs)
  case Nil
  then show ?case by simp
next
  case (Cons b bs)
  have "unat b < 256" by (rule unat_u8_bound)
  with Cons show ?case by simp
qed

lemma le_bytes_le_nat: "length bs = k \<Longrightarrow> le_bytes k (le_nat bs) = bs"
proof (induction bs arbitrary: k)
  case Nil
  then show ?case by simp
next
  case (Cons b bs)
  then obtain m where k: "k = Suc m" and m: "length bs = m" by (cases k) auto
  have b: "unat b < 256" by (rule unat_u8_bound)
  have z: "(256 :: u8) = 0" by simp
  have w256: "word_of_nat (256 * le_nat bs) = (0 :: u8)"
    unfolding of_nat_mult of_nat_numeral z by simp
  have "word_of_nat (unat b + 256 * le_nat bs) = b"
    unfolding of_nat_add w256 by simp
  moreover have "(unat b + 256 * le_nat bs) div 256 = le_nat bs" using b by simp
  ultimately show ?case using Cons.IH [OF m] by (simp add: k)
qed

lemma length_u32_to_le_bytes [simp, codec_simps]: "length (u32_to_le_bytes x) = 4"
  by (simp add: u32_to_le_bytes_def)

lemma length_u64_to_le_bytes [simp, codec_simps]: "length (u64_to_le_bytes x) = 8"
  by (simp add: u64_to_le_bytes_def)

lemma u32_from_to_le_bytes [simp, codec_simps]: "u32_from_le_bytes (u32_to_le_bytes x) = x"
proof -
  have "unat x < 256 ^ 4" using unat_u32_bound [of x] by simp
  then show ?thesis by (simp add: u32_from_le_bytes_def u32_to_le_bytes_def le_nat_le_bytes)
qed

lemma u64_from_to_le_bytes [simp, codec_simps]: "u64_from_le_bytes (u64_to_le_bytes x) = x"
proof -
  have "unat x < 256 ^ 8" using unat_u64_bound [of x] by simp
  then show ?thesis by (simp add: u64_from_le_bytes_def u64_to_le_bytes_def le_nat_le_bytes)
qed

lemma u32_to_from_le_bytes: "length bs = 4 \<Longrightarrow> u32_to_le_bytes (u32_from_le_bytes bs) = bs"
  using le_nat_bound [of bs]
  by (simp add: u32_to_le_bytes_def u32_from_le_bytes_def unat_of_nat le_bytes_le_nat)

lemma u64_to_from_le_bytes: "length bs = 8 \<Longrightarrow> u64_to_le_bytes (u64_from_le_bytes bs) = bs"
  using le_nat_bound [of bs]
  by (simp add: u64_to_le_bytes_def u64_from_le_bytes_def unat_of_nat le_bytes_le_nat)

section \<open>Words\<close>

lemma word_xor_cancel [simp]: "a XOR c = b XOR c \<longleftrightarrow> a = b" for a b c :: "'a::len word"
  by (metis xor.assoc xor_self_eq xor.right_neutral)

lemma word_xor_cancel_left [simp]: "c XOR a = c XOR b \<longleftrightarrow> a = b" for a b c :: "'a::len word"
  by (metis word_xor_cancel xor.commute)

lemma bit_u8_bound: "bit (b :: u8) n \<Longrightarrow> n < 8"
  using bit_imp_le_length by force

lemma bit_u32_bound: "bit (x :: u32) n \<Longrightarrow> n < 32"
  using bit_imp_le_length by force

section \<open>Slices\<close>

text \<open>\<open>slice i j xs\<close> is Rust's \<open>&xs[i..j]\<close>; every use in the model is within bounds.\<close>

definition slice :: "nat \<Rightarrow> nat \<Rightarrow> 'a list \<Rightarrow> 'a list" where
  "slice i j xs = take (j - i) (drop i xs)"

lemma length_slice [simp]: "length (slice i j xs) = min (j - i) (length xs - i)"
  by (simp add: slice_def min.commute)

lemma slice_append_left [codec_simps]: "j \<le> length xs \<Longrightarrow> slice i j (xs @ ys) = slice i j xs"
  by (cases "i \<le> j") (auto simp: slice_def)

lemma slice_append_right [codec_simps]:
  "length xs \<le> i \<Longrightarrow> slice i j (xs @ ys) = slice (i - length xs) (j - length xs) ys"
  by (simp add: slice_def)

lemma slice_take [codec_simps]: "j \<le> k \<Longrightarrow> slice i j (take k xs) = slice i j xs"
  by (simp add: slice_def drop_take min_absorb1)

lemma slice_all [simp, codec_simps]: "slice 0 (length xs) xs = xs"
  by (simp add: slice_def)

lemma slice_0 [codec_simps]: "slice 0 j xs = take j xs"
  by (simp add: slice_def)

lemma take_slice_append: "i \<le> j \<Longrightarrow> take j xs = take i xs @ slice i j xs"
  by (metis slice_def le_add_diff_inverse take_add)

text \<open>A word below another one does not wrap when it is incremented.\<close>

lemma unat_next: "(i :: 64 word) < u \<Longrightarrow> unat (i + 1) = Suc (unat i)"
proof -
  assume "i < u"
  then have "Suc (unat i) \<le> unat u" by (simp add: word_less_nat_alt)
  then have "Suc (unat i) < 2 ^ 64" using unsigned_less [of u, where 'a = nat] by simp
  then show ?thesis by (simp add: unat_word_ariths)
qed

end
