(* ===== verification/Crc32.thy ===== *)
theory Crc32
  imports Prelude
begin

text \<open>
  The checksum of \<open>src/domain.rs\<close>: \<open>crc32\<close> with the 256-entry table of \<open>crc32_table\<close>.
  The lemmas show that the table-driven byte step equals eight turns of the bitwise loop,
  that a bit step is linear and injective, and so that two inputs that differ only within
  a window of at most four bytes never have the same checksum.
\<close>

section \<open>Definitions\<close>

text \<open>One turn of the inner loop of \<open>crc32_table\<close>, and \<open>j\<close> turns of it.\<close>

definition crc_bit :: "u32 \<Rightarrow> u32" where
  "crc_bit crc = (if crc AND 1 \<noteq> 0 then drop_bit 1 crc XOR 0xEDB88320 else drop_bit 1 crc)"

fun crc_bits :: "nat \<Rightarrow> u32 \<Rightarrow> u32" where
  "crc_bits 0 crc = crc"
| "crc_bits (Suc j) crc = crc_bits j (crc_bit crc)"

definition crc32_table :: "u32 list" where
  "crc32_table = map (\<lambda>i. crc_bits 8 (word_of_nat i)) [0..<256]"

definition crc32_step :: "u32 \<Rightarrow> u8 \<Rightarrow> u32" where
  "crc32_step crc b =
     (let idx = unat ((crc XOR ucast b) AND 0xFF) in drop_bit 8 crc XOR crc32_table ! idx)"

definition crc32 :: "u8 list \<Rightarrow> u32" where
  "crc32 bytes = foldl crc32_step 0xFFFFFFFF bytes XOR 0xFFFFFFFF"

section \<open>The bit step is linear and injective\<close>

lemma crc_bit_odd: "crc_bit x = (if odd x then drop_bit 1 x XOR 0xEDB88320 else drop_bit 1 x)"
  by (simp add: crc_bit_def and_one_eq mod_2_eq_odd)

lemma crc_bit_0 [simp]: "crc_bit 0 = 0"
  by (simp add: crc_bit_def)

lemma crc_bit_xor: "crc_bit (x XOR y) = crc_bit x XOR crc_bit y"
  by (auto simp: crc_bit_odd drop_bit_xor even_xor_iff ac_simps)

lemma crc_bits_xor: "crc_bits j (x XOR y) = crc_bits j x XOR crc_bits j y"
  by (induction j arbitrary: x y) (auto simp: crc_bit_xor)

lemma crc_bits_add: "crc_bits (i + j) x = crc_bits j (crc_bits i x)"
  by (induction i arbitrary: x) auto

lemma crc_bits_low_zero: "take_bit j x = 0 \<Longrightarrow> crc_bits j x = drop_bit j x"
proof (induction j arbitrary: x)
  case 0
  then show ?case by simp
next
  case (Suc j)
  then have "even x" by (metis even_take_bit_eq even_zero nat.distinct(1))
  moreover have "take_bit j (drop_bit 1 x) = 0"
    using Suc.prems by (metis Suc_eq_plus1 drop_bit_0 drop_bit_of_0 drop_bit_take_bit add_diff_cancel_right' take_bit_drop_bit)
  ultimately show ?case
    using Suc.IH [of "drop_bit 1 x"] by (simp add: crc_bit_odd drop_bit_drop_bit)
qed

lemma crc_bit_top: "bit (crc_bit x) 31 = odd x"
proof -
  have "\<not> bit (drop_bit 1 x) 31"
    using bit_u32_bound [of x 32] by (auto simp: bit_drop_bit_eq)
  moreover have "bit (0xEDB88320 :: u32) 31" by simp
  ultimately show ?thesis by (simp add: crc_bit_odd bit_xor_iff)
qed

lemma crc_bit_inj: "crc_bit x = crc_bit y \<Longrightarrow> x = y"
proof -
  assume eq: "crc_bit x = crc_bit y"
  then have o: "odd x = odd y" by (metis crc_bit_top)
  with eq have d: "drop_bit 1 x = drop_bit 1 y"
    by (auto simp: crc_bit_odd split: if_splits)
  show "x = y"
  proof (rule bit_word_eqI)
    fix n assume "n < LENGTH(32)"
    show "bit x n = bit y n"
    proof (cases n)
      case 0
      with o show ?thesis by (simp add: bit_0)
    next
      case (Suc m)
      have "bit (drop_bit 1 x) m = bit (drop_bit 1 y) m" using d by simp
      with Suc show ?thesis by (simp add: bit_drop_bit_eq)
    qed
  qed
qed

lemma crc_bits_inj: "crc_bits j x = crc_bits j y \<Longrightarrow> x = y"
  by (induction j arbitrary: x y) (auto dest: crc_bit_inj)

section \<open>The table step is eight bit steps\<close>

lemma crc32_table_nth: "i < 256 \<Longrightarrow> crc32_table ! i = crc_bits 8 (word_of_nat i)"
  by (simp add: crc32_table_def)

lemma crc32_step_bits: "crc32_step crc b = crc_bits 8 (crc XOR ucast b)"
proof -
  let ?x = "crc XOR ucast b :: u32"
  have idx: "unat (?x AND 0xFF) < 256"
  proof -
    have "?x AND 0xFF \<le> 0xFF" by (rule word_and_le1)
    then show ?thesis by (simp add: word_le_nat_alt)
  qed
  have split: "?x = (?x AND 0xFF) XOR (?x AND NOT 0xFF)"
    by (rule bit_word_eqI) (auto simp: bit_simps)
  have mask: "(0xFF :: u32) = mask 8" by (simp add: mask_eq_exp_minus_1)
  have low: "take_bit 8 (?x AND NOT 0xFF) = 0"
    unfolding mask by (rule bit_word_eqI) (auto simp: bit_simps)
  have hi: "drop_bit 8 (?x AND NOT 0xFF) = drop_bit 8 crc"
    unfolding mask
    by (rule bit_word_eqI) (auto simp: bit_simps dest: bit_u8_bound bit_u32_bound)
  have "crc_bits 8 ?x = crc_bits 8 (?x AND 0xFF) XOR drop_bit 8 crc"
    by (subst split) (simp only: crc_bits_xor crc_bits_low_zero [OF low] hi)
  then show ?thesis
    by (simp add: crc32_step_def Let_def crc32_table_nth [OF idx] ac_simps)
qed

text \<open>The reference: the bitwise loop over the whole input, without a table.\<close>

fun crc32_bitwise :: "u32 \<Rightarrow> u8 list \<Rightarrow> u32" where
  "crc32_bitwise crc [] = crc"
| "crc32_bitwise crc (b # bs) = crc32_bitwise (crc_bits 8 (crc XOR ucast b)) bs"

lemma foldl_crc32_step: "foldl crc32_step crc bs = crc32_bitwise crc bs"
  by (induction bs arbitrary: crc) (auto simp: crc32_step_bits)

lemma crc32_eval: "crc32 bs = crc32_bitwise 0xFFFFFFFF bs XOR 0xFFFFFFFF"
  by (simp add: crc32_def foldl_crc32_step)

section \<open>Short bursts are detected\<close>

lemma foldl_crc32_step_inj: "foldl crc32_step c bs = foldl crc32_step c' bs \<Longrightarrow> c = c'"
proof (induction bs arbitrary: c c')
  case Nil
  then show ?case by simp
next
  case (Cons b bs)
  then have "crc32_step c b = crc32_step c' b" by simp
  then show ?case by (auto simp: crc32_step_bits dest: crc_bits_inj)
qed

text \<open>The bytes of a window, each at its own eight bits of a 32-bit word.\<close>

fun window_word :: "nat \<Rightarrow> u8 list \<Rightarrow> u32" where
  "window_word k [] = 0"
| "window_word k (b # bs) = push_bit (8 * k) (ucast b) XOR window_word (Suc k) bs"

lemma window_word_low: "take_bit (8 * k) (window_word k bs) = 0"
proof (induction bs arbitrary: k)
  case Nil
  then show ?case by simp
next
  case (Cons b bs)
  have "take_bit (8 * k) (take_bit (8 * Suc k) (window_word (Suc k) bs)) = 0"
    using Cons.IH [of "Suc k"] by simp
  then have "take_bit (8 * k) (window_word (Suc k) bs) = 0" by simp
  moreover have "take_bit (8 * k) (push_bit (8 * k) (ucast b :: u32)) = 0"
    by (rule bit_word_eqI) (auto simp: bit_simps)
  ultimately show ?case by simp
qed

lemma foldl_window:
  "k + length bs \<le> 4 \<Longrightarrow>
   foldl crc32_step (crc_bits (8 * k) c) bs
     = crc_bits (8 * (k + length bs)) (c XOR window_word k bs)"
proof (induction bs arbitrary: k c)
  case Nil
  then show ?case by simp
next
  case (Cons b bs)
  let ?p = "push_bit (8 * k) (ucast b) :: u32"
  have low: "take_bit (8 * k) ?p = 0" by (rule bit_word_eqI) (auto simp: bit_simps)
  have "k \<le> 3" using Cons.prems by simp
  then have lo_bits: "drop_bit (8 * k) ?p = ucast b"
    by (intro bit_word_eqI) (auto simp: bit_simps dest: bit_u8_bound bit_u32_bound)
  have "crc_bits (8 * k) c XOR ucast b = crc_bits (8 * k) (c XOR ?p)"
    by (simp only: crc_bits_xor crc_bits_low_zero [OF low] lo_bits)
  then have "crc32_step (crc_bits (8 * k) c) b = crc_bits (8 * Suc k) (c XOR ?p)"
    by (simp add: crc32_step_bits crc_bits_add [symmetric] add.commute)
  then show ?case using Cons.IH [of "Suc k" "c XOR ?p"] Cons.prems by (simp add: ac_simps)
qed

lemma window_word_inj:
  "window_word k bs = window_word k bs' \<Longrightarrow> length bs = length bs' \<Longrightarrow> k + length bs \<le> 4 \<Longrightarrow> bs = bs'"
proof (induction bs arbitrary: k bs')
  case Nil
  then show ?case by simp
next
  case (Cons b bs)
  then obtain b' cs where bs': "bs' = b' # cs" by (cases bs') auto
  let ?p = "\<lambda>b :: u8. push_bit (8 * k) (ucast b) :: u32"
  have k: "k \<le> 3" using Cons.prems by simp
  have own: "take_bit (8 * Suc k) (?p b XOR window_word (Suc k) ds) = ?p b" for b :: u8 and ds
  proof -
    have "take_bit (8 * Suc k) (?p b) = ?p b"
      by (rule bit_word_eqI) (auto simp: bit_simps dest: bit_u8_bound bit_u32_bound)
    then show ?thesis using window_word_low [of "Suc k" ds] by simp
  qed
  have p: "?p b = ?p b'"
    using Cons.prems(1) own [of b bs] own [of b' cs] by (simp add: bs')
  have "b = b'"
  proof (rule bit_word_eqI)
    fix n
    assume n: "n < LENGTH(8)"
    have "bit (?p b) (n + 8 * k) = bit (?p b') (n + 8 * k)" using p by simp
    with n k show "bit b n = bit b' n" by (simp add: bit_simps)
  qed
  moreover have "window_word (Suc k) bs = window_word (Suc k) cs"
    using Cons.prems(1) p by (simp add: bs' \<open>b = b'\<close>)
  ultimately show ?case using Cons.IH [of "Suc k" cs] Cons.prems by (simp add: bs')
qed

lemma crc32_burst:
  assumes "length bs = length bs'" and "length bs \<le> 4"
    and eq: "crc32 (xs @ bs @ ys) = crc32 (xs @ bs' @ ys)"
  shows "bs = bs'"
proof -
  let ?c = "foldl crc32_step 0xFFFFFFFF xs"
  have "foldl crc32_step (0xFFFFFFFF) (xs @ bs @ ys) = foldl crc32_step 0xFFFFFFFF (xs @ bs' @ ys)"
    using arg_cong [OF eq, of "\<lambda>x. x XOR 0xFFFFFFFF"] by (simp add: crc32_def ac_simps)
  then have "foldl crc32_step ?c bs = foldl crc32_step ?c bs'"
    by (auto dest: foldl_crc32_step_inj)
  then have "crc_bits (8 * length bs) (?c XOR window_word 0 bs)
             = crc_bits (8 * length bs) (?c XOR window_word 0 bs')"
    using foldl_window [of 0 bs ?c] foldl_window [of 0 bs' ?c] assms(1,2) by simp
  then have "window_word 0 bs = window_word 0 bs'" by (auto dest: crc_bits_inj)
  then show ?thesis using assms(1,2) by (intro window_word_inj [of 0]) auto
qed

section \<open>The check value\<close>

lemma crc_bits_8:
  "crc_bits 8 x = crc_bit (crc_bit (crc_bit (crc_bit (crc_bit (crc_bit (crc_bit (crc_bit x)))))))"
  by (simp add: eval_nat_numeral)

text \<open>The unit test of the source: the checksum of the ASCII string \<open>123456789\<close>.\<close>

lemma crc32_known_vector: "crc32 [49, 50, 51, 52, 53, 54, 55, 56, 57] = 0xCBF43926"
  by (simp add: crc32_eval crc_bits_8 crc_bit_def)

end
