(* ===== verification/Domain.thy ===== *)
theory Domain
  imports Crc32
begin

text \<open>
  \<open>src/domain.rs\<close> and the decode errors of \<open>src/error.rs\<close>: the value types, the CRC-32
  with its lookup table, and the frame codec \<open>WalRecord::encode\<close> / \<open>WalRecord::decode\<close>.
\<close>

section \<open>Value types\<close>

type_synonym player_id = u64
type_synonym lsn = u64

record player_state =
  ps_id :: player_id
  ps_version :: u64
  ps_blob :: "u8 list"

record write_request =
  wr_id :: player_id
  wr_version :: u64
  wr_blob :: "u8 list"
  wr_seq :: u64

definition to_state :: "write_request \<Rightarrow> player_state" where
  "to_state r = \<lparr>ps_id = wr_id r, ps_version = wr_version r, ps_blob = wr_blob r\<rparr>"

lemma to_state_sel [simp]:
  "ps_id (to_state r) = wr_id r" "ps_version (to_state r) = wr_version r"
  "ps_blob (to_state r) = wr_blob r"
  by (simp_all add: to_state_def)

record wal_record =
  wal_lsn :: lsn
  wal_id :: player_id
  wal_version :: u64
  wal_blob :: "u8 list"

datatype decode_error = Truncated | BadCrc | BadMagic

section \<open>The frame codec\<close>

definition WAL_MAGIC :: u32 where "WAL_MAGIC = 0x464C5852"
definition WAL_HEADER_LEN :: nat where "WAL_HEADER_LEN = 4 + 4 + 8 + 8 + 8 + 4"
definition WAL_CRC_LEN :: nat where "WAL_CRC_LEN = 4"

definition frame_body :: "wal_record \<Rightarrow> u8 list" where
  "frame_body r =
     (let blob_len = length (wal_blob r);
          frame_len = WAL_HEADER_LEN + blob_len + WAL_CRC_LEN
      in u32_to_le_bytes WAL_MAGIC
         @ u32_to_le_bytes (word_of_nat frame_len)
         @ u64_to_le_bytes (wal_lsn r)
         @ u64_to_le_bytes (wal_id r)
         @ u64_to_le_bytes (wal_version r)
         @ u32_to_le_bytes (word_of_nat blob_len)
         @ wal_blob r)"

definition encode :: "wal_record \<Rightarrow> u8 list" where
  "encode r = (let buf = frame_body r; crc = crc32 buf in buf @ u32_to_le_bytes crc)"

definition decode :: "u8 list \<Rightarrow> decode_error + (wal_record \<times> nat)" where
  "decode buf =
     (if length buf < WAL_HEADER_LEN then Inl Truncated
      else if u32_from_le_bytes (slice 0 4 buf) \<noteq> WAL_MAGIC then Inl BadMagic
      else
        let frame_len = unat (u32_from_le_bytes (slice 4 8 buf)) in
        if frame_len < WAL_HEADER_LEN + WAL_CRC_LEN then Inl Truncated
        else if length buf < frame_len then Inl Truncated
        else
          let blob_len = unat (u32_from_le_bytes (slice 32 36 buf)) in
          if frame_len \<noteq> WAL_HEADER_LEN + blob_len + WAL_CRC_LEN then Inl Truncated
          else
            let body_end = frame_len - WAL_CRC_LEN;
                stored_crc = u32_from_le_bytes (slice body_end frame_len buf);
                actual_crc = crc32 (take body_end buf)
            in if stored_crc \<noteq> actual_crc then Inl BadCrc
               else Inr (\<lparr>wal_lsn = u64_from_le_bytes (slice 8 16 buf),
                          wal_id = u64_from_le_bytes (slice 16 24 buf),
                          wal_version = u64_from_le_bytes (slice 24 32 buf),
                          wal_blob = slice WAL_HEADER_LEN (WAL_HEADER_LEN + blob_len) buf\<rparr>,
                         frame_len))"

section \<open>Shape of a frame\<close>

text \<open>The lengths that fit the frame's 32-bit length field.\<close>

definition fits :: "wal_record \<Rightarrow> bool" where
  "fits r \<longleftrightarrow> WAL_HEADER_LEN + length (wal_blob r) + WAL_CRC_LEN < 2 ^ 32"

lemmas layout_defs = WAL_HEADER_LEN_def WAL_CRC_LEN_def

lemma length_frame_body [codec_simps]: "length (frame_body r) = 36 + length (wal_blob r)"
  by (simp add: frame_body_def Let_def)

lemma length_encode [codec_simps]: "length (encode r) = 40 + length (wal_blob r)"
  by (simp add: encode_def Let_def length_frame_body)

lemma encode_split: "encode r = frame_body r @ u32_to_le_bytes (crc32 (frame_body r))"
  by (simp add: encode_def Let_def)

lemma frame_body_slices [codec_simps]:
  "slice 0 4 (frame_body r) = u32_to_le_bytes WAL_MAGIC"
  "slice 4 8 (frame_body r) = u32_to_le_bytes (word_of_nat (40 + length (wal_blob r)))"
  "slice 8 16 (frame_body r) = u64_to_le_bytes (wal_lsn r)"
  "slice 16 24 (frame_body r) = u64_to_le_bytes (wal_id r)"
  "slice 24 32 (frame_body r) = u64_to_le_bytes (wal_version r)"
  "slice 32 36 (frame_body r) = u32_to_le_bytes (word_of_nat (length (wal_blob r)))"
  "slice 36 (36 + length (wal_blob r)) (frame_body r) = wal_blob r"
  by (simp_all add: frame_body_def Let_def slice_def layout_defs add.commute)

lemma frame_body_nonempty [simp]: "frame_body r \<noteq> []"
  using length_frame_body [of r] by auto

lemma fits_len:
  assumes "fits r"
  shows "unat (word_of_nat (40 + length (wal_blob r)) :: u32) = 40 + length (wal_blob r)"
    and "unat (word_of_nat (length (wal_blob r)) :: u32) = length (wal_blob r)"
  using assms by (auto simp: fits_def layout_defs intro!: unat_word_of_nat_u32 simp del: of_nat_add)

section \<open>Decoding what was encoded\<close>

text \<open>
  The central step: a buffer that starts with the body of a frame and has room for the
  checksum is decoded to the frame's record exactly when the checksum bytes agree.
\<close>

lemma decode_body:
  assumes "fits r" and "length crc = 4"
  shows "decode (frame_body r @ crc @ rest) =
    (if u32_from_le_bytes crc \<noteq> crc32 (frame_body r) then Inl BadCrc
     else Inr (r, length (encode r)))"
proof -
  let ?n = "length (wal_blob r)" and ?buf = "frame_body r @ crc @ rest"
  have in_body: "j \<le> 36 + ?n \<Longrightarrow> slice i j ?buf = slice i j (frame_body r)" for i j
    by (simp add: slice_append_left length_frame_body)
  have len: "unat (u32_from_le_bytes (slice 4 8 ?buf)) = 40 + ?n"
    by (simp add: in_body codec_simps fits_len [OF assms(1)] del: of_nat_add)
  have blob: "unat (u32_from_le_bytes (slice 32 36 ?buf)) = ?n"
    by (simp add: in_body codec_simps fits_len [OF assms(1)])
  have crc: "slice (36 + ?n) (40 + ?n) ?buf = crc"
    using assms(2) by (simp add: slice_def length_frame_body)
  have body: "take (36 + ?n) ?buf = frame_body r" by (simp add: length_frame_body)
  have "decode ?buf =
    (if u32_from_le_bytes crc \<noteq> crc32 (frame_body r) then Inl BadCrc
     else Inr (\<lparr>wal_lsn = wal_lsn r, wal_id = wal_id r, wal_version = wal_version r,
                wal_blob = wal_blob r\<rparr>, 40 + ?n))"
    using assms(2)
    by (simp add: decode_def Let_def layout_defs len blob crc body in_body frame_body_slices
        length_frame_body fits_len [OF assms(1)] del: of_nat_add)
  then show ?thesis by (simp add: length_encode)
qed

lemma decode_encode [codec_simps]:
  "fits r \<Longrightarrow> decode (encode r @ rest) = Inr (r, length (encode r))"
  by (simp add: encode_split decode_body)

lemma decode_torn:
  assumes "fits r" and "k < length (encode r)"
  shows "decode (take k (encode r)) = Inl Truncated"
proof (cases "k < 36")
  case True
  then show ?thesis by (simp add: decode_def layout_defs min_less_iff_disj)
next
  case False
  let ?buf = "take k (encode r)" and ?n = "length (wal_blob r)"
  have k: "length ?buf = k" "k < 40 + ?n" using assms(2) by (simp_all add: length_encode)
  have "slice i j ?buf = slice i j (frame_body r)" if "j \<le> 36" for i j
    using that False by (simp add: slice_take encode_split slice_append_left length_frame_body)
  then have "slice 0 4 ?buf = slice 0 4 (frame_body r)" "slice 4 8 ?buf = slice 4 8 (frame_body r)"
    by simp_all
  then show ?thesis
    using k False
    by (simp add: decode_def Let_def layout_defs frame_body_slices fits_len [OF assms(1)]
        del: of_nat_add)
qed

lemma decode_Inr:
  assumes "decode buf = Inr (r, n)"
  shows "fits r" and "take n buf = encode r" and "n = length (encode r)" and "n \<le> length buf"
proof -
  define bl where "bl = unat (u32_from_le_bytes (slice 32 36 buf))"
  have magic: "u32_from_le_bytes (slice 0 4 buf) = WAL_MAGIC"
    and fl: "unat (u32_from_le_bytes (slice 4 8 buf)) = n"
    and n: "n = 40 + bl" "n \<le> length buf"
    and crc: "u32_from_le_bytes (slice (36 + bl) n buf) = crc32 (take (36 + bl) buf)"
    and r: "r = \<lparr>wal_lsn = u64_from_le_bytes (slice 8 16 buf),
                 wal_id = u64_from_le_bytes (slice 16 24 buf),
                 wal_version = u64_from_le_bytes (slice 24 32 buf),
                 wal_blob = slice 36 (36 + bl) buf\<rparr>"
    using assms by (auto simp: decode_def Let_def layout_defs bl_def split: if_splits)
  have len: "length (wal_blob r) = bl" using r n by simp
  have n32: "n < 2 ^ 32" using unat_u32_bound [of "u32_from_le_bytes (slice 4 8 buf)"] fl by simp
  show "fits r" using n32 n len by (simp add: fits_def layout_defs)
  have w: "word_of_nat (40 + bl) = u32_from_le_bytes (slice 4 8 buf)"
    "word_of_nat bl = u32_from_le_bytes (slice 32 36 buf)"
    using fl n(1) by (metis of_nat_unat ucast_id) (simp add: bl_def)
  have "take (36 + bl) buf = slice 0 4 buf @ slice 4 8 buf @ slice 8 16 buf @ slice 16 24 buf
          @ slice 24 32 buf @ slice 32 36 buf @ slice 36 (36 + bl) buf"
    using take_slice_append [of 36 "36 + bl" buf] take_slice_append [of 32 36 buf]
      take_slice_append [of 24 32 buf] take_slice_append [of 16 24 buf]
      take_slice_append [of 8 16 buf] take_slice_append [of 4 8 buf]
    by (simp add: slice_0)
  moreover have "u32_to_le_bytes (u32_from_le_bytes (slice 0 4 buf)) = slice 0 4 buf"
    "u32_to_le_bytes (u32_from_le_bytes (slice 4 8 buf)) = slice 4 8 buf"
    "u64_to_le_bytes (u64_from_le_bytes (slice 8 16 buf)) = slice 8 16 buf"
    "u64_to_le_bytes (u64_from_le_bytes (slice 16 24 buf)) = slice 16 24 buf"
    "u64_to_le_bytes (u64_from_le_bytes (slice 24 32 buf)) = slice 24 32 buf"
    "u32_to_le_bytes (u32_from_le_bytes (slice 32 36 buf)) = slice 32 36 buf"
    using n by (auto intro!: u32_to_from_le_bytes u64_to_from_le_bytes)
  ultimately have body: "frame_body r = take (36 + bl) buf"
    using len by (simp add: frame_body_def len Let_def layout_defs magic [symmetric] r w del: of_nat_add)
  have "take n buf = take (36 + bl) buf @ slice (36 + bl) n buf"
    using n by (intro take_slice_append) simp
  moreover have "u32_to_le_bytes (u32_from_le_bytes (slice (36 + bl) n buf)) = slice (36 + bl) n buf"
    using n by (intro u32_to_from_le_bytes) simp
  ultimately show "take n buf = encode r" by (simp add: encode_split body crc)
  show "n = length (encode r)" by (simp add: length_encode len n)
  show "n \<le> length buf" by (rule n(2))
qed

section \<open>Corruption\<close>

text \<open>
  A buffer with the length and the framing fields of an encoded record is rejected as
  \<open>BadCrc\<close> as soon as its checksum field is not the checksum of its body.
\<close>

lemma decode_bad_crc:
  assumes "fits r" and "length body = length (frame_body r)" and "length crc = 4"
    and "slice 0 8 body = slice 0 8 (frame_body r)"
    and "slice 32 36 body = slice 32 36 (frame_body r)"
    and "u32_from_le_bytes crc \<noteq> crc32 body"
  shows "decode (body @ crc @ rest) = Inl BadCrc"
proof -
  let ?n = "length (wal_blob r)" and ?buf = "body @ crc @ rest"
  have lb: "length body = 36 + ?n" using assms(2) by (simp add: length_frame_body)
  have in_body: "j \<le> 36 + ?n \<Longrightarrow> slice i j ?buf = slice i j body" for i j
    by (simp add: slice_append_left lb)
  have "slice i j body = slice i j (frame_body r)" if "j \<le> 8" for i j
    using that assms(4) by (metis slice_0 slice_take)
  then have head: "slice 0 4 body = slice 0 4 (frame_body r)"
    "slice 4 8 body = slice 4 8 (frame_body r)" by simp_all
  have crc: "slice (36 + ?n) (40 + ?n) ?buf = crc" using assms(3) by (simp add: slice_def lb)
  have "take (36 + ?n) ?buf = body" by (simp add: lb)
  then show ?thesis
    using assms(3,6)
    by (simp add: decode_def Let_def layout_defs crc in_body head assms(5) frame_body_slices lb
        fits_len [OF assms(1)] del: of_nat_add)
qed

text \<open>
  A window that touches neither the magic and frame length (bytes 0 to 7), nor the blob
  length (bytes 32 to 35), nor the border between body and checksum.
\<close>

definition safe_window :: "wal_record \<Rightarrow> nat \<Rightarrow> nat \<Rightarrow> bool" where
  "safe_window r i j \<longleftrightarrow> 8 \<le> i \<and> (j \<le> 32 \<or> 36 \<le> i)
     \<and> (j \<le> length (frame_body r) \<or> length (frame_body r) \<le> i)"

lemma corrupt_crc_field:
  assumes "fits r" and "encode r = pre @ bs @ post" and "length bs' = length bs" and "bs' \<noteq> bs"
    and "length (frame_body r) \<le> length pre"
  shows "decode (pre @ bs' @ post @ rest) = Inl BadCrc"
proof -
  let ?crc = "u32_to_le_bytes (crc32 (frame_body r))"
  obtain u where u: "pre = frame_body r @ u" "?crc = u @ bs @ post"
    using assms(2,5) by (auto simp: encode_split append_eq_append_conv_if)
       (metis append_take_drop_id)
  have "length (u @ bs @ post) = 4" by (simp only: u(2) [symmetric] length_u32_to_le_bytes)
  then have len: "length (u @ bs' @ post) = 4" using assms(3) by simp
  have "u32_from_le_bytes (u @ bs' @ post) \<noteq> crc32 (frame_body r)"
    using assms(3,4) u(2) len
    by (metis append_same_eq same_append_eq u32_to_from_le_bytes)
  then show ?thesis
    using decode_bad_crc [OF assms(1) refl len refl refl, of rest] by (simp add: u(1))
qed

lemma corrupt_body:
  assumes "fits r" and "encode r = pre @ bs @ post" and "length bs' = length bs" and "bs' \<noteq> bs"
    and "length bs \<le> 4" and "8 \<le> length pre" and "length pre + length bs \<le> 32 \<or> 36 \<le> length pre"
    and "length pre + length bs \<le> length (frame_body r)"
  shows "decode (pre @ bs' @ post @ rest) = Inl BadCrc"
proof -
  let ?crc = "u32_to_le_bytes (crc32 (frame_body r))"
  define v where "v = drop (length pre + length bs) (frame_body r)"
  have body: "frame_body r = pre @ bs @ v" and post: "post = v @ ?crc"
  proof -
    have "take (length pre + length bs) (encode r) = pre @ bs"
      by (simp add: assms(2))
    then have "take (length pre + length bs) (frame_body r) = pre @ bs"
      using assms(8) by (simp add: encode_split)
    then show "frame_body r = pre @ bs @ v"
      using append_take_drop_id [of "length pre + length bs" "frame_body r"] by (simp add: v_def)
    then show "post = v @ ?crc" using assms(2) by (simp add: encode_split)
  qed
  let ?body = "pre @ bs' @ v"
  have "crc32 ?body \<noteq> crc32 (frame_body r)"
    using crc32_burst [of bs' bs pre v] assms(3,4,5) by (auto simp: body)
  moreover have "slice 32 36 ?body = slice 32 36 (frame_body r)"
    using assms(3,7) by (auto simp: body codec_simps)
  moreover have "slice 0 8 ?body = slice 0 8 (frame_body r)"
    using assms(6) by (simp add: body codec_simps)
  ultimately have "decode (?body @ ?crc @ rest) = Inl BadCrc"
    using assms(1,3) by (intro decode_bad_crc [of r]) (simp_all add: body)
  then show ?thesis by (simp add: post)
qed

section \<open>Properties\<close>

definition sample_record :: wal_record where
  "sample_record = \<lparr>wal_lsn = 42, wal_id = 7, wal_version = 3, wal_blob = [5, 6, 7]\<rparr>"

lemma fits_sample: "fits sample_record"
  by (simp add: fits_def layout_defs sample_record_def)

text \<open>
  C34: decoding inverts encoding, and nothing else decodes.  A buffer decodes to a record
  and a length exactly when it starts with the encoding of that record, the record fits the
  32-bit length field, and the length is that of the encoding; what follows is ignored.
\<close>

theorem decode_exactly_encodings:
  "decode buf = Inr (r, n) \<longleftrightarrow> fits r \<and> n = length (encode r) \<and> take n buf = encode r"
proof
  assume "decode buf = Inr (r, n)"
  from decode_Inr [OF this] show "fits r \<and> n = length (encode r) \<and> take n buf = encode r" by blast
next
  assume "fits r \<and> n = length (encode r) \<and> take n buf = encode r"
  then show "decode buf = Inr (r, n)"
    using decode_encode [of r "drop n buf"] append_take_drop_id [of n buf] by metis
qed

text \<open>
  A frame cut off at any byte (a torn write) decodes to \<open>Truncated\<close>, never to a
  record and never to another error.
\<close>

theorem torn_frame_truncated:
  assumes "fits r" and "k < length (encode r)"
  shows "decode (take k (encode r)) = Inl Truncated"
  by (rule decode_torn [OF assms])

theorem torn_frame_truncated_witness:
  "decode (take 42 (encode sample_record)) = Inl Truncated"
  by (rule torn_frame_truncated [OF fits_sample]) (simp add: length_encode sample_record_def)

text \<open>
  C35: Overwriting at most four consecutive bytes of a frame outside its magic and length
  fields and not across the start of the checksum is reported as \<open>BadCrc\<close>: such a frame
  is never decoded into a different record.
\<close>

theorem corrupted_frame_bad_crc:
  assumes "fits r" and "encode r = pre @ bs @ post" and "length bs' = length bs" and "bs' \<noteq> bs"
    and "length bs \<le> 4" and "safe_window r (length pre) (length pre + length bs)"
  shows "decode (pre @ bs' @ post @ rest) = Inl BadCrc"
  using assms corrupt_crc_field [OF assms(1-4)] corrupt_body [OF assms(1-5)]
  by (auto simp: safe_window_def)

theorem corrupted_frame_bad_crc_witness:
  "decode (take 37 (encode sample_record) @ [249] @ drop 38 (encode sample_record) @ [])
     = Inl BadCrc"
proof (rule corrupted_frame_bad_crc [OF fits_sample, where bs = "[6]"])
  have nth: "encode sample_record ! 37 = 6"
    by (simp add: encode_split nth_append length_frame_body)
       (simp add: frame_body_def Let_def nth_append sample_record_def)
  have "37 < length (encode sample_record)" by (simp add: length_encode)
  from id_take_nth_drop [OF this]
  show "encode sample_record
          = take 37 (encode sample_record) @ [6] @ drop 38 (encode sample_record)"
    by (simp add: nth)
  show "safe_window sample_record (length (take 37 (encode sample_record)))
          (length (take 37 (encode sample_record)) + length [6 :: u8])"
    by (simp add: safe_window_def length_encode length_frame_body) (simp add: sample_record_def)
qed simp_all

text \<open>
  The table-driven checksum computes the bitwise CRC-32 with the reflected polynomial
  \<open>0xEDB88320\<close>, for every input.
\<close>

theorem crc32_table_is_bitwise: "crc32 bs = crc32_bitwise 0xFFFFFFFF bs XOR 0xFFFFFFFF"
  by (rule crc32_eval)

text \<open>
  The frame's length field is the low 32 bits of the length, unchecked: a record whose
  frame does not fit 32 bits is encoded without an error but never decoded back.
\<close>

theorem oversized_record_lost:
  assumes "\<not> fits r"
  shows "decode (encode r @ rest) \<noteq> Inr (r, n)"
  using assms decode_Inr(1) by blast

theorem oversized_record_lost_witness:
  "decode (encode \<lparr>wal_lsn = 1, wal_id = 1, wal_version = 1,
                   wal_blob = replicate 4294967296 0\<rparr> @ []) \<noteq>
     Inr (\<lparr>wal_lsn = 1, wal_id = 1, wal_version = 1, wal_blob = replicate 4294967296 0\<rparr>, 40)"
  by (rule oversized_record_lost) (simp add: fits_def layout_defs)

end
