(* ===== verification/Lsn.thy ===== *)
theory Lsn
  imports Domain
begin

text \<open>
  \<open>src/lsn.rs\<close>: the one allocator of log sequence numbers and the checkpoint floor.  The
  \<open>BTreeSet\<close> of pending durable numbers is a set; its first element in iteration order
  is its minimum.  \<open>fetch_add\<close> wraps at 64 bits.
\<close>

section \<open>State and operations\<close>

record lsn_state =
  next_lsn :: u64
  pending_lsns :: "lsn set"

definition lsn_new :: "lsn \<Rightarrow> lsn_state" where
  "lsn_new start = \<lparr>next_lsn = start, pending_lsns = {}\<rparr>"

definition alloc :: "lsn_state \<Rightarrow> lsn \<times> lsn_state" where
  "alloc s = (next_lsn s, s\<lparr>next_lsn := next_lsn s + 1\<rparr>)"

definition alloc_block :: "u64 \<Rightarrow> lsn_state \<Rightarrow> lsn \<times> lsn_state" where
  "alloc_block count s = (next_lsn s, s\<lparr>next_lsn := next_lsn s + count\<rparr>)"

definition note_pending :: "lsn \<Rightarrow> lsn_state \<Rightarrow> lsn_state" where
  "note_pending l s = s\<lparr>pending_lsns := insert l (pending_lsns s)\<rparr>"

definition note_drained :: "lsn \<Rightarrow> lsn_state \<Rightarrow> lsn_state" where
  "note_drained l s = s\<lparr>pending_lsns := pending_lsns s - {l}\<rparr>"

definition first_pending :: "lsn_state \<Rightarrow> lsn option" where
  "first_pending s = (if pending_lsns s = {} then None else Some (Min (pending_lsns s)))"

definition checkpoint_watermark :: "lsn_state \<Rightarrow> lsn \<Rightarrow> lsn option" where
  "checkpoint_watermark s proposed =
     (case first_pending s of
        None \<Rightarrow> Some proposed
      | Some m \<Rightarrow> if m = 0 then None else Some (min proposed (m - 1)))"

section \<open>The floor\<close>

definition lsn_inv :: "lsn_state \<Rightarrow> bool" where
  "lsn_inv s \<longleftrightarrow> finite (pending_lsns s)"

lemma lsn_inv_new [simp, intro]: "lsn_inv (lsn_new l)"
  by (simp add: lsn_inv_def lsn_new_def)

lemma lsn_inv_note [simp, intro]:
  "lsn_inv s \<Longrightarrow> lsn_inv (note_pending l s)" "lsn_inv s \<Longrightarrow> lsn_inv (note_drained l s)"
  "lsn_inv s \<Longrightarrow> lsn_inv (snd (alloc s))" "lsn_inv s \<Longrightarrow> lsn_inv (snd (alloc_block n s))"
  by (simp_all add: lsn_inv_def note_pending_def note_drained_def alloc_def alloc_block_def)

lemma pending_lsns_simps [simp, frame_simps]:
  "pending_lsns (lsn_new l) = {}"
  "pending_lsns (note_pending l s) = insert l (pending_lsns s)"
  "pending_lsns (note_drained l s) = pending_lsns s - {l}"
  "pending_lsns (snd (alloc s)) = pending_lsns s"
  "pending_lsns (snd (alloc_block n s)) = pending_lsns s"
  by (simp_all add: lsn_new_def note_pending_def note_drained_def alloc_def alloc_block_def)

lemma next_lsn_simps [simp, frame_simps]:
  "next_lsn (lsn_new l) = l"
  "next_lsn (note_pending l s) = next_lsn s"
  "next_lsn (note_drained l s) = next_lsn s"
  "next_lsn (snd (alloc s)) = next_lsn s + 1"
  "next_lsn (snd (alloc_block n s)) = next_lsn s + n"
  by (simp_all add: lsn_new_def note_pending_def note_drained_def alloc_def alloc_block_def)

lemma alloc_block_one: "alloc_block 1 s = alloc s"
  by (simp add: alloc_def alloc_block_def)

lemma word_le_minus_one: "(m :: u64) \<noteq> 0 \<Longrightarrow> w \<le> m - 1 \<longleftrightarrow> w < m"
  by unat_arith

lemma first_pending_Min:
  "lsn_inv s \<Longrightarrow> first_pending s = Some m \<longleftrightarrow> m \<in> pending_lsns s \<and> (\<forall>l \<in> pending_lsns s. m \<le> l)"
  by (auto simp: first_pending_def lsn_inv_def intro: Min_eqI Min_in)

lemma first_pending_None: "first_pending s = None \<longleftrightarrow> pending_lsns s = {}"
  by (simp add: first_pending_def)

lemma greatest_is_min:
  "w \<le> a \<and> w \<le> b \<and> (\<forall>w'. w' \<le> a \<longrightarrow> w' \<le> b \<longrightarrow> w' \<le> w) \<longleftrightarrow> w = min a b"
  for a b w :: "'a::linorder"
  by (auto simp: min_def intro: antisym)

text \<open>
  The watermark is exactly the greatest number that is at most the proposal and below
  every pending durable number.
\<close>

lemma watermark_iff:
  assumes "lsn_inv s"
  shows "checkpoint_watermark s p = Some w \<longleftrightarrow>
    w \<le> p \<and> (\<forall>l \<in> pending_lsns s. w < l)
    \<and> (\<forall>w'. w' \<le> p \<longrightarrow> (\<forall>l \<in> pending_lsns s. w' < l) \<longrightarrow> w' \<le> w)"
proof (cases "first_pending s")
  case None
  then have "pending_lsns s = {}" by (simp add: first_pending_None)
  with None show ?thesis by (auto simp: checkpoint_watermark_def intro: antisym)
next
  case (Some m)
  then have m: "m \<in> pending_lsns s" "\<forall>l \<in> pending_lsns s. m \<le> l"
    using first_pending_Min [OF assms] by auto
  then have below: "(\<forall>l \<in> pending_lsns s. v < l) \<longleftrightarrow> v < m" for v by (auto intro: less_le_trans)
  show ?thesis
  proof (cases "m = 0")
    case True
    with Some show ?thesis by (simp add: checkpoint_watermark_def below)
  next
    case False
    then have lt: "v < m \<longleftrightarrow> v \<le> m - 1" for v by (simp add: word_le_minus_one)
    have "checkpoint_watermark s p = Some w \<longleftrightarrow> w = min p (m - 1)"
      using Some False by (auto simp: checkpoint_watermark_def)
    then show ?thesis unfolding below lt greatest_is_min [symmetric] by simp
  qed
qed

lemma watermark_None: "lsn_inv s \<Longrightarrow> checkpoint_watermark s p = None \<longleftrightarrow> 0 \<in> pending_lsns s"
proof -
  assume inv: "lsn_inv s"
  have "checkpoint_watermark s p = None \<longleftrightarrow> first_pending s = Some 0"
    by (auto simp: checkpoint_watermark_def split: option.splits)
  also have "\<dots> \<longleftrightarrow> 0 \<in> pending_lsns s" by (auto simp: first_pending_Min [OF inv])
  finally show ?thesis .
qed

section \<open>Uniqueness of the allocated numbers\<close>

text \<open>
  The allocations of all appenders, in the order in which their \<open>fetch_add\<close>s take effect:
  each request reserves a block of some size, \<open>alloc\<close> being a block of one.  The result
  lists every number handed out.
\<close>

fun block_lsns :: "lsn \<Rightarrow> nat \<Rightarrow> lsn list" where
  "block_lsns first 0 = []"
| "block_lsns first (Suc n) = first # block_lsns (first + 1) n"

fun alloc_run :: "nat list \<Rightarrow> lsn_state \<Rightarrow> lsn list" where
  "alloc_run [] s = []"
| "alloc_run (c # cs) s =
     (let (first, s') = alloc_block (word_of_nat c) s in block_lsns first c @ alloc_run cs s')"

lemma block_lsns_upt: "block_lsns (word_of_nat a) n = map word_of_nat [a..<a + n]"
proof (induction n arbitrary: a)
  case 0
  then show ?case by simp
next
  case (Suc n)
  have "word_of_nat a + 1 = (word_of_nat (Suc a) :: lsn)" by simp
  moreover have "[a..<a + Suc n] = a # [Suc a..<Suc a + n]" by (simp add: upt_rec)
  ultimately show ?case using Suc.IH [of "Suc a"] by (simp del: of_nat_Suc)
qed

lemma alloc_run_upt:
  "next_lsn s = word_of_nat a \<Longrightarrow> alloc_run cs s = map word_of_nat [a..<a + sum_list cs]"
proof (induction cs arbitrary: s a)
  case Nil
  then show ?case by simp
next
  case (Cons c cs)
  have "[a..<a + (c + sum_list cs)] = [a..<a + c] @ [a + c..<a + c + sum_list cs]"
    by (metis add.assoc le_add1 upt_add_eq_append)
  then show ?case
    using Cons.IH [of "s\<lparr>next_lsn := next_lsn s + word_of_nat c\<rparr>" "a + c"] Cons.prems
    by (simp add: alloc_block_def block_lsns_upt)
qed

lemma sorted_map_word_of_nat:
  "b \<le> 18446744073709551616 \<Longrightarrow> sorted_wrt (<) (map (word_of_nat :: nat \<Rightarrow> u64) [a..<b])"
  unfolding sorted_wrt_map
  by (rule sorted_wrt_mono_rel [OF _ sorted_wrt_upt])
     (auto simp: word_less_nat_alt unat_word_of_nat_u64)

section \<open>Properties\<close>

text \<open>
  C36: The checkpoint watermark is safe and as high as it can be: it never exceeds the
  proposal, lies below every pending durable number, and no greater number does both.
\<close>

theorem watermark_greatest_safe:
  assumes "lsn_inv s"
  shows "checkpoint_watermark s p = Some w \<longleftrightarrow>
    w \<le> p \<and> (\<forall>l \<in> pending_lsns s. w < l)
    \<and> (\<forall>w'. w' \<le> p \<longrightarrow> (\<forall>l \<in> pending_lsns s. w' < l) \<longrightarrow> w' \<le> w)"
  by (rule watermark_iff [OF assms])

theorem watermark_greatest_safe_witness:
  "checkpoint_watermark (note_pending 20 (note_pending 10 (lsn_new 0))) 50 = Some 9 \<and>
   (9 :: lsn) \<le> 50"
proof -
  have inv: "lsn_inv (note_pending 20 (note_pending 10 (lsn_new 0)))" by simp
  have w: "checkpoint_watermark (note_pending 20 (note_pending 10 (lsn_new 0))) 50 = Some 9"
    by (simp add: checkpoint_watermark_def first_pending_def)
  then show ?thesis using watermark_greatest_safe [OF inv, of 50 9] by simp
qed

text \<open>
  There is no safe checkpoint at all exactly when the number 0 is pending.
\<close>

theorem watermark_none_iff:
  assumes "lsn_inv s"
  shows "checkpoint_watermark s p = None \<longleftrightarrow> 0 \<in> pending_lsns s"
  by (rule watermark_None [OF assms])

theorem watermark_none_iff_witness:
  "checkpoint_watermark (note_pending 0 (lsn_new 0)) 7 = None"
  using watermark_none_iff [of "note_pending 0 (lsn_new 0)" 7] by simp

text \<open>
  However the appenders interleave, the numbers they are handed are strictly
  increasing, hence distinct, until the 64-bit counter wraps.
\<close>

theorem allocated_lsns_increasing:
  assumes "unat (next_lsn s) + sum_list counts \<le> 2 ^ 64"
  shows "sorted_wrt (<) (alloc_run counts s) \<and> (\<forall>l \<in> set (alloc_run counts s). next_lsn s \<le> l)"
proof -
  have run: "alloc_run counts s
      = map word_of_nat [unat (next_lsn s)..<unat (next_lsn s) + sum_list counts]"
    by (rule alloc_run_upt) simp
  have "next_lsn s \<le> word_of_nat n"
    if "unat (next_lsn s) \<le> n" "n < unat (next_lsn s) + sum_list counts" for n
    using that assms by (simp add: word_le_nat_alt unat_word_of_nat_u64)
  then show ?thesis using assms by (auto simp: run sorted_map_word_of_nat)
qed

theorem allocated_lsns_increasing_witness: "sorted_wrt (<) (alloc_run [1, 3, 1] (lsn_new 5))"
  using allocated_lsns_increasing [of "lsn_new 5" "[1, 3, 1]"] by simp

end
