(* ===== verification/Lww.thy ===== *)
theory Lww
  imports Domain
begin

text \<open>
  The abstract specification shared by the cache, the stores and recovery: a table of
  player states merged under last-write-wins by version, where an equal version wins as
  well.  \<open>lww_put\<close> is the reference for \<open>WriteBehindCache::apply\<close>,
  \<open>WriteBehindCache::requeue_dirty\<close> and the upsert of the stores.
\<close>

type_synonym table = "player_id \<rightharpoonup> player_state"

definition lww_put :: "player_state \<Rightarrow> table \<Rightarrow> table" where
  "lww_put st m =
     (case m (ps_id st) of
        Some e \<Rightarrow> if ps_version st < ps_version e then m else m(ps_id st \<mapsto> st)
      | None \<Rightarrow> m(ps_id st \<mapsto> st))"

definition lww_all :: "player_state list \<Rightarrow> table \<Rightarrow> table" where
  "lww_all sts m = fold lww_put sts m"

text \<open>A table covers a state when it holds that player at the same version or a newer one.\<close>

definition covers :: "table \<Rightarrow> player_state \<Rightarrow> bool" where
  "covers m st \<longleftrightarrow> (\<exists>e. m (ps_id st) = Some e \<and> ps_version st \<le> ps_version e)"

definition keyed :: "table \<Rightarrow> bool" where
  "keyed m \<longleftrightarrow> (\<forall>i e. m i = Some e \<longrightarrow> ps_id e = i)"

section \<open>One write\<close>

lemma lww_put_other [lww_simps]: "i \<noteq> ps_id st \<Longrightarrow> lww_put st m i = m i"
  by (auto simp: lww_put_def split: option.splits)

lemma lww_put_same [lww_simps]:
  "lww_put st m (ps_id st) =
     (case m (ps_id st) of
        Some e \<Rightarrow> if ps_version st < ps_version e then Some e else Some st
      | None \<Rightarrow> Some st)"
  by (auto simp: lww_put_def split: option.splits)

lemma dom_lww_put [simp, lww_simps]: "dom (lww_put st m) = insert (ps_id st) (dom m)"
  by (auto simp: lww_put_def split: option.splits)

lemma keyed_lww_put [intro]: "keyed m \<Longrightarrow> keyed (lww_put st m)"
  by (auto simp: keyed_def lww_put_def split: option.splits if_splits)

lemma keyed_empty [simp]: "keyed Map.empty"
  by (simp add: keyed_def)

lemma covers_lww_put_self [simp, lww_simps]: "covers (lww_put st m) st"
  by (auto simp: covers_def lww_put_same split: option.splits)

lemma covers_lww_put_mono: "covers m s \<Longrightarrow> covers (lww_put st m) s"
  by (cases "ps_id s = ps_id st")
     (auto simp: covers_def lww_put_same lww_put_other split: option.splits)

lemma covers_entry: "keyed m \<Longrightarrow> m i = Some e \<Longrightarrow> covers m e"
  by (auto simp: covers_def keyed_def)

lemma covers_trans_entry:
  "covers m e \<Longrightarrow> ps_id s = ps_id e \<Longrightarrow> ps_version s \<le> ps_version e \<Longrightarrow> covers m s"
  by (auto simp: covers_def)

lemma lww_put_absorb: "covers m st \<Longrightarrow> m (ps_id st) \<noteq> Some st \<Longrightarrow>
    (\<forall>e. m (ps_id st) = Some e \<longrightarrow> ps_version e \<noteq> ps_version st) \<Longrightarrow> lww_put st m = m"
  by (auto simp: covers_def lww_put_def)

lemma lww_put_idem: "lww_put st (lww_put st m) = lww_put st m"
  by (rule ext) (auto simp: lww_put_def split: option.splits)

section \<open>A batch of writes\<close>

lemma lww_all_simps [simp, lww_simps]:
  "lww_all [] m = m"
  "lww_all (st # sts) m = lww_all sts (lww_put st m)"
  "lww_all (sts @ sts') m = lww_all sts' (lww_all sts m)"
  by (simp_all add: lww_all_def)

lemma dom_lww_all [simp, lww_simps]: "dom (lww_all sts m) = ps_id ` set sts \<union> dom m"
  by (induction sts arbitrary: m) auto

lemma keyed_lww_all [intro]: "keyed m \<Longrightarrow> keyed (lww_all sts m)"
  by (induction sts arbitrary: m) auto

lemma covers_lww_all_mono: "covers m s \<Longrightarrow> covers (lww_all sts m) s"
  by (induction sts arbitrary: m) (auto intro: covers_lww_put_mono)

lemma covers_lww_all: "s \<in> set sts \<Longrightarrow> covers (lww_all sts m) s"
proof (induction sts arbitrary: m)
  case Nil
  then show ?case by simp
next
  case (Cons st sts)
  then show ?case by (auto intro: covers_lww_all_mono)
qed

lemma lww_all_other: "i \<notin> ps_id ` set sts \<Longrightarrow> lww_all sts m i = m i"
  by (induction sts arbitrary: m) (auto simp: lww_put_other)

text \<open>
  The value of a key after a batch, without the intermediate tables: the last write among
  those of the greatest version, where a smaller version than the initial one loses.
\<close>

definition wins :: "player_state list \<Rightarrow> player_state \<Rightarrow> bool" where
  "wins sts st \<longleftrightarrow> (\<exists>us vs. sts = us @ st # vs
     \<and> (\<forall>s \<in> set us. ps_id s = ps_id st \<longrightarrow> ps_version s \<le> ps_version st)
     \<and> (\<forall>s \<in> set vs. ps_id s = ps_id st \<longrightarrow> ps_version s < ps_version st))"

lemma lww_all_keeps:
  "m i = Some e \<Longrightarrow> (\<forall>s \<in> set sts. ps_id s = i \<longrightarrow> ps_version s < ps_version e) \<Longrightarrow>
   lww_all sts m i = Some e"
proof (induction sts arbitrary: m)
  case Nil
  then show ?case by simp
next
  case (Cons st sts)
  then have "lww_put st m i = Some e"
    by (cases "ps_id st = i") (auto simp: lww_put_same lww_put_other)
  with Cons show ?case by simp
qed

lemma lww_all_version:
  "lww_all sts m i = Some e \<Longrightarrow> e \<in> set sts \<and> ps_id e = i \<or> m i = Some e"
proof (induction sts arbitrary: m)
  case Nil
  then show ?case by simp
next
  case (Cons st sts)
  then show ?case by (fastforce simp: lww_put_def split: option.splits if_splits)
qed

lemma lww_all_winner:
  assumes "wins sts st" and "\<forall>e. m (ps_id st) = Some e \<longrightarrow> ps_version e \<le> ps_version st"
  shows "lww_all sts m (ps_id st) = Some st"
proof -
  obtain us vs where sts: "sts = us @ st # vs"
    and us: "\<forall>s \<in> set us. ps_id s = ps_id st \<longrightarrow> ps_version s \<le> ps_version st"
    and vs: "\<forall>s \<in> set vs. ps_id s = ps_id st \<longrightarrow> ps_version s < ps_version st"
    using assms(1) by (auto simp: wins_def)
  have "ps_version e \<le> ps_version st" if "lww_all us m (ps_id st) = Some e" for e
    using lww_all_version [OF that] us assms(2) by auto
  then have "lww_put st (lww_all us m) (ps_id st) = Some st"
    by (auto simp: lww_put_same split: option.splits)
  then show ?thesis using vs by (auto simp: sts intro: lww_all_keeps)
qed

lemma wins_exists:
  "\<exists>s \<in> set sts. ps_id s = i \<Longrightarrow> \<exists>st. wins sts st \<and> ps_id st = i"
proof (induction sts)
  case Nil
  then show ?case by simp
next
  case (Cons a sts)
  show ?case
  proof (cases "\<exists>s \<in> set sts. ps_id s = i")
    case True
    with Cons.IH obtain st us vs where st: "ps_id st = i" "sts = us @ st # vs"
      "\<forall>s \<in> set us. ps_id s = ps_id st \<longrightarrow> ps_version s \<le> ps_version st"
      "\<forall>s \<in> set vs. ps_id s = ps_id st \<longrightarrow> ps_version s < ps_version st"
      by (auto simp: wins_def)
    show ?thesis
    proof (cases "ps_id a = i \<and> ps_version st < ps_version a")
      case True
      then have "wins (a # sts) a" unfolding wins_def using st
        by (intro exI [of _ "[]"] exI [of _ sts]) auto
      with True show ?thesis by blast
    next
      case False
      then have "wins (a # sts) st" unfolding wins_def using st
        by (intro exI [of _ "a # us"] exI [of _ vs]) auto
      with st show ?thesis by blast
    qed
  next
    case False
    with Cons.prems have i: "ps_id a = i" by auto
    have "wins (a # sts) a"
      unfolding wins_def using False i by (intro exI [of _ "[]"] exI [of _ sts]) auto
    with i show ?thesis by blast
  qed
qed

section \<open>Growth of a table\<close>

text \<open>\<open>grows m m'\<close>: no player's version goes back between the two tables.\<close>

definition grows :: "table \<Rightarrow> table \<Rightarrow> bool" where
  "grows m m' \<longleftrightarrow> (\<forall>st. covers m st \<longrightarrow> covers m' st)"

lemma grows_refl [simp, intro]: "grows m m"
  by (simp add: grows_def)

lemma grows_trans [trans]: "grows m m' \<Longrightarrow> grows m' m'' \<Longrightarrow> grows m m''"
  by (simp add: grows_def)

lemma grows_lww_put [simp, intro]: "grows m (lww_put st m)"
  by (simp add: grows_def covers_lww_put_mono)

lemma grows_lww_all [simp, intro]: "grows m (lww_all sts m)"
  by (simp add: grows_def covers_lww_all_mono)

lemma covers_lww_put_iff:
  "covers (lww_put st m) s \<longleftrightarrow> covers m s \<or> ps_id s = ps_id st \<and> ps_version s \<le> ps_version st"
  by (cases "ps_id s = ps_id st")
    (auto simp: covers_def lww_put_same lww_put_other split: option.splits)

lemma covers_lww_all_iff:
  "covers (lww_all sts m) s \<longleftrightarrow>
    covers m s \<or> (\<exists>st \<in> set sts. ps_id s = ps_id st \<and> ps_version s \<le> ps_version st)"
  by (induction sts arbitrary: m) (auto simp: covers_lww_put_iff)

end
