(* ===== verification/Traits.thy ===== *)
theory Traits
  imports Lww Lsn
begin

text \<open>
  The four traits of \<open>src/domain.rs\<close> (\<open>Queue\<close>, \<open>WriteAheadLog\<close>, \<open>PersistenceStore\<close>,
  \<open>Cache\<close>) as locales: the methods a client calls, an abstraction of the state, and the
  laws the documentation of the trait promises.  Lemmas that a client needs are proved
  here once from the laws; each provider's theory interprets its locale.  The store error
  type of \<open>src/error.rs\<close>, which is part of the store's interface, is here too.
\<close>

section \<open>Store errors\<close>

datatype store_error = Unavailable | Transient string | Fatal string

fun is_retryable :: "store_error \<Rightarrow> bool" where
  "is_retryable Unavailable = True"
| "is_retryable (Transient m) = True"
| "is_retryable (Fatal m) = False"

lemma is_retryable_iff: "is_retryable e \<longleftrightarrow> (\<forall>m. e \<noteq> Fatal m)"
  by (cases e) auto

section \<open>Queue\<close>

text \<open>
  The contract of \<open>Queue\<close> as a reference implementation: a list of at most \<open>cap\<close>
  requests, and the outcomes a sequence of calls has on it.
\<close>

definition bounded_enq :: "nat \<Rightarrow> write_request \<Rightarrow> write_request list \<Rightarrow>
    (write_request + unit) \<times> write_request list" where
  "bounded_enq cap r xs = (if length xs < cap then (Inr (), xs @ [r]) else (Inl r, xs))"

fun bounded_deq :: "write_request list \<Rightarrow> write_request option \<times> write_request list" where
  "bounded_deq [] = (None, [])"
| "bounded_deq (x # xs) = (Some x, xs)"

datatype queue_op = Enq write_request | Deq

datatype queue_out = Accepted | Rejected write_request | Popped "write_request option"

fun queue_step :: "(write_request \<Rightarrow> 'q \<Rightarrow> (write_request + unit) \<times> 'q) \<Rightarrow>
    ('q \<Rightarrow> write_request option \<times> 'q) \<Rightarrow> queue_op \<Rightarrow> 'q \<Rightarrow> queue_out \<times> 'q" where
  "queue_step enq deq (Enq r) q =
     (case enq r q of (Inr u, q') \<Rightarrow> (Accepted, q') | (Inl r', q') \<Rightarrow> (Rejected r', q'))"
| "queue_step enq deq Deq q = (case deq q of (x, q') \<Rightarrow> (Popped x, q'))"

fun queue_run :: "(write_request \<Rightarrow> 'q \<Rightarrow> (write_request + unit) \<times> 'q) \<Rightarrow>
    ('q \<Rightarrow> write_request option \<times> 'q) \<Rightarrow> queue_op list \<Rightarrow> 'q \<Rightarrow> queue_out list \<times> 'q" where
  "queue_run enq deq [] q = ([], q)"
| "queue_run enq deq (a # ops) q =
     (let (out, q1) = queue_step enq deq a q; (outs, q2) = queue_run enq deq ops q1
      in (out # outs, q2))"

locale queue_trait =
  fixes try_enqueue :: "write_request \<Rightarrow> 'q \<Rightarrow> (write_request + unit) \<times> 'q"
    and try_dequeue :: "'q \<Rightarrow> write_request option \<times> 'q"
    and capacity :: "'q \<Rightarrow> nat"
    and contents :: "'q \<Rightarrow> write_request list"
    and inv :: "'q \<Rightarrow> bool"
  assumes enqueue_ok: "inv q \<Longrightarrow> length (contents q) < capacity q \<Longrightarrow>
      fst (try_enqueue r q) = Inr () \<and> contents (snd (try_enqueue r q)) = contents q @ [r]"
    and enqueue_full: "inv q \<Longrightarrow> length (contents q) = capacity q \<Longrightarrow>
      try_enqueue r q = (Inl r, q)"
    and dequeue_some: "inv q \<Longrightarrow> contents q = r # rs \<Longrightarrow>
      fst (try_dequeue q) = Some r \<and> contents (snd (try_dequeue q)) = rs"
    and dequeue_none: "inv q \<Longrightarrow> contents q = [] \<Longrightarrow> try_dequeue q = (None, q)"
    and inv_enqueue: "inv q \<Longrightarrow> inv (snd (try_enqueue r q))"
    and inv_dequeue: "inv q \<Longrightarrow> inv (snd (try_dequeue q))"
    and bounded: "inv q \<Longrightarrow> length (contents q) \<le> capacity q"
    and capacity_enqueue: "inv q \<Longrightarrow> capacity (snd (try_enqueue r q)) = capacity q"
    and capacity_dequeue: "inv q \<Longrightarrow> capacity (snd (try_dequeue q)) = capacity q"
begin

lemma enqueue_result:
  assumes "inv q"
  shows "fst (try_enqueue r q) = Inr () \<longleftrightarrow> length (contents q) < capacity q"
  using assms enqueue_ok [of q r] enqueue_full [of q r] bounded [of q] by fastforce

lemma enqueue_contents:
  assumes "inv q"
  shows "contents (snd (try_enqueue r q)) =
    (if length (contents q) < capacity q then contents q @ [r] else contents q)"
  using assms enqueue_ok [of q r] enqueue_full [of q r] bounded [of q] by fastforce

lemma dequeue_contents:
  assumes "inv q"
  shows "try_dequeue q = (r, q') \<Longrightarrow>
    (case contents q of [] \<Rightarrow> r = None \<and> q' = q
     | x # xs \<Rightarrow> r = Some x \<and> contents q' = xs)"
  using assms dequeue_some [of q] dequeue_none [of q] by (auto split: list.splits)

text \<open>Every provider simulates the reference queue, call by call.\<close>

lemma step_refines:
  assumes "inv q" and "queue_step try_enqueue try_dequeue a q = (out, q')"
  shows "queue_step (bounded_enq (capacity q)) bounded_deq a (contents q) = (out, contents q')
    \<and> inv q' \<and> capacity q' = capacity q"
proof (cases a)
  case (Enq r)
  show ?thesis
  proof (cases "length (contents q) < capacity q")
    case True
    with assms Enq enqueue_ok [of q r] inv_enqueue [of q r] capacity_enqueue [of q r]
    show ?thesis by (auto simp: bounded_enq_def split: prod.splits sum.splits unit.splits)
  next
    case False
    with assms(1) bounded have "length (contents q) = capacity q" by fastforce
    with assms Enq enqueue_full [of q r]
    show ?thesis by (auto simp: bounded_enq_def)
  qed
next
  case Deq
  with assms dequeue_some [of q] dequeue_none [of q] inv_dequeue [of q] capacity_dequeue [of q]
  show ?thesis by (cases "contents q") (auto split: prod.splits)
qed

lemma run_refines:
  "inv q \<Longrightarrow> queue_run try_enqueue try_dequeue ops q = (outs, q') \<Longrightarrow>
    queue_run (bounded_enq (capacity q)) bounded_deq ops (contents q) = (outs, contents q')
    \<and> inv q' \<and> capacity q' = capacity q"
proof (induction ops arbitrary: q outs)
  case Nil
  then show ?case by simp
next
  case (Cons a ops)
  obtain out q1 where s: "queue_step try_enqueue try_dequeue a q = (out, q1)" by fastforce
  obtain outs1 where r: "queue_run try_enqueue try_dequeue ops q1 = (outs1, q')"
    and "outs = out # outs1" using Cons.prems(2) s by (auto split: prod.splits)
  with step_refines [OF Cons.prems(1) s] Cons.IH [of q1 outs1] show ?case by simp
qed

end

section \<open>Cache\<close>

locale cache_trait =
  fixes apply_req :: "write_request \<Rightarrow> 'c \<Rightarrow> 'c"
    and take :: "nat \<Rightarrow> 'c \<Rightarrow> player_state list \<times> 'c"
    and requeue :: "player_state list \<Rightarrow> 'c \<Rightarrow> 'c"
    and view :: "'c \<Rightarrow> table"
    and dirty :: "'c \<Rightarrow> player_id set"
    and inv :: "'c \<Rightarrow> bool"
  assumes view_apply: "inv c \<Longrightarrow> view (apply_req r c) = lww_put (to_state r) (view c)"
    and dirty_apply: "inv c \<Longrightarrow> dirty (apply_req r c) =
      (if \<exists>e. view c (wr_id r) = Some e \<and> wr_version r < ps_version e then dirty c
       else insert (wr_id r) (dirty c))"
    and requeue_Nil: "inv c \<Longrightarrow> requeue [] c = c"
    and requeue_append: "inv c \<Longrightarrow> requeue (sts @ sts') c = requeue sts' (requeue sts c)"
    and view_requeue: "inv c \<Longrightarrow> view (requeue [st] c) = lww_put st (view c)"
    and dirty_requeue: "inv c \<Longrightarrow> dirty (requeue [st] c) =
      (if \<exists>e. view c (ps_id st) = Some e \<and> ps_version st < ps_version e then dirty c
       else insert (ps_id st) (dirty c))"
    and take_view: "inv c \<Longrightarrow> take n c = (b, c') \<Longrightarrow> view c' = view c"
    and take_dirty: "inv c \<Longrightarrow> take n c = (b, c') \<Longrightarrow> dirty c' = dirty c - ps_id ` set b"
    and take_batch: "inv c \<Longrightarrow> take n c = (b, c') \<Longrightarrow> st \<in> set b \<Longrightarrow>
      ps_id st \<in> dirty c \<and> view c (ps_id st) = Some st"
    and take_distinct: "inv c \<Longrightarrow> take n c = (b, c') \<Longrightarrow> distinct (map ps_id b)"
    and take_length: "inv c \<Longrightarrow> take n c = (b, c') \<Longrightarrow> length b = min n (card (dirty c))"
    and dirty_finite: "inv c \<Longrightarrow> finite (dirty c)"
    and dirty_in_view: "inv c \<Longrightarrow> dirty c \<subseteq> dom (view c)"
    and view_keyed: "inv c \<Longrightarrow> keyed (view c)"
    and inv_apply: "inv c \<Longrightarrow> inv (apply_req r c)"
    and inv_requeue: "inv c \<Longrightarrow> inv (requeue sts c)"
    and inv_take: "inv c \<Longrightarrow> take n c = (b, c') \<Longrightarrow> inv c'"
begin

text \<open>
  The promise a flusher relies on: a state is safe in the cache when it is dirty and not
  newer than what the cache holds.
\<close>

lemma requeue_step: "inv c \<Longrightarrow> requeue (st # sts) c = requeue sts (requeue [st] c)"
  using requeue_append [of c "[st]" sts] by simp

lemma requeue_view: "inv c \<Longrightarrow> view (requeue sts c) = lww_all sts (view c)"
proof (induction sts arbitrary: c)
  case Nil
  then show ?case by (simp add: requeue_Nil)
next
  case (Cons st sts)
  have "view (requeue sts (requeue [st] c)) = lww_all sts (lww_put st (view c))"
    using Cons by (simp add: inv_requeue view_requeue)
  then show ?case by (simp only: requeue_step [OF Cons.prems, of st sts] lww_all_simps)
qed

lemma requeue_dirty_mono: "inv c \<Longrightarrow> dirty c \<subseteq> dirty (requeue sts c)"
proof (induction sts arbitrary: c)
  case Nil
  then show ?case by (simp add: requeue_Nil)
next
  case (Cons st sts)
  have "dirty c \<subseteq> dirty (requeue [st] c)" using Cons.prems by (auto simp: dirty_requeue)
  also have "\<dots> \<subseteq> dirty (requeue sts (requeue [st] c))"
    using Cons.prems by (intro Cons.IH inv_requeue)
  finally show ?case by (simp only: requeue_step [OF Cons.prems, of st sts])
qed

lemma apply_all_inv: "inv c \<Longrightarrow> inv (fold apply_req rs c)"
  by (induction rs arbitrary: c) (auto simp: inv_apply)

lemma apply_all_dirty_mono: "inv c \<Longrightarrow> dirty c \<subseteq> dirty (fold apply_req rs c)"
proof (induction rs arbitrary: c)
  case Nil
  then show ?case by simp
next
  case (Cons r rs)
  have "dirty c \<subseteq> dirty (apply_req r c)" using Cons.prems by (auto simp: dirty_apply)
  also have "\<dots> \<subseteq> dirty (fold apply_req rs (apply_req r c))"
    using Cons.prems by (intro Cons.IH inv_apply)
  finally show ?case by simp
qed

lemma apply_all_view: "inv c \<Longrightarrow> view (fold apply_req rs c) = lww_all (map to_state rs) (view c)"
  by (induction rs arbitrary: c) (auto simp: inv_apply view_apply)

text \<open>An entry that changes while requests are applied is dirty afterwards.\<close>

lemma changed_is_dirty:
  "inv c \<Longrightarrow> view (fold apply_req rs c) i \<noteq> view c i \<Longrightarrow> i \<in> dirty (fold apply_req rs c)"
proof (induction rs arbitrary: c)
  case Nil
  then show ?case by simp
next
  case (Cons r rs)
  show ?case
  proof (cases "view (apply_req r c) i = view c i")
    case True
    with Cons show ?thesis by (simp add: inv_apply)
  next
    case False
    then have "i \<in> dirty (apply_req r c)"
      using Cons.prems(1)
      by (auto simp: view_apply dirty_apply lww_put_def split: option.splits if_splits)
    then show ?thesis using apply_all_dirty_mono inv_apply Cons.prems(1) by fastforce
  qed
qed

lemma requeue_makes_dirty:
  assumes "inv c" and "st \<in> set sts" and "distinct (map ps_id sts)"
    and "\<forall>e. view c (ps_id st) = Some e \<longrightarrow> ps_version st < ps_version e \<longrightarrow> ps_id st \<in> dirty c"
  shows "ps_id st \<in> dirty (requeue sts c)"
  using assms
proof (induction sts arbitrary: c)
  case Nil
  then show ?case by simp
next
  case (Cons s sts)
  have inv': "inv (requeue [s] c)" using Cons.prems(1) by (rule inv_requeue)
  have "ps_id st \<in> dirty (requeue sts (requeue [s] c))"
  proof (cases "s = st")
    case True
    then have "ps_id st \<in> dirty (requeue [s] c)"
      using Cons.prems(1,4) by (auto simp: dirty_requeue)
    then show ?thesis using requeue_dirty_mono [OF inv', of sts] by blast
  next
    case False
    then have "st \<in> set sts" "ps_id s \<noteq> ps_id st" using Cons.prems(2,3) by auto
    then show ?thesis
      using Cons.prems inv'
      by (intro Cons.IH) (auto simp: view_requeue dirty_requeue lww_put_other)
  qed
  then show ?case by (simp only: requeue_step [OF Cons.prems(1), of s sts])
qed

text \<open>
  A failed flush loses nothing: a batch is taken, any requests are applied while it is in
  flight, and it is requeued; then each of its states is dirty again and the cache holds
  it or something newer.
\<close>

lemma failed_flush_lossless:
  assumes "inv c" and "take n c = (b, c1)" and "st \<in> set b"
  shows "ps_id st \<in> dirty (requeue b (fold apply_req rs c1))
    \<and> covers (view (requeue b (fold apply_req rs c1))) st"
proof -
  have inv1: "inv c1" using assms(1,2) by (rule inv_take)
  let ?c2 = "fold apply_req rs c1"
  have inv2: "inv ?c2" by (rule apply_all_inv [OF inv1])
  have old: "view c1 (ps_id st) = Some st"
    using take_batch [OF assms] take_view [OF assms(1,2)] by simp
  have "ps_id st \<in> dirty ?c2" if "view ?c2 (ps_id st) = Some e" "ps_version st < ps_version e" for e
    using that old by (intro changed_is_dirty [OF inv1]) auto
  then have "ps_id st \<in> dirty (requeue b ?c2)"
    using assms(3) take_distinct [OF assms(1,2)] by (intro requeue_makes_dirty [OF inv2]) auto
  moreover have "covers (view (requeue b ?c2)) st"
    by (simp add: requeue_view [OF inv2] covers_lww_all assms(3))
  ultimately show ?thesis ..
qed

lemma take_all:
  assumes "inv c" and "take n c = (b, c')" and "card (dirty c) \<le> n"
  shows "dirty c' = {}"
proof -
  have "card (ps_id ` set b) = length b"
    using take_distinct [OF assms(1,2)] by (metis distinct_card length_map set_map)
  moreover have "ps_id ` set b \<subseteq> dirty c" using take_batch [OF assms(1,2)] by auto
  ultimately have "ps_id ` set b = dirty c"
    using assms(3) take_length [OF assms(1,2)] dirty_finite [OF assms(1)]
    by (intro card_subset_eq) auto
  then show ?thesis using take_dirty [OF assms(1,2)] by simp
qed

end

section \<open>Write-ahead log\<close>

text \<open>
  The contract of \<open>WriteAheadLog\<close> as a reference implementation: the log is a list of
  records.  \<open>log_run\<close> makes a sequence of calls and collects what the recoveries return;
  it stops at the first error.
\<close>

datatype log_op = L_Append "wal_record list" | L_Checkpoint lsn | L_Recover

fun ref_run :: "log_op list \<Rightarrow> wal_record list \<Rightarrow> wal_record list list \<times> wal_record list" where
  "ref_run [] rs = ([], rs)"
| "ref_run (L_Append recs # ops) rs = ref_run ops (rs @ recs)"
| "ref_run (L_Checkpoint u # ops) rs = ref_run ops (filter (\<lambda>r. u < wal_lsn r) rs)"
| "ref_run (L_Recover # ops) rs = (let (outs, rs') = ref_run ops rs in (rs # outs, rs'))"

fun log_run :: "(wal_record list \<Rightarrow> 'w \<Rightarrow> ('e + lsn) \<times> 'w) \<Rightarrow> (lsn \<Rightarrow> 'w \<Rightarrow> ('e + unit) \<times> 'w) \<Rightarrow>
    ('w \<Rightarrow> ('e + wal_record list) \<times> 'w) \<Rightarrow> log_op list \<Rightarrow> 'w \<Rightarrow> (wal_record list list \<times> 'w) option" where
  "log_run app ckpt rcv [] w = Some ([], w)"
| "log_run app ckpt rcv (L_Append recs # ops) w =
     (case app recs w of (Inl e, _) \<Rightarrow> None | (Inr l, w') \<Rightarrow> log_run app ckpt rcv ops w')"
| "log_run app ckpt rcv (L_Checkpoint u # ops) w =
     (case ckpt u w of (Inl e, _) \<Rightarrow> None | (Inr x, w') \<Rightarrow> log_run app ckpt rcv ops w')"
| "log_run app ckpt rcv (L_Recover # ops) w =
     (case rcv w of (Inl e, _) \<Rightarrow> None
      | (Inr rs, w') \<Rightarrow> map_option (\<lambda>(outs, w2). (rs # outs, w2)) (log_run app ckpt rcv ops w'))"

fun op_fits :: "log_op \<Rightarrow> bool" where
  "op_fits (L_Append recs) = list_all fits recs"
| "op_fits (L_Checkpoint u) = True"
| "op_fits L_Recover = True"

locale wal_trait =
  fixes append :: "wal_record list \<Rightarrow> 'w \<Rightarrow> ('e + lsn) \<times> 'w"
    and checkpoint :: "lsn \<Rightarrow> 'w \<Rightarrow> ('e + unit) \<times> 'w"
    and recover :: "'w \<Rightarrow> ('e + wal_record list) \<times> 'w"
    and holds :: "wal_record list \<Rightarrow> 'w \<Rightarrow> bool"
  assumes holds_append: "holds rs w \<Longrightarrow> list_all fits recs \<Longrightarrow> append recs w = (Inr l, w') \<Longrightarrow>
      holds (rs @ recs) w'"
    and holds_checkpoint: "holds rs w \<Longrightarrow> checkpoint u w = (Inr x, w') \<Longrightarrow>
      holds (filter (\<lambda>r. u < wal_lsn r) rs) w'"
    and holds_recover: "holds rs w \<Longrightarrow> recover w = (Inr rs', w') \<Longrightarrow> rs' = rs \<and> holds rs w'"
begin

lemma log_refines:
  "holds rs w \<Longrightarrow> list_all op_fits ops \<Longrightarrow> log_run append checkpoint recover ops w = Some (outs, w') \<Longrightarrow>
    fst (ref_run ops rs) = outs \<and> holds (snd (ref_run ops rs)) w'"
proof (induction ops arbitrary: rs w outs)
  case Nil
  then show ?case by simp
next
  case (Cons a ops)
  have fits: "list_all op_fits ops" using Cons.prems(2) by simp
  show ?case
  proof (cases a)
    case (L_Append recs)
    then obtain l w1 where s: "append recs w = (Inr l, w1)"
      "log_run append checkpoint recover ops w1 = Some (outs, w')"
      using Cons.prems(3) by (auto split: prod.splits sum.splits)
    have "list_all fits recs" using L_Append Cons.prems(2) by simp
    from Cons.IH [OF holds_append [OF Cons.prems(1) this s(1)] fits s(2)] L_Append
    show ?thesis by simp
  next
    case (L_Checkpoint u)
    then obtain x w1 where s: "checkpoint u w = (Inr x, w1)"
      "log_run append checkpoint recover ops w1 = Some (outs, w')"
      using Cons.prems(3) by (auto split: prod.splits sum.splits)
    from Cons.IH [OF holds_checkpoint [OF Cons.prems(1) s(1)] fits s(2)] L_Checkpoint
    show ?thesis by simp
  next
    case L_Recover
    then obtain rs1 w1 where r: "recover w = (Inr rs1, w1)"
      using Cons.prems(3) by (auto split: prod.splits sum.splits)
    with L_Recover obtain outs1 where o: "log_run append checkpoint recover ops w1 = Some (outs1, w')"
      "outs = rs1 # outs1" using Cons.prems(3) by auto
    note h = holds_recover [OF Cons.prems(1) r]
    from Cons.IH [OF conjunct2 [OF h] fits o(1)] L_Recover o(2) h
    show ?thesis by (simp add: case_prod_beta)
  qed
qed

end

section \<open>Persistence store\<close>

locale store_trait =
  fixes persist :: "player_state list \<Rightarrow> 'd \<Rightarrow> (store_error + unit) \<times> 'd"
    and load :: "'d \<Rightarrow> table"
  assumes persist_ok: "persist b d = (Inr (), d') \<Longrightarrow> load d' = lww_all b (load d)"
    and persist_err: "persist b d = (Inl e, d') \<Longrightarrow> load d' = load d"
begin

lemma persist_grows: "persist b d = (r, d') \<Longrightarrow> grows (load d) (load d')"
  using persist_ok persist_err by (cases r) (fastforce simp: grows_def covers_lww_all_mono)+

lemma persist_covers: "persist b d = (Inr (), d') \<Longrightarrow> st \<in> set b \<Longrightarrow> covers (load d') st"
  by (simp add: persist_ok covers_lww_all)

end

end
