(* ===== verification/Cache.thy ===== *)
theory Cache
  imports Traits
begin

text \<open>
  \<open>src/cache.rs\<close>: the write-behind cache.  The state is the inside of its mutex: the map
  of entries with their dirty bits and the side index of dirty ids.  Every method locks
  once, so each operation is one atomic step.  The order in which a \<open>HashSet\<close> is iterated
  is not specified by the language: \<open>take_dirty\<close> has an iteration order as an argument, any
  function that lists each element of a set once, so its properties hold for all of them.
\<close>

section \<open>Iteration orders of a \<open>HashSet\<close>\<close>

typedef hash_order =
    "{it :: player_id set \<Rightarrow> player_id list. \<forall>S. distinct (it S) \<and> set (it S) = S}"
  morphisms iterate Hash_order
  by (rule exI [of _ sorted_list_of_set]) simp

lemma iterate_law: "distinct (iterate h S)" "set (iterate h S) = S"
  using iterate [of h] by auto

definition ascending :: hash_order where
  "ascending = Hash_order sorted_list_of_set"

lemma iterate_ascending: "iterate ascending S = sorted_list_of_set S"
  by (simp add: ascending_def Hash_order_inverse)

section \<open>State and operations\<close>

record entry =
  e_state :: player_state
  e_dirty :: bool

record cache =
  c_map :: "player_id \<rightharpoonup> entry"
  c_dirty :: "player_id set"

definition entry_version :: "entry \<Rightarrow> u64" where
  "entry_version e = ps_version (e_state e)"

definition cache_new :: cache where
  "cache_new = \<lparr>c_map = Map.empty, c_dirty = {}\<rparr>"

definition cache_apply :: "write_request \<Rightarrow> cache \<Rightarrow> cache" where
  "cache_apply req c =
     (case c_map c (wr_id req) of
        Some e \<Rightarrow>
          if entry_version e \<le> wr_version req
          then c\<lparr>c_map := (c_map c)(wr_id req \<mapsto> e\<lparr>e_state := to_state req, e_dirty := True\<rparr>),
                 c_dirty := insert (wr_id req) (c_dirty c)\<rparr>
          else c
      | None \<Rightarrow>
          c\<lparr>c_map := (c_map c)(wr_id req \<mapsto> \<lparr>e_state = to_state req, e_dirty = True\<rparr>),
            c_dirty := insert (wr_id req) (c_dirty c)\<rparr>)"

text \<open>The loop of \<open>take_dirty\<close> over the chosen ids: clear each flag, copy each state.\<close>

fun take_ids :: "player_id list \<Rightarrow> cache \<Rightarrow> player_state list \<times> cache" where
  "take_ids [] c = ([], c)"
| "take_ids (i # ids) c =
     (let c1 = c\<lparr>c_dirty := c_dirty c - {i}\<rparr> in
      case c_map c1 i of
        Some e \<Rightarrow>
          (let c2 = c1\<lparr>c_map := (c_map c1)(i \<mapsto> e\<lparr>e_dirty := False\<rparr>)\<rparr>;
               (out, c3) = take_ids ids c2
           in (e_state e # out, c3))
      | None \<Rightarrow> take_ids ids c1)"

definition take_dirty :: "hash_order \<Rightarrow> nat \<Rightarrow> cache \<Rightarrow> player_state list \<times> cache" where
  "take_dirty h max_n c =
     (if max_n = 0 \<or> c_dirty c = {} then ([], c)
      else
        let take_n = min max_n (card (c_dirty c));
            chosen = take take_n (iterate h (c_dirty c))
        in take_ids chosen c)"

definition requeue_one :: "player_state \<Rightarrow> cache \<Rightarrow> cache" where
  "requeue_one st c =
     (let i = ps_id st in
      case c_map c i of
        Some e \<Rightarrow>
          if ps_version st < entry_version e then c
          else c\<lparr>c_map := (c_map c)(i \<mapsto> e\<lparr>e_state := st, e_dirty := True\<rparr>),
                 c_dirty := insert i (c_dirty c)\<rparr>
      | None \<Rightarrow>
          c\<lparr>c_map := (c_map c)(i \<mapsto> \<lparr>e_state = st, e_dirty = True\<rparr>),
            c_dirty := insert i (c_dirty c)\<rparr>)"

definition requeue_dirty :: "player_state list \<Rightarrow> cache \<Rightarrow> cache" where
  "requeue_dirty states c = fold requeue_one states c"

definition cache_get :: "player_id \<Rightarrow> cache \<Rightarrow> player_state option" where
  "cache_get i c = map_option e_state (c_map c i)"

definition dirty_len :: "cache \<Rightarrow> nat" where
  "dirty_len c = card (c_dirty c)"

definition cache_len :: "cache \<Rightarrow> nat" where
  "cache_len c = card (dom (c_map c))"

section \<open>Abstraction and invariant\<close>

text \<open>What readers see: the table of live states.\<close>

definition live :: "cache \<Rightarrow> table" where
  "live c = (\<lambda>i. cache_get i c)"

text \<open>
  The invariant the source states: the side index agrees with the dirty bits, and every
  entry sits under its own player id.
\<close>

definition cache_inv :: "cache \<Rightarrow> bool" where
  "cache_inv c \<longleftrightarrow>
     c_dirty c = {i. \<exists>e. c_map c i = Some e \<and> e_dirty e}
     \<and> keyed (live c) \<and> finite (dom (c_map c))"

lemma dom_live [simp]: "dom (live c) = dom (c_map c)"
  by (auto simp: live_def cache_get_def)

lemma live_Some: "live c i = Some st \<longleftrightarrow> (\<exists>e. c_map c i = Some e \<and> st = e_state e)"
  by (auto simp: live_def cache_get_def)

lemma cache_inv_dirty_dom: "cache_inv c \<Longrightarrow> c_dirty c \<subseteq> dom (c_map c)"
  by (auto simp: cache_inv_def)

lemma cache_inv_keyed: "cache_inv c \<Longrightarrow> keyed (live c)"
  by (simp add: cache_inv_def)

lemma cache_inv_finite_dirty: "cache_inv c \<Longrightarrow> finite (c_dirty c)"
  by (meson cache_inv_def cache_inv_dirty_dom finite_subset)

section \<open>The operations on the abstraction\<close>

lemma live_apply [lww_simps]: "live (cache_apply req c) = lww_put (to_state req) (live c)"
  by (rule ext)
     (auto simp: cache_apply_def live_def cache_get_def lww_put_def entry_version_def not_le
       split: option.splits)

lemma dirty_apply [lww_simps]:
  "c_dirty (cache_apply req c) =
     (if \<exists>e. live c (wr_id req) = Some e \<and> wr_version req < ps_version e then c_dirty c
      else insert (wr_id req) (c_dirty c))"
  by (auto simp: cache_apply_def live_def cache_get_def entry_version_def split: option.splits)

lemma live_requeue_one [lww_simps]: "live (requeue_one st c) = lww_put st (live c)"
  by (rule ext)
     (auto simp: requeue_one_def Let_def live_def cache_get_def lww_put_def entry_version_def
       split: option.splits)

lemma dirty_requeue_one [lww_simps]:
  "c_dirty (requeue_one st c) =
     (if \<exists>e. live c (ps_id st) = Some e \<and> ps_version st < ps_version e then c_dirty c
      else insert (ps_id st) (c_dirty c))"
  by (auto simp: requeue_one_def Let_def live_def cache_get_def entry_version_def
      split: option.splits)

text \<open>Both writers are the same operation on a state; one lemma serves their invariants.\<close>

lemma cache_apply_requeue: "cache_apply req c = requeue_one (to_state req) c"
  by (auto simp: cache_apply_def requeue_one_def Let_def entry_version_def split: option.splits)

lemma cache_inv_requeue_one [intro]: "cache_inv c \<Longrightarrow> cache_inv (requeue_one st c)"
proof -
  assume inv: "cache_inv c"
  then have k: "keyed (live (requeue_one st c))"
    by (simp add: live_requeue_one keyed_lww_put cache_inv_def)
  show ?thesis using inv k
    by (auto simp: cache_inv_def requeue_one_def Let_def split: option.splits if_splits)
qed

lemma cache_inv_apply [intro]: "cache_inv c \<Longrightarrow> cache_inv (cache_apply req c)"
  by (simp add: cache_apply_requeue cache_inv_requeue_one)

lemma cache_inv_new [simp, intro]: "cache_inv cache_new"
  by (auto simp: cache_inv_def cache_new_def live_def cache_get_def keyed_def)

lemma live_new [simp]: "live cache_new = Map.empty"
  by (simp add: live_def cache_get_def cache_new_def)

lemma dirty_new [simp]: "c_dirty cache_new = {}"
  by (simp add: cache_new_def)

lemma requeue_dirty_simps [simp]:
  "requeue_dirty [] c = c"
  "requeue_dirty (st # sts) c = requeue_dirty sts (requeue_one st c)"
  by (simp_all add: requeue_dirty_def)

lemma live_requeue [lww_simps]: "live (requeue_dirty sts c) = lww_all sts (live c)"
  by (induction sts arbitrary: c) (auto simp: live_requeue_one)

lemma cache_inv_requeue [intro]: "cache_inv c \<Longrightarrow> cache_inv (requeue_dirty sts c)"
  by (induction sts arbitrary: c) auto

lemma dirty_requeue_mono: "c_dirty c \<subseteq> c_dirty (requeue_dirty sts c)"
proof (induction sts arbitrary: c)
  case Nil
  then show ?case by simp
next
  case (Cons st sts)
  have "c_dirty c \<subseteq> c_dirty (requeue_one st c)" by (auto simp: dirty_requeue_one)
  with Cons show ?case by fastforce
qed

section \<open>Taking a batch\<close>

lemma take_ids_spec:
  assumes "distinct ids" and "set ids \<subseteq> dom (c_map c)"
  shows "fst (take_ids ids c) = map (\<lambda>i. the (live c i)) ids"
    and "live (snd (take_ids ids c)) = live c"
    and "c_dirty (snd (take_ids ids c)) = c_dirty c - set ids"
    and "\<And>i. map_option e_dirty (c_map (snd (take_ids ids c)) i) =
          (if i \<in> set ids then Some False else map_option e_dirty (c_map c i))"
proof -
  have "fst (take_ids ids c) = map (\<lambda>i. the (live c i)) ids
    \<and> live (snd (take_ids ids c)) = live c
    \<and> c_dirty (snd (take_ids ids c)) = c_dirty c - set ids
    \<and> (\<forall>i. map_option e_dirty (c_map (snd (take_ids ids c)) i) =
          (if i \<in> set ids then Some False else map_option e_dirty (c_map c i)))"
    using assms
  proof (induction ids arbitrary: c)
    case Nil
    then show ?case by simp
  next
    case (Cons j ids)
    then obtain e where e: "c_map c j = Some e" by auto
    let ?c = "c\<lparr>c_dirty := c_dirty c - {j}, c_map := (c_map c)(j \<mapsto> e\<lparr>e_dirty := False\<rparr>)\<rparr>"
    have lv: "live ?c = live c" using e by (auto simp: live_def cache_get_def)
    have step: "take_ids (j # ids) c = (e_state e # fst (take_ids ids ?c), snd (take_ids ids ?c))"
      by (simp add: e Let_def split: prod.splits)
    have "distinct ids" "set ids \<subseteq> dom (c_map ?c)" using Cons.prems by auto
    note IH = Cons.IH [OF this]
    have "the (live c j) = e_state e" using e by (simp add: live_def cache_get_def)
    with IH Cons.prems(1) show ?case unfolding step by (auto simp: lv)
  qed
  then show "fst (take_ids ids c) = map (\<lambda>i. the (live c i)) ids"
    and "live (snd (take_ids ids c)) = live c"
    and "c_dirty (snd (take_ids ids c)) = c_dirty c - set ids"
    and "\<And>i. map_option e_dirty (c_map (snd (take_ids ids c)) i) =
          (if i \<in> set ids then Some False else map_option e_dirty (c_map c i))"
    by blast+
qed

text \<open>The ids a call of \<open>take_dirty\<close> chooses.\<close>

definition chosen_ids :: "hash_order \<Rightarrow> nat \<Rightarrow> cache \<Rightarrow> player_id list" where
  "chosen_ids h n c = take (min n (card (c_dirty c))) (iterate h (c_dirty c))"

lemma chosen_ids:
  shows "distinct (chosen_ids h n c)" and "set (chosen_ids h n c) \<subseteq> c_dirty c"
    and "length (chosen_ids h n c) = min n (card (c_dirty c))"
proof -
  have it: "distinct (iterate h (c_dirty c))" "set (iterate h (c_dirty c)) = c_dirty c"
    by (simp_all add: iterate_law)
  then show "distinct (chosen_ids h n c)" "set (chosen_ids h n c) \<subseteq> c_dirty c"
    by (auto simp: chosen_ids_def dest: in_set_takeD)
  show "length (chosen_ids h n c) = min n (card (c_dirty c))"
    using distinct_card [OF it(1)] it(2) by (simp add: chosen_ids_def)
qed

lemma take_dirty_ids: "take_dirty h n c = take_ids (chosen_ids h n c) c"
  by (auto simp: take_dirty_def chosen_ids_def)

lemma take_dirty_spec:
  assumes "cache_inv c" and "take_dirty h n c = (batch, c')"
  shows "live c' = live c" and "c_dirty c' = c_dirty c - ps_id ` set batch"
    and "\<forall>st \<in> set batch. ps_id st \<in> c_dirty c \<and> live c (ps_id st) = Some st"
    and "distinct (map ps_id batch)" and "length batch = min n (dirty_len c)" and "cache_inv c'"
proof -
  let ?ids = "chosen_ids h n c"
  note ch = chosen_ids [where h = h and n = n and c = c]
  have sub: "set ?ids \<subseteq> dom (c_map c)" using ch(2) cache_inv_dirty_dom [OF assms(1)] by auto
  note spec = take_ids_spec [OF ch(1) sub]
  have eq: "batch = fst (take_ids ?ids c)" "c' = snd (take_ids ?ids c)"
    using assms(2) take_dirty_ids [of h n c] by simp_all
  have here: "live c i = Some (the (live c i))" if "i \<in> set ?ids" for i
  proof -
    from that sub obtain e where "c_map c i = Some e" by blast
    then show ?thesis by (simp add: live_def cache_get_def)
  qed
  have keyed: "ps_id (the (live c i)) = i" if "i \<in> set ?ids" for i
    using here [OF that] assms(1) by (auto simp: cache_inv_def keyed_def)
  have batch: "batch = map (\<lambda>i. the (live c i)) ?ids" by (simp add: eq spec)
  have ids: "map ps_id batch = ?ids" using keyed by (auto simp: batch comp_def intro: map_idI)
  show "live c' = live c" by (simp add: eq spec)
  show d: "c_dirty c' = c_dirty c - ps_id ` set batch"
    by (simp add: eq(2) spec(3)) (metis ids set_map)
  show "\<forall>st \<in> set batch. ps_id st \<in> c_dirty c \<and> live c (ps_id st) = Some st"
    using keyed here ch(2) by (auto simp: batch)
  show "distinct (map ps_id batch)" using ch(1) by (simp add: ids)
  show "length batch = min n (dirty_len c)" using ch(3) by (simp add: batch dirty_len_def)
  have bits: "e_dirty e \<longleftrightarrow> i \<notin> set ?ids \<and> (\<exists>e. c_map c i = Some e \<and> e_dirty e)"
    if "c_map c' i = Some e" for i e
    using spec(4) [of i] that by (cases "c_map c i") (auto simp: eq split: if_splits)
  have dom: "dom (c_map c') = dom (c_map c)" using spec(2) by (metis eq(2) dom_live)
  have "c_dirty c' = {i. \<exists>e. c_map c' i = Some e \<and> e_dirty e}"
  proof (intro set_eqI iffI)
    fix i
    assume "i \<in> c_dirty c'"
    then have i: "i \<notin> set ?ids" "i \<in> c_dirty c" by (simp_all add: eq(2) spec(3))
    then obtain e where "c_map c' i = Some e" using dom assms(1) by (fastforce simp: cache_inv_def)
    with i bits assms(1) show "i \<in> {i. \<exists>e. c_map c' i = Some e \<and> e_dirty e}"
      by (auto simp: cache_inv_def)
  next
    fix i
    assume "i \<in> {i. \<exists>e. c_map c' i = Some e \<and> e_dirty e}"
    with bits assms(1) show "i \<in> c_dirty c'" by (auto simp: eq(2) spec(3) cache_inv_def)
  qed
  then show "cache_inv c'"
    using assms(1) dom spec(2) by (simp add: cache_inv_def eq)
qed

section \<open>The cache implements its trait\<close>

lemma requeue_dirty_append: "requeue_dirty (xs @ ys) c = requeue_dirty ys (requeue_dirty xs c)"
  by (simp add: requeue_dirty_def)

interpretation wb: cache_trait cache_apply "take_dirty h" requeue_dirty live c_dirty cache_inv
  for h :: hash_order
proof unfold_locales
  fix c c' :: cache and b :: "player_state list" and n :: nat and st
  assume inv: "cache_inv c" and t: "take_dirty h n c = (b, c')"
  note spec = take_dirty_spec [OF inv t]
  show "live c' = live c" "c_dirty c' = c_dirty c - ps_id ` set b" "distinct (map ps_id b)"
    "cache_inv c'" "length b = min n (card (c_dirty c))"
    using spec by (simp_all add: dirty_len_def)
  show "ps_id st \<in> c_dirty c \<and> live c (ps_id st) = Some st" if "st \<in> set b"
    using that spec(3) by blast
qed (simp_all add: live_apply dirty_apply live_requeue_one dirty_requeue_one requeue_dirty_append
      cache_inv_finite_dirty cache_inv_apply cache_inv_requeue cache_inv_keyed cache_inv_dirty_dom)

section \<open>Properties\<close>

definition sample_req :: "player_id \<Rightarrow> u64 \<Rightarrow> u8 list \<Rightarrow> write_request" where
  "sample_req i v b = \<lparr>wr_id = i, wr_version = v, wr_blob = b, wr_seq = 0\<rparr>"



text \<open>
  C38: The dirty index never drifts from the dirty bits: every operation of the cache
  keeps the invariant, which also says that an entry sits under its own id.
\<close>

theorem cache_operations_keep_invariant:
  assumes "cache_inv c"
  shows "cache_inv (cache_apply r c) \<and> cache_inv (requeue_dirty sts c)
    \<and> cache_inv (snd (take_dirty h n c))"
  using assms wb.inv_take [OF assms, of h n] by (auto simp: prod_eq_iff)

theorem cache_operations_keep_invariant_witness:
  "cache_inv (cache_apply (sample_req 7 2 [1]) cache_new)"
  using cache_operations_keep_invariant [OF cache_inv_new] by blast

text \<open>
  \<open>take_dirty\<close> hands out copies of \<open>min max dirty_len\<close> distinct dirty entries, at
  their live state, takes exactly those out of the dirty set, and changes nothing that a
  reader sees.
\<close>

theorem take_dirty_exact:
  assumes "cache_inv c" and "take_dirty h n c = (batch, c')"
  shows "length batch = min n (dirty_len c) \<and> distinct (map ps_id batch)
    \<and> (\<forall>st \<in> set batch. ps_id st \<in> c_dirty c \<and> cache_get (ps_id st) c = Some st)
    \<and> c_dirty c' = c_dirty c - ps_id ` set batch
    \<and> (\<forall>i. cache_get i c' = cache_get i c)"
  using take_dirty_spec [OF assms] by (auto simp: live_def fun_eq_iff)

theorem take_dirty_exact_witness:
  "c_dirty (snd (take_dirty ascending 1 (cache_apply (sample_req 7 2 [1]) cache_new))) = {}"
proof -
  obtain b c' where t: "take_dirty ascending 1 (cache_apply (sample_req 7 2 [1]) cache_new) = (b, c')"
    by fastforce
  have "fst (take_dirty ascending 1 (cache_apply (sample_req 7 2 [1]) cache_new))
          = [to_state (sample_req 7 2 [1])]"
    by (simp add: take_dirty_def iterate_ascending cache_apply_def cache_new_def Let_def sample_req_def
        to_state_def)
  moreover have "cache_inv (cache_apply (sample_req 7 2 [1]) cache_new)" by blast
  ultimately show ?thesis
    using take_dirty_exact [OF _ t] t by (auto simp: dirty_apply sample_req_def to_state_def)
qed

text \<open>
  A failed flush loses nothing: when a batch is taken, any requests are applied while
  it is in flight, and it is requeued after the store refused it, each of its states is
  dirty again and the cache holds it or a newer version.
\<close>

theorem failed_flush_keeps_every_state:
  assumes "cache_inv c" and "take_dirty h n c = (batch, c1)" and "st \<in> set batch"
  shows "ps_id st \<in> c_dirty (requeue_dirty batch (fold cache_apply rs c1))
    \<and> covers (live (requeue_dirty batch (fold cache_apply rs c1))) st"
  by (rule wb.failed_flush_lossless [OF assms])

theorem failed_flush_keeps_every_state_witness:
  "7 \<in> c_dirty (requeue_dirty
      (fst (take_dirty ascending 5 (cache_apply (sample_req 7 2 [1]) cache_new)))
      (fold cache_apply [sample_req 7 9 [3]]
         (snd (take_dirty ascending 5 (cache_apply (sample_req 7 2 [1]) cache_new)))))"
proof -
  let ?c = "cache_apply (sample_req 7 2 [1]) cache_new"
  have "fst (take_dirty ascending 5 ?c) = [to_state (sample_req 7 2 [1])]"
    by (simp add: take_dirty_def iterate_ascending cache_apply_def cache_new_def Let_def sample_req_def
        to_state_def)
  then have "to_state (sample_req 7 2 [1]) \<in> set (fst (take_dirty ascending 5 ?c))" by simp
  from failed_flush_keeps_every_state [OF _ _ this, of ?c ascending 5
      "snd (take_dirty ascending 5 ?c)" "[sample_req 7 9 [3]]"]
  show ?thesis by (auto simp: sample_req_def)
qed

end
