(* ===== verification/Store.thy ===== *)
theory Store
  imports Traits
begin

text \<open>
  \<open>src/store.rs\<close>: \<open>MockDb\<close>, the in-memory store with fault injection.  Each atomic and the
  table's mutex is a field; a call runs to completion as one step.  The latency knob only
  delays a call: it is stored, and \<open>persist_batch\<close> does nothing else with it.
\<close>

section \<open>State and operations\<close>

record mock_db =
  db_table :: table
  db_healthy :: bool
  db_fail_next :: u64
  db_fail_every :: u64
  db_latency_nanos :: u64
  db_attempts :: u64
  db_persisted :: u64

definition mock_new :: mock_db where
  "mock_new = \<lparr>db_table = Map.empty, db_healthy = True, db_fail_next = 0, db_fail_every = 0,
               db_latency_nanos = 0, db_attempts = 0, db_persisted = 0\<rparr>"

definition set_healthy :: "bool \<Rightarrow> mock_db \<Rightarrow> mock_db" where
  "set_healthy h db = db\<lparr>db_healthy := h\<rparr>"

definition fail_next_batches :: "u64 \<Rightarrow> mock_db \<Rightarrow> mock_db" where
  "fail_next_batches n db = db\<lparr>db_fail_next := n\<rparr>"

definition set_latency :: "nat \<Rightarrow> mock_db \<Rightarrow> mock_db" where
  "set_latency nanos db =
     db\<lparr>db_latency_nanos := (if nanos < 2 ^ 64 then word_of_nat nanos else - 1)\<rparr>"

definition set_fail_every :: "u64 \<Rightarrow> mock_db \<Rightarrow> mock_db" where
  "set_fail_every n db = db\<lparr>db_fail_every := n\<rparr>"

definition persisted_batches :: "mock_db \<Rightarrow> u64" where
  "persisted_batches db = db_persisted db"

text \<open>The upsert loop of the success path.\<close>

fun upsert_all :: "player_state list \<Rightarrow> table \<Rightarrow> table" where
  "upsert_all [] t = t"
| "upsert_all (incoming # rest) t =
     (case t (ps_id incoming) of
        Some existing \<Rightarrow>
          if ps_version incoming < ps_version existing then upsert_all rest t
          else upsert_all rest (t(ps_id incoming \<mapsto> incoming))
      | None \<Rightarrow> upsert_all rest (t(ps_id incoming \<mapsto> incoming)))"

definition mock_persist_batch ::
    "player_state list \<Rightarrow> mock_db \<Rightarrow> (store_error + unit) \<times> mock_db" where
  "mock_persist_batch states db =
     (if \<not> db_healthy db then (Inl Unavailable, db)
      else if 0 < db_fail_next db then
        (Inl (Transient ''injected''), db\<lparr>db_fail_next := db_fail_next db - 1\<rparr>)
      else
        let attempt = db_attempts db + 1;
            db1 = db\<lparr>db_attempts := attempt\<rparr>
        in if 0 < db_fail_every db1 \<and> attempt mod db_fail_every db1 = 0
           then (Inl (Transient ''periodic''), db1)
           else (Inr (), db1\<lparr>db_table := upsert_all states (db_table db1),
                             db_persisted := db_persisted db1 + 1\<rparr>))"

definition mock_load :: "mock_db \<Rightarrow> table" where
  "mock_load db = (\<lambda>i. db_table db i)"

definition mock_count :: "mock_db \<Rightarrow> nat" where
  "mock_count db = card (dom (db_table db))"

section \<open>The upsert is the last-write-wins merge\<close>

lemma upsert_all_lww: "upsert_all sts t = lww_all sts t"
  by (induction sts arbitrary: t) (auto simp: lww_put_def split: option.splits)

lemma mock_persist_table:
  "mock_persist_batch sts db = (r, db') \<Longrightarrow>
     mock_load db' = (case r of Inr _ \<Rightarrow> lww_all sts (mock_load db) | Inl _ \<Rightarrow> mock_load db)"
  by (auto simp: mock_persist_batch_def mock_load_def Let_def upsert_all_lww split: if_splits)

interpretation mock: store_trait mock_persist_batch mock_load
  by unfold_locales (auto dest: mock_persist_table)

text \<open>The knobs are not touched by a call, but for the countdown.\<close>

lemma mock_persist_frame [frame_simps]:
  "mock_persist_batch sts db = (r, db') \<Longrightarrow>
     db_healthy db' = db_healthy db \<and> db_fail_every db' = db_fail_every db
     \<and> db_latency_nanos db' = db_latency_nanos db"
  by (auto simp: mock_persist_batch_def Let_def split: if_splits)

lemma mock_persist_healthy:
  assumes "db_healthy db" and "db_fail_next db = 0" and "db_fail_every db = 0"
  shows "fst (mock_persist_batch sts db) = Inr ()"
  using assms by (simp add: mock_persist_batch_def Let_def)

section \<open>Sequences of calls\<close>

fun mock_calls :: "player_state list list \<Rightarrow> mock_db \<Rightarrow> (store_error + unit) list \<times> mock_db" where
  "mock_calls [] db = ([], db)"
| "mock_calls (b # bs) db =
     (let (r, db1) = mock_persist_batch b db; (rs, db2) = mock_calls bs db1 in (r # rs, db2))"

lemma mock_calls_Cons [simp]:
  "fst (mock_calls (b # bs) db) =
     fst (mock_persist_batch b db) # fst (mock_calls bs (snd (mock_persist_batch b db)))"
  "snd (mock_calls (b # bs) db) = snd (mock_calls bs (snd (mock_persist_batch b db)))"
  by (simp_all split: prod.splits)

declare mock_calls.simps(2) [simp del]

lemma mock_calls_length [simp]: "length (fst (mock_calls bs db)) = length bs"
  by (induction bs arbitrary: db) auto

lemma mock_calls_injected:
  "db_healthy db \<Longrightarrow> length bs \<le> unat (db_fail_next db) \<Longrightarrow>
   fst (mock_calls bs db) = replicate (length bs) (Inl (Transient ''injected''))
   \<and> db_fail_next (snd (mock_calls bs db)) = db_fail_next db - word_of_nat (length bs)
   \<and> mock_load (snd (mock_calls bs db)) = mock_load db"
proof (induction bs arbitrary: db)
  case Nil
  then show ?case by simp
next
  case (Cons b bs)
  let ?db = "db\<lparr>db_fail_next := db_fail_next db - 1\<rparr>"
  have pos: "0 < db_fail_next db" using Cons.prems(2) by (simp add: word_less_nat_alt)
  then have "length bs \<le> unat (db_fail_next ?db)"
    using Cons.prems(2) by (simp add: unat_minus_one word_neq_0_conv)
  with Cons.IH [of ?db] Cons.prems(1) pos show ?case
    by (simp add: mock_persist_batch_def mock_load_def)
qed

lemma mock_calls_periodic:
  assumes "db_healthy db" and "db_fail_next db = 0" and "0 < db_fail_every db"
    and "unat (db_attempts db) + length bs < 2 ^ 64" and "k < length bs"
  shows "fst (mock_calls bs db) ! k =
    (if unat (db_fail_every db) dvd unat (db_attempts db) + Suc k
     then Inl (Transient ''periodic'') else Inr ())"
  using assms
proof (induction bs arbitrary: db k)
  case Nil
  then show ?case by simp
next
  case (Cons b bs)
  obtain r db1 where r: "mock_persist_batch b db = (r, db1)" by fastforce
  have att: "unat (db_attempts db + 1) = Suc (unat (db_attempts db))"
    using Cons.prems(4) by (simp add: unat_word_ariths)
  have db1: "db_healthy db1" "db_fail_next db1 = 0" "db_fail_every db1 = db_fail_every db"
    "db_attempts db1 = db_attempts db + 1"
    and res: "r = (if unat (db_fail_every db) dvd Suc (unat (db_attempts db))
                   then Inl (Transient ''periodic'') else Inr ())"
    using r Cons.prems(1-3)
    by (auto simp: mock_persist_batch_def Let_def word_unat_eq_iff unat_mod_distrib att
        dvd_eq_mod_eq_0 split: if_splits)
  show ?case
  proof (cases k)
    case 0
    with r res show ?thesis by simp
  next
    case (Suc m)
    have "fst (mock_calls bs db1) ! m = (if unat (db_fail_every db1) dvd unat (db_attempts db1) + Suc m
        then Inl (Transient ''periodic'') else Inr ())"
      using db1 att Cons.prems Suc by (intro Cons.IH) auto
    with r Suc show ?thesis by (simp add: db1 att)
  qed
qed

section \<open>Properties\<close>

text \<open>
  A call of the mock store either succeeds and merges the whole batch under
  last-write-wins, or fails and leaves the table as it was.
\<close>

theorem mock_persist_all_or_nothing:
  assumes "mock_persist_batch sts db = (r, db')"
  shows "(r = Inr () \<and> mock_load db' = lww_all sts (mock_load db))
       \<or> (\<exists>e. r = Inl e \<and> is_retryable e \<and> mock_load db' = mock_load db)"
  using assms
  by (cases r) (auto simp: mock_persist_batch_def mock_load_def Let_def upsert_all_lww
      split: if_splits)

theorem mock_persist_all_or_nothing_witness:
  "fst (mock_persist_batch [] mock_new) = Inr () \<and>
   mock_load (snd (mock_persist_batch [] mock_new)) = Map.empty"
proof -
  obtain r db' where p: "mock_persist_batch [] mock_new = (r, db')" by fastforce
  have "r = Inr ()" using p by (auto simp: mock_persist_batch_def mock_new_def Let_def)
  then show ?thesis
    using mock_persist_all_or_nothing [OF p] p by (auto simp: mock_load_def mock_new_def)
qed

text \<open>
  After \<open>fail_next_batches n\<close> on a healthy store the next \<open>n\<close> calls fail as injected,
  no row changes, and the countdown is used up.
\<close>

theorem mock_fail_next_exact:
  assumes "db_healthy db" and "length bs = unat n"
  shows "fst (mock_calls bs (fail_next_batches n db))
        = replicate (unat n) (Inl (Transient ''injected''))
      \<and> db_fail_next (snd (mock_calls bs (fail_next_batches n db))) = 0
      \<and> mock_load (snd (mock_calls bs (fail_next_batches n db))) = mock_load db"
  using mock_calls_injected [of "fail_next_batches n db" bs] assms
  by (simp add: fail_next_batches_def mock_load_def)

theorem mock_fail_next_exact_witness:
  "fst (mock_calls [[], []] (fail_next_batches 2 mock_new))
     = replicate 2 (Inl (Transient ''injected''))"
  using mock_fail_next_exact [of mock_new "[[], []]" 2] by (simp add: mock_new_def)

text \<open>
  With \<open>set_fail_every n\<close> and no other fault, exactly the attempts whose number is a
  multiple of \<open>n\<close> fail.
\<close>

theorem mock_fail_every_exact:
  assumes "db_healthy db" and "db_fail_next db = 0" and "0 < n"
    and "unat (db_attempts db) + length bs < 2 ^ 64" and "k < length bs"
  shows "fst (mock_calls bs (set_fail_every n db)) ! k =
        (if unat n dvd unat (db_attempts db) + Suc k
         then Inl (Transient ''periodic'') else Inr ())"
  using mock_calls_periodic [of "set_fail_every n db" bs k] assms by (simp add: set_fail_every_def)

theorem mock_fail_every_exact_witness:
  "fst (mock_calls [[], [], []] (set_fail_every 3 mock_new)) ! 2 = Inl (Transient ''periodic'')"
  using mock_fail_every_exact [of mock_new 3 "[[], [], []]" 2] by (simp add: mock_new_def)

end
