(* ===== verification/Ring.thy ===== *)
theory Ring
  imports Traits
begin

text \<open>
  \<open>src/ring.rs\<close>: the bounded multi-producer multi-consumer ring.  \<open>enq_step\<close> and
  \<open>deq_step\<close> are the bodies of \<open>try_enqueue\<close> and \<open>try_dequeue\<close> cut at their atomic
  accesses: one access to shared memory per step, so that the theory \<open>Ring_Conc\<close> can
  interleave them.  This theory runs them without interference: \<open>enq_loop\<close> and \<open>deq_loop\<close>
  iterate the steps until the method returns, \<open>None\<close> meaning that it never does.

  Positions and stamps are 64-bit words and wrap as in the source; the signed difference
  is the wrapped one.  \<open>MaybeUninit\<close> is an option, \<open>None\<close> being uninitialised.
\<close>

section \<open>State\<close>

record cell =
  cl_seq :: usize
  cl_slot :: "write_request option"

record ring =
  rb_buffer :: "cell list"
  rb_mask :: usize
  rb_capacity :: usize
  rb_enq :: usize
  rb_deq :: usize

text \<open>\<open>usize::next_power_of_two\<close>.\<close>

function pow2_from :: "nat \<Rightarrow> nat \<Rightarrow> nat" where
  "pow2_from p n = (if p = 0 \<or> n \<le> p then p else pow2_from (2 * p) n)"
  by pat_completeness auto
termination
  by (relation "measure (\<lambda>(p, n). n - p)") auto

declare pow2_from.simps [simp del]

definition next_power_of_two :: "nat \<Rightarrow> nat" where
  "next_power_of_two n = pow2_from 1 n"

definition ring_new :: "nat \<Rightarrow> ring" where
  "ring_new capacity =
     (let cap = next_power_of_two (max capacity 1) in
      \<lparr>rb_buffer = map (\<lambda>i. \<lparr>cl_seq = word_of_nat i, cl_slot = None\<rparr>) [0..<cap],
       rb_mask = word_of_nat cap - 1,
       rb_capacity = word_of_nat cap,
       rb_enq = 0,
       rb_deq = 0\<rparr>)"

section \<open>Shared memory accesses\<close>

definition slot_index :: "ring \<Rightarrow> usize \<Rightarrow> nat" where
  "slot_index m pos = unat (pos AND rb_mask m)"

definition cell_at :: "ring \<Rightarrow> usize \<Rightarrow> cell" where
  "cell_at m pos = rb_buffer m ! slot_index m pos"

definition upd_cell :: "(cell \<Rightarrow> cell) \<Rightarrow> usize \<Rightarrow> ring \<Rightarrow> ring" where
  "upd_cell f pos m =
     m\<lparr>rb_buffer := (rb_buffer m)[slot_index m pos := f (cell_at m pos)]\<rparr>"

section \<open>\<open>try_enqueue\<close> and \<open>try_dequeue\<close>, one atomic access per step\<close>

datatype enq_pc =
    E_Load                              \<comment> \<open>before (re)loading \<open>enqueue_pos\<close>\<close>
  | E_Seq usize                         \<comment> \<open>top of the loop, before loading the stamp\<close>
  | E_Cas usize                         \<comment> \<open>stamp matched, before the compare-exchange\<close>
  | E_Write usize                       \<comment> \<open>position claimed, before the payload write\<close>
  | E_Publish usize                     \<comment> \<open>payload written, before the stamp store\<close>
  | E_Ret "write_request + unit"

text \<open>The flag says that a \<open>compare_exchange_weak\<close> fails spuriously.\<close>

fun enq_step :: "bool \<Rightarrow> write_request \<Rightarrow> ring \<Rightarrow> enq_pc \<Rightarrow> ring \<times> enq_pc" where
  "enq_step weak r m E_Load = (m, E_Seq (rb_enq m))"
| "enq_step weak r m (E_Seq pos) =
     (let seq = cl_seq (cell_at m pos); diff = seq - pos in
      if diff = 0 then (m, E_Cas pos)
      else if sint diff < 0 then (m, E_Ret (Inl r))
      else (m, E_Load))"
| "enq_step weak r m (E_Cas pos) =
     (if rb_enq m = pos \<and> \<not> weak then (m\<lparr>rb_enq := pos + 1\<rparr>, E_Write pos)
      else (m, E_Seq (rb_enq m)))"
| "enq_step weak r m (E_Write pos) = (upd_cell (\<lambda>c. c\<lparr>cl_slot := Some r\<rparr>) pos m, E_Publish pos)"
| "enq_step weak r m (E_Publish pos) =
     (upd_cell (\<lambda>c. c\<lparr>cl_seq := pos + 1\<rparr>) pos m, E_Ret (Inr ()))"
| "enq_step weak r m (E_Ret x) = (m, E_Ret x)"

datatype deq_pc =
    D_Load
  | D_Seq usize
  | D_Cas usize
  | D_Read usize                        \<comment> \<open>position claimed, before the payload read\<close>
  | D_Free usize write_request          \<comment> \<open>payload read, before the stamp store\<close>
  | D_Ret "write_request option"
  | D_Undefined                         \<comment> \<open>\<open>assume_init_read\<close> of an uninitialised slot\<close>

fun deq_step :: "bool \<Rightarrow> ring \<Rightarrow> deq_pc \<Rightarrow> ring \<times> deq_pc" where
  "deq_step weak m D_Load = (m, D_Seq (rb_deq m))"
| "deq_step weak m (D_Seq pos) =
     (let seq = cl_seq (cell_at m pos); diff = seq - (pos + 1) in
      if diff = 0 then (m, D_Cas pos)
      else if sint diff < 0 then (m, D_Ret None)
      else (m, D_Load))"
| "deq_step weak m (D_Cas pos) =
     (if rb_deq m = pos \<and> \<not> weak then (m\<lparr>rb_deq := pos + 1\<rparr>, D_Read pos)
      else (m, D_Seq (rb_deq m)))"
| "deq_step weak m (D_Read pos) =
     (case cl_slot (cell_at m pos) of
        Some r \<Rightarrow> (upd_cell (\<lambda>c. c\<lparr>cl_slot := None\<rparr>) pos m, D_Free pos r)
      | None \<Rightarrow> (m, D_Undefined))"
| "deq_step weak m (D_Free pos r) =
     (upd_cell (\<lambda>c. c\<lparr>cl_seq := pos + rb_mask m + 1\<rparr>) pos m, D_Ret (Some r))"
| "deq_step weak m (D_Ret x) = (m, D_Ret x)"
| "deq_step weak m D_Undefined = (m, D_Undefined)"

section \<open>The methods without interference\<close>

partial_function (option) enq_loop ::
    "write_request \<Rightarrow> ring \<Rightarrow> enq_pc \<Rightarrow> ((write_request + unit) \<times> ring) option" where
  "enq_loop r m pc =
     (case pc of
        E_Ret x \<Rightarrow> Some (x, m)
      | _ \<Rightarrow> enq_loop r (fst (enq_step False r m pc)) (snd (enq_step False r m pc)))"

partial_function (option) deq_loop ::
    "ring \<Rightarrow> deq_pc \<Rightarrow> (write_request option \<times> ring) option" where
  "deq_loop m pc =
     (case pc of
        D_Ret x \<Rightarrow> Some (x, m)
      | D_Undefined \<Rightarrow> None
      | _ \<Rightarrow> deq_loop (fst (deq_step False m pc)) (snd (deq_step False m pc)))"

text \<open>
  The total forms that the rest of the pipeline calls; the second branch is never taken on
  a ring that satisfies the invariant below (\<open>enq_loop_returns\<close>, \<open>deq_loop_returns\<close>).
\<close>

definition try_enqueue :: "write_request \<Rightarrow> ring \<Rightarrow> (write_request + unit) \<times> ring" where
  "try_enqueue r m = (case enq_loop r m E_Load of Some res \<Rightarrow> res | None \<Rightarrow> (Inl r, m))"

definition try_dequeue :: "ring \<Rightarrow> write_request option \<times> ring" where
  "try_dequeue m = (case deq_loop m D_Load of Some res \<Rightarrow> res | None \<Rightarrow> (None, m))"

text \<open>The loop of \<open>drain_into\<close>: \<open>n\<close> more pops are allowed.\<close>

fun drain_into :: "nat \<Rightarrow> ring \<Rightarrow> write_request list \<times> ring" where
  "drain_into 0 m = ([], m)"
| "drain_into (Suc n) m =
     (case try_dequeue m of
        (Some r, m1) \<Rightarrow> (let (out, m2) = drain_into n m1 in (r # out, m2))
      | (None, m1) \<Rightarrow> ([], m1))"

definition ring_len :: "ring \<Rightarrow> nat" where
  "ring_len m =
     (let deq = rb_deq m; enq = rb_enq m in
      if enq \<le> deq then 0 else unat (min (enq - deq) (rb_capacity m)))"

definition ring_is_empty :: "ring \<Rightarrow> bool" where
  "ring_is_empty m \<longleftrightarrow> ring_len m = 0"

definition ring_capacity :: "ring \<Rightarrow> nat" where
  "ring_capacity m = unat (rb_capacity m)"

text \<open>\<open>Drop\<close>: every slot from \<open>dequeue_pos\<close> up to \<open>enqueue_pos\<close> is dropped; \<open>None\<close> when
  one of them is not initialised.\<close>

function drop_from :: "usize \<Rightarrow> ring \<Rightarrow> ring option" where
  "drop_from pos m =
     (if pos = rb_enq m then Some m
      else case cl_slot (cell_at m pos) of
             None \<Rightarrow> None
           | Some r \<Rightarrow> drop_from (pos + 1) (upd_cell (\<lambda>c. c\<lparr>cl_slot := None\<rparr>) pos m))"
  by pat_completeness auto
termination
proof (relation "measure (\<lambda>(pos, m :: ring). unat (rb_enq m - pos))")
  fix pos and m :: ring and r
  assume "pos \<noteq> rb_enq m"
  then have "rb_enq m - pos \<noteq> 0" by simp
  then have "unat (rb_enq m - pos - 1) < unat (rb_enq m - pos)"
    by (metis diff_less unat_gt_0 unat_minus_one zero_less_one)
  then have "unat (rb_enq m - (pos + 1)) < unat (rb_enq m - pos)"
    by (simp only: diff_diff_add)
  then show "((pos + 1, upd_cell (\<lambda>c. c\<lparr>cl_slot := None\<rparr>) pos m), pos, m)
      \<in> measure (\<lambda>(pos, m :: ring). unat (rb_enq m - pos))"
    by (simp add: upd_cell_def)
qed simp

declare drop_from.simps [simp del]

definition ring_drop :: "ring \<Rightarrow> ring option" where
  "ring_drop m = drop_from (rb_deq m) m"

section \<open>Geometry\<close>

text \<open>
  The number of cells is a power of two, at least two and at most \<open>2 ^ 62\<close>: below that
  the stamps of one lap and of the next are told apart by the sign of their difference.
\<close>

definition ring_geom :: "ring \<Rightarrow> bool" where
  "ring_geom m \<longleftrightarrow> (\<exists>k. 1 \<le> k \<and> k \<le> 62 \<and> length (rb_buffer m) = 2 ^ k
     \<and> rb_mask m = 2 ^ k - 1 \<and> rb_capacity m = 2 ^ k)"

lemma pow2_word:
  assumes "k < 64"
  shows "unat (2 ^ k :: usize) = 2 ^ k"
proof -
  have "(2::nat) ^ k < 2 ^ 64" using assms by (intro power_strict_increasing) auto
  then have "unat (word_of_nat (2 ^ k) :: usize) = 2 ^ k" by (intro unat_word_of_nat_u64) simp
  then show ?thesis by simp
qed

lemma slot_index_mod:
  assumes "ring_geom m"
  shows "slot_index m pos = unat pos mod length (rb_buffer m)"
proof -
  obtain k where k: "k \<le> 62" "length (rb_buffer m) = 2 ^ k" "rb_mask m = 2 ^ k - 1"
    using assms by (auto simp: ring_geom_def)
  have "rb_mask m = mask k" by (simp add: k mask_eq_decr_exp)
  then have "slot_index m pos = unat (take_bit k pos)"
    by (simp add: slot_index_def take_bit_eq_mask)
  also have "\<dots> = take_bit k (unat pos)" by (rule unsigned_take_bit_eq)
  finally show ?thesis using k by (simp add: take_bit_eq_mod)
qed

lemma geom_pos: "ring_geom m \<Longrightarrow> 2 \<le> length (rb_buffer m)"
proof -
  assume "ring_geom m"
  then obtain k where "1 \<le> k" "length (rb_buffer m) = 2 ^ k" by (auto simp: ring_geom_def)
  then show ?thesis using power_increasing [of 1 k "2::nat"] by simp
qed

lemma geom_nonempty [simp]: "ring_geom m \<Longrightarrow> rb_buffer m \<noteq> []"
  using geom_pos [of m] by auto

lemma geom_upper: "ring_geom m \<Longrightarrow> length (rb_buffer m) \<le> 2 ^ 62"
proof -
  assume "ring_geom m"
  then obtain k where "k \<le> 62" "length (rb_buffer m) = 2 ^ k" by (auto simp: ring_geom_def)
  then show ?thesis using power_increasing [of k 62 "2::nat"] by simp
qed

lemma geom_capacity: "ring_geom m \<Longrightarrow> ring_capacity m = length (rb_buffer m)"
  by (auto simp: ring_geom_def ring_capacity_def pow2_word)

lemma geom_mask: "ring_geom m \<Longrightarrow> rb_mask m + 1 = word_of_nat (length (rb_buffer m))"
  by (auto simp: ring_geom_def)

lemma slot_index_less: "ring_geom m \<Longrightarrow> slot_index m pos < length (rb_buffer m)"
  using geom_pos [of m] by (auto simp: slot_index_mod intro: mod_less_divisor)

lemma slot_index_offset:
  assumes "ring_geom m"
  shows "slot_index m (pos + word_of_nat j) = (unat pos + j) mod length (rb_buffer m)"
proof -
  obtain k where k: "k \<le> 62" "length (rb_buffer m) = 2 ^ k"
    using assms by (auto simp: ring_geom_def)
  have dvd: "(2::nat) ^ k dvd 2 ^ 64" using k(1) by (intro le_imp_power_dvd) simp
  have "unat (pos + word_of_nat j) = (unat pos + unat (word_of_nat j :: usize)) mod 2 ^ 64"
    by (simp add: unat_word_ariths)
  also have "\<dots> = (unat pos + j) mod 2 ^ 64" by (simp add: unat_of_nat mod_simps)
  finally show ?thesis
    using dvd k(2) by (simp add: slot_index_mod assms mod_mod_cancel)
qed

lemma slot_index_inject:
  assumes "ring_geom m" and "i < length (rb_buffer m)" and "j < length (rb_buffer m)"
  shows "slot_index m (pos + word_of_nat i) = slot_index m (pos + word_of_nat j) \<longleftrightarrow> i = j"
proof -
  have le: "i = j" if "(a + i) mod n = (a + j) mod n" "i < n" "j < n" "i \<le> j" for a i j n :: nat
  proof -
    have "(a + j) mod n = (a + i) mod n" using that(1) by simp
    then have "n dvd (a + j) - (a + i)" using that(4) by (subst (asm) mod_eq_dvd_iff_nat) simp_all
    then have "n dvd j - i" by simp
    then have "\<not> 0 < j - i" using that(3) dvd_imp_le [of n "j - i"] by linarith
    then show ?thesis using that(4) by simp
  qed
  have "i = j" if "(a + i) mod n = (a + j) mod n" "i < n" "j < n" for a i j n :: nat
    using nat_le_linear [of i j] le [OF that] le [OF that(1) [symmetric] that(3,2)]
    by blast
  then show ?thesis unfolding slot_index_offset [OF assms(1)] using assms(2,3) by blast
qed

lemma upd_cell_simps [simp]:
  "rb_mask (upd_cell f pos m) = rb_mask m" "rb_capacity (upd_cell f pos m) = rb_capacity m"
  "rb_enq (upd_cell f pos m) = rb_enq m" "rb_deq (upd_cell f pos m) = rb_deq m"
  "length (rb_buffer (upd_cell f pos m)) = length (rb_buffer m)"
  "slot_index (upd_cell f pos m) q = slot_index m q"
  "ring_geom (upd_cell f pos m) = ring_geom m"
  by (simp_all add: upd_cell_def slot_index_def ring_geom_def)

lemma counter_simps [simp]:
  "slot_index (m\<lparr>rb_enq := x\<rparr>) q = slot_index m q" "slot_index (m\<lparr>rb_deq := x\<rparr>) q = slot_index m q"
  "cell_at (m\<lparr>rb_enq := x\<rparr>) q = cell_at m q" "cell_at (m\<lparr>rb_deq := x\<rparr>) q = cell_at m q"
  "ring_geom (m\<lparr>rb_enq := x\<rparr>) = ring_geom m" "ring_geom (m\<lparr>rb_deq := x\<rparr>) = ring_geom m"
  by (simp_all add: slot_index_def cell_at_def ring_geom_def)

lemma cell_at_upd:
  assumes "ring_geom m"
  shows "cell_at (upd_cell f pos m) q =
    (if slot_index m q = slot_index m pos then f (cell_at m pos) else cell_at m q)"
  using slot_index_less [OF assms, of pos]
  by (auto simp: cell_at_def upd_cell_def slot_index_def nth_list_update)

section \<open>Invariant without interference\<close>

definition ring_size :: "ring \<Rightarrow> nat" where
  "ring_size m = unat (rb_enq m - rb_deq m)"

text \<open>The \<open>j\<close>-th position counted from \<open>dequeue_pos\<close>.\<close>

definition pos_at :: "ring \<Rightarrow> nat \<Rightarrow> usize" where
  "pos_at m j = rb_deq m + word_of_nat j"

definition ring_inv :: "ring \<Rightarrow> bool" where
  "ring_inv m \<longleftrightarrow> ring_geom m \<and> ring_size m \<le> length (rb_buffer m)
     \<and> (\<forall>j < length (rb_buffer m).
          if j < ring_size m
          then cl_seq (cell_at m (pos_at m j)) = pos_at m j + 1
             \<and> cl_slot (cell_at m (pos_at m j)) \<noteq> None
          else cl_seq (cell_at m (pos_at m j)) = pos_at m j
             \<and> cl_slot (cell_at m (pos_at m j)) = None)"

definition ring_contents :: "ring \<Rightarrow> write_request list" where
  "ring_contents m = map (\<lambda>j. the (cl_slot (cell_at m (pos_at m j)))) [0..<ring_size m]"

lemma length_contents [simp]: "length (ring_contents m) = ring_size m"
  by (simp add: ring_contents_def)

lemma enq_pos: "rb_enq m = pos_at m (ring_size m)"
  by (simp add: pos_at_def ring_size_def)

lemma deq_pos: "rb_deq m = pos_at m 0"
  by (simp add: pos_at_def)

lemma pos_at_inject:
  assumes "ring_geom m" and "i < length (rb_buffer m)" and "j < length (rb_buffer m)"
  shows "slot_index m (pos_at m i) = slot_index m (pos_at m j) \<longleftrightarrow> i = j"
  using slot_index_inject [OF assms] by (simp add: pos_at_def)

lemma pos_at_lap:
  assumes "ring_geom m"
  shows "slot_index m (pos_at m (length (rb_buffer m))) = slot_index m (rb_deq m)"
proof -
  have "slot_index m (pos_at m (length (rb_buffer m))) = unat (rb_deq m) mod length (rb_buffer m)"
    unfolding pos_at_def slot_index_offset [OF assms] by simp
  then show ?thesis by (simp only: slot_index_mod [OF assms])
qed

lemma ring_inv_occupied:
  assumes "ring_inv m" and "j < ring_size m"
  shows "cl_seq (cell_at m (pos_at m j)) = pos_at m j + 1"
    and "\<exists>r. cl_slot (cell_at m (pos_at m j)) = Some r"
  using assms unfolding ring_inv_def by (meson less_le_trans, meson less_le_trans not_None_eq)

lemma ring_inv_free:
  assumes "ring_inv m" and "ring_size m \<le> j" and "j < length (rb_buffer m)"
  shows "cl_seq (cell_at m (pos_at m j)) = pos_at m j"
    and "cl_slot (cell_at m (pos_at m j)) = None"
  using assms unfolding ring_inv_def by (meson leD)+

lemma enq_unfold:
  "enq_loop r m E_Load = enq_loop r m (E_Seq (rb_enq m))"
  "enq_loop r m (E_Seq pos) =
     (let diff = cl_seq (cell_at m pos) - pos in
      if diff = 0 then enq_loop r m (E_Cas pos)
      else if sint diff < 0 then Some (Inl r, m) else enq_loop r m E_Load)"
  "enq_loop r m (E_Cas pos) =
     (if rb_enq m = pos then enq_loop r (m\<lparr>rb_enq := pos + 1\<rparr>) (E_Write pos)
      else enq_loop r m (E_Seq (rb_enq m)))"
  "enq_loop r m (E_Write pos) = enq_loop r (upd_cell (\<lambda>c. c\<lparr>cl_slot := Some r\<rparr>) pos m) (E_Publish pos)"
  "enq_loop r m (E_Publish pos) = Some (Inr (), upd_cell (\<lambda>c. c\<lparr>cl_seq := pos + 1\<rparr>) pos m)"
  "enq_loop r m (E_Ret x) = Some (x, m)"
  by (subst enq_loop.simps, simp add: Let_def enq_loop.simps [of r _ "E_Ret _"])+

lemma deq_unfold:
  "deq_loop m D_Load = deq_loop m (D_Seq (rb_deq m))"
  "deq_loop m (D_Seq pos) =
     (let diff = cl_seq (cell_at m pos) - (pos + 1) in
      if diff = 0 then deq_loop m (D_Cas pos)
      else if sint diff < 0 then Some (None, m) else deq_loop m D_Load)"
  "deq_loop m (D_Cas pos) =
     (if rb_deq m = pos then deq_loop (m\<lparr>rb_deq := pos + 1\<rparr>) (D_Read pos)
      else deq_loop m (D_Seq (rb_deq m)))"
  "deq_loop m (D_Read pos) =
     (case cl_slot (cell_at m pos) of
        None \<Rightarrow> None
      | Some r \<Rightarrow> deq_loop (upd_cell (\<lambda>c. c\<lparr>cl_slot := None\<rparr>) pos m) (D_Free pos r))"
  "deq_loop m (D_Free pos r) =
     Some (Some r, upd_cell (\<lambda>c. c\<lparr>cl_seq := pos + rb_mask m + 1\<rparr>) pos m)"
  "deq_loop m (D_Ret y) = Some (y, m)"
  by (subst deq_loop.simps,
      simp add: Let_def deq_loop.simps [of _ "D_Ret _"] deq_loop.simps [of _ D_Undefined]
        split: option.split)+

definition pushed :: "write_request \<Rightarrow> ring \<Rightarrow> ring" where
  "pushed r m = upd_cell (\<lambda>c. c\<lparr>cl_seq := rb_enq m + 1\<rparr>) (rb_enq m)
     (upd_cell (\<lambda>c. c\<lparr>cl_slot := Some r\<rparr>) (rb_enq m) (m\<lparr>rb_enq := rb_enq m + 1\<rparr>))"

definition popped :: "ring \<Rightarrow> ring" where
  "popped m = upd_cell (\<lambda>c. c\<lparr>cl_seq := rb_deq m + rb_mask m + 1\<rparr>) (rb_deq m)
     (upd_cell (\<lambda>c. c\<lparr>cl_slot := None\<rparr>) (rb_deq m) (m\<lparr>rb_deq := rb_deq m + 1\<rparr>))"

lemma enq_not_full:
  assumes "ring_inv m" and "ring_size m < length (rb_buffer m)"
  shows "enq_loop r m E_Load = Some (Inr (), pushed r m)"
proof -
  have "cl_seq (cell_at m (rb_enq m)) = rb_enq m"
    using ring_inv_free(1) [OF assms(1) _ assms(2)] by (simp add: enq_pos)
  then show ?thesis by (simp add: enq_unfold Let_def pushed_def)
qed

lemma sint_small_negative:
  assumes "2 \<le> n" and "n \<le> 2 ^ 62"
  shows "sint (1 - word_of_nat n :: usize) < 0" and "1 - word_of_nat n \<noteq> (0 :: usize)"
proof -
  have "(1 - word_of_nat n :: usize) = word_of_int (1 - int n)" by simp
  then have "sint (1 - word_of_nat n :: usize) = signed_take_bit 63 (1 - int n)"
    by (simp only: sint_sbintrunc') simp
  also have "\<dots> = 1 - int n" using assms by (intro signed_take_bit_int_eq_self) auto
  finally show "sint (1 - word_of_nat n :: usize) < 0" using assms(1) by simp
  then show "1 - word_of_nat n \<noteq> (0 :: usize)" by auto
qed

lemma enq_full:
  assumes "ring_inv m" and "ring_size m = length (rb_buffer m)"
  shows "enq_loop r m E_Load = Some (Inl r, m)"
proof -
  have g: "ring_geom m" using assms(1) by (simp add: ring_inv_def)
  let ?n = "length (rb_buffer m)"
  have "cell_at m (rb_enq m) = cell_at m (pos_at m 0)"
    using pos_at_lap [OF g] assms(2) by (simp add: cell_at_def enq_pos deq_pos [symmetric])
  then have "cl_seq (cell_at m (rb_enq m)) = rb_deq m + 1"
    using ring_inv_occupied(1) [OF assms(1), of 0] assms(2) g
    by (simp add: deq_pos [symmetric])
  then have "cl_seq (cell_at m (rb_enq m)) - rb_enq m = 1 - word_of_nat ?n"
    using assms(2) by (simp add: enq_pos pos_at_def)
  then show ?thesis
    using sint_small_negative [OF geom_pos [OF g] geom_upper [OF g]]
    by (simp add: enq_unfold Let_def)
qed

lemma deq_not_empty:
  assumes "ring_inv m" and "0 < ring_size m"
  shows "deq_loop m D_Load =
    Some (cl_slot (cell_at m (rb_deq m)), popped m)" and "cl_slot (cell_at m (rb_deq m)) \<noteq> None"
proof -
  have "cl_seq (cell_at m (rb_deq m)) = rb_deq m + 1"
    using ring_inv_occupied(1) [OF assms] by (simp add: deq_pos [symmetric])
  moreover obtain r where "cl_slot (cell_at m (rb_deq m)) = Some r"
    using ring_inv_occupied(2) [OF assms] by (auto simp: deq_pos [symmetric])
  ultimately show "deq_loop m D_Load = Some (cl_slot (cell_at m (rb_deq m)), popped m)"
    "cl_slot (cell_at m (rb_deq m)) \<noteq> None"
    by (simp_all add: deq_unfold Let_def popped_def)
qed

lemma deq_empty:
  assumes "ring_inv m" and "ring_size m = 0"
  shows "deq_loop m D_Load = Some (None, m)"
proof -
  have "ring_geom m" using assms(1) by (simp add: ring_inv_def)
  then have "cl_seq (cell_at m (rb_deq m)) = rb_deq m"
    using ring_inv_free(1) [OF assms(1), of 0] assms(2) by (simp add: deq_pos [symmetric])
  then show ?thesis by (simp add: deq_unfold Let_def)
qed

text \<open>What a completed push and a completed pop do to the cells.\<close>

lemma pushed_simps [simp]:
  "rb_deq (pushed r m) = rb_deq m" "rb_enq (pushed r m) = rb_enq m + 1"
  "length (rb_buffer (pushed r m)) = length (rb_buffer m)"
  "ring_geom (pushed r m) = ring_geom m" "slot_index (pushed r m) p = slot_index m p"
  "pos_at (pushed r m) j = pos_at m j" "rb_capacity (pushed r m) = rb_capacity m"
  by (simp_all add: pushed_def pos_at_def)

lemma popped_simps [simp]:
  "rb_deq (popped m) = rb_deq m + 1" "rb_enq (popped m) = rb_enq m"
  "length (rb_buffer (popped m)) = length (rb_buffer m)"
  "ring_geom (popped m) = ring_geom m" "slot_index (popped m) p = slot_index m p"
  "pos_at (popped m) j = pos_at m (Suc j)" "rb_capacity (popped m) = rb_capacity m"
  by (simp_all add: popped_def pos_at_def)

lemma cell_at_pushed:
  "ring_geom m \<Longrightarrow> cell_at (pushed r m) q =
     (if slot_index m q = slot_index m (rb_enq m)
      then \<lparr>cl_seq = rb_enq m + 1, cl_slot = Some r\<rparr> else cell_at m q)"
  by (simp add: pushed_def cell_at_upd)

lemma cell_at_popped:
  "ring_geom m \<Longrightarrow> cell_at (popped m) q =
     (if slot_index m q = slot_index m (rb_deq m)
      then \<lparr>cl_seq = rb_deq m + rb_mask m + 1, cl_slot = None\<rparr> else cell_at m q)"
  by (simp add: popped_def cell_at_upd)

lemma ring_size_pushed:
  assumes "ring_geom m" and "ring_size m < length (rb_buffer m)"
  shows "ring_size (pushed r m) = Suc (ring_size m)"
proof -
  have "rb_enq m + 1 - rb_deq m = word_of_nat (Suc (ring_size m))"
    by (simp add: ring_size_def)
  moreover have "Suc (ring_size m) < 18446744073709551616"
    using assms(2) geom_upper [OF assms(1)] by simp
  ultimately show ?thesis
    by (simp add: ring_size_def unat_word_of_nat_u64 del: of_nat_Suc)
qed

lemma ring_size_popped:
  assumes "0 < ring_size m"
  shows "ring_size (popped m) = ring_size m - 1"
proof -
  have "rb_enq m - rb_deq m \<noteq> 0" using assms by (auto simp: ring_size_def)
  from unat_minus_one [OF this] show ?thesis
    by (simp only: ring_size_def popped_simps diff_diff_add)
qed

lemma ring_inv_pushed:
  assumes "ring_inv m" and "ring_size m < length (rb_buffer m)"
  shows "ring_inv (pushed r m)"
proof -
  have g: "ring_geom m" using assms(1) by (simp add: ring_inv_def)
  have "cell_at (pushed r m) (pos_at m j) =
    (if j = ring_size m then \<lparr>cl_seq = rb_enq m + 1, cl_slot = Some r\<rparr>
     else cell_at m (pos_at m j))" if "j < length (rb_buffer m)" for j
    using pos_at_inject [OF g that assms(2)] by (simp add: cell_at_pushed [OF g] enq_pos)
  then show ?thesis
    using assms ring_inv_occupied [OF assms(1)] ring_inv_free [OF assms(1)]
    by (auto simp: ring_inv_def ring_size_pushed g enq_pos [symmetric])
qed

lemma contents_pushed:
  assumes "ring_inv m" and "ring_size m < length (rb_buffer m)"
  shows "ring_contents (pushed r m) = ring_contents m @ [r]"
proof -
  have g: "ring_geom m" using assms(1) by (simp add: ring_inv_def)
  have "cell_at (pushed r m) (pos_at m j) = cell_at m (pos_at m j)" if "j < ring_size m" for j
    using pos_at_inject [OF g _ assms(2), of j] that assms(2)
    by (simp add: cell_at_pushed [OF g] enq_pos)
  then show ?thesis
    by (simp add: ring_contents_def ring_size_pushed [OF g assms(2)] cell_at_pushed [OF g]
        enq_pos [symmetric])
qed

lemma ring_inv_popped:
  assumes "ring_inv m" and "0 < ring_size m"
  shows "ring_inv (popped m)"
proof -
  have g: "ring_geom m" using assms(1) by (simp add: ring_inv_def)
  let ?n = "length (rb_buffer m)"
  have old: "cell_at (popped m) (pos_at m j) = cell_at m (pos_at m j)" if "0 < j" "j < ?n" for j
    using pos_at_inject [OF g that(2), of 0] that g by (simp add: cell_at_popped deq_pos)
  have last: "cell_at (popped m) (pos_at m ?n) = \<lparr>cl_seq = pos_at m ?n, cl_slot = None\<rparr>"
    using pos_at_lap [OF g] geom_mask [OF g]
    by (simp add: cell_at_popped [OF g] pos_at_def add.assoc)
  show ?thesis
    unfolding ring_inv_def
  proof (intro conjI allI impI)
    show "ring_geom (popped m)" using g by simp
    have "ring_size m \<le> ?n" using assms(1) by (simp add: ring_inv_def)
    then show "ring_size (popped m) \<le> length (rb_buffer (popped m))"
      using assms(2) by (simp add: ring_size_popped)
    fix j assume j: "j < length (rb_buffer (popped m))"
    consider "Suc j < ?n" | "Suc j = ?n" using j by fastforce
    then show "if j < ring_size (popped m)
      then cl_seq (cell_at (popped m) (pos_at (popped m) j)) = pos_at (popped m) j + 1
        \<and> cl_slot (cell_at (popped m) (pos_at (popped m) j)) \<noteq> None
      else cl_seq (cell_at (popped m) (pos_at (popped m) j)) = pos_at (popped m) j
        \<and> cl_slot (cell_at (popped m) (pos_at (popped m) j)) = None"
    proof cases
      case 1
      then show ?thesis
        using ring_inv_occupied [OF assms(1), of "Suc j"] ring_inv_free [OF assms(1), of "Suc j"]
        by (auto simp: old ring_size_popped assms(2))
    next
      case 2
      moreover have "ring_size m \<le> ?n" using assms(1) by (simp add: ring_inv_def)
      ultimately show ?thesis using last by (auto simp: ring_size_popped assms(2))
    qed
  qed
qed

lemma contents_popped:
  assumes "ring_inv m" and "0 < ring_size m"
  shows "ring_contents m = the (cl_slot (cell_at m (rb_deq m))) # ring_contents (popped m)"
proof -
  have g: "ring_geom m" and le: "ring_size m \<le> length (rb_buffer m)"
    using assms(1) by (simp_all add: ring_inv_def)
  have "cell_at (popped m) (pos_at m (Suc j)) = cell_at m (pos_at m (Suc j))"
    if "Suc j < ring_size m" for j
    using pos_at_inject [OF g, of "Suc j" 0] that le g by (simp add: cell_at_popped deq_pos)
  moreover have "[0..<ring_size m] = 0 # map Suc [0..<ring_size m - 1]"
    using assms(2) by (simp add: upt_conv_Cons map_Suc_upt)
  ultimately show ?thesis
    by (simp add: ring_contents_def ring_size_popped assms(2) deq_pos [symmetric])
qed


section \<open>Construction\<close>

lemma pow2_from_spec:
  "p = 2 ^ a \<Longrightarrow> a \<le> b \<Longrightarrow> n \<le> 2 ^ b \<Longrightarrow>
    \<exists>k. a \<le> k \<and> k \<le> b \<and> pow2_from p n = 2 ^ k \<and> n \<le> pow2_from p n
      \<and> (a < k \<longrightarrow> 2 ^ k < 2 * n)"
proof (induction p n arbitrary: a rule: pow2_from.induct)
  case (1 p n)
  show ?case
  proof (cases "n \<le> p")
    case True
    then show ?thesis
      using "1.prems" by (intro exI [of _ a]) (simp add: pow2_from.simps)
  next
    case False
    then have "a \<noteq> b" using "1.prems" by auto
    then have "Suc a \<le> b" using "1.prems" by simp
    have "\<not> (p = 0 \<or> n \<le> p)" using False "1.prems"(1) by simp
    moreover have "2 * p = 2 ^ Suc a" using "1.prems"(1) by simp
    ultimately obtain k where k: "Suc a \<le> k" "k \<le> b" "pow2_from (2 * p) n = 2 ^ k"
      "n \<le> pow2_from (2 * p) n" "Suc a < k \<longrightarrow> 2 ^ k < 2 * n"
      using "1.IH" \<open>Suc a \<le> b\<close> "1.prems"(3) by blast
    have "pow2_from p n = pow2_from (2 * p) n"
      using False "1.prems"(1) by (subst pow2_from.simps) simp
    moreover have "2 ^ k < 2 * n" if "k = Suc a" using that False "1.prems"(1) by simp
    then have "2 ^ k < 2 * n" using k(1,5) by (cases "k = Suc a") auto
    ultimately show ?thesis using k by (intro exI [of _ k]) simp
  qed
qed

lemma next_power_of_two_spec:
  assumes "n \<le> 2 ^ b"
  obtains k where "k \<le> b" "next_power_of_two n = 2 ^ k" "n \<le> 2 ^ k" "0 < k \<longrightarrow> 2 ^ k < 2 * n"
  using pow2_from_spec [of 1 0 b n] assms that unfolding next_power_of_two_def by fastforce

lemma ring_new_geom:
  assumes "2 \<le> capacity" and "capacity \<le> 2 ^ 62"
  shows "ring_geom (ring_new capacity)"
    and "length (rb_buffer (ring_new capacity)) = next_power_of_two capacity"
proof -
  obtain k where k: "k \<le> 62" "next_power_of_two capacity = 2 ^ k" "capacity \<le> 2 ^ k"
    using next_power_of_two_spec [OF assms(2)] by metis
  have "1 \<le> k" using k(3) assms(1) by (cases k) auto
  moreover have "max capacity 1 = capacity" using assms(1) by simp
  ultimately show "ring_geom (ring_new capacity)"
    using k(1,2) by (auto simp: ring_geom_def ring_new_def Let_def)
  show "length (rb_buffer (ring_new capacity)) = next_power_of_two capacity"
    using \<open>max capacity 1 = capacity\<close> by (simp add: ring_new_def Let_def)
qed

lemma ring_new_inv:
  assumes "2 \<le> capacity" and "capacity \<le> 2 ^ 62"
  shows "ring_inv (ring_new capacity)" and "ring_contents (ring_new capacity) = []"
proof -
  note g = ring_new_geom(1) [OF assms]
  have 0: "ring_size (ring_new capacity) = 0" by (simp add: ring_size_def ring_new_def Let_def)
  then show "ring_contents (ring_new capacity) = []" by (simp add: ring_contents_def)
  have "slot_index (ring_new capacity) (word_of_nat j) = j"
    if "j < length (rb_buffer (ring_new capacity))" for j
    using slot_index_offset [OF g, of 0 j] that by simp
  then show "ring_inv (ring_new capacity)"
    using g 0
    by (auto simp: ring_inv_def pos_at_def cell_at_def ring_new_def Let_def simp del: upt_Suc)
qed

section \<open>The ring is a bounded FIFO queue\<close>

lemma try_enqueue_ok:
  "ring_inv m \<Longrightarrow> ring_size m < length (rb_buffer m) \<Longrightarrow> try_enqueue r m = (Inr (), pushed r m)"
  by (simp add: try_enqueue_def enq_not_full)

lemma try_enqueue_full:
  "ring_inv m \<Longrightarrow> ring_size m = length (rb_buffer m) \<Longrightarrow> try_enqueue r m = (Inl r, m)"
  by (simp add: try_enqueue_def enq_full)

lemma try_dequeue_some:
  assumes "ring_inv m" and "0 < ring_size m"
  shows "try_dequeue m = (Some (hd (ring_contents m)), popped m)"
  using deq_not_empty [OF assms] contents_popped [OF assms]
  by (auto simp: try_dequeue_def)

lemma try_dequeue_none:
  "ring_inv m \<Longrightarrow> ring_size m = 0 \<Longrightarrow> try_dequeue m = (None, m)"
  by (simp add: try_dequeue_def deq_empty)

lemma ring_inv_facts:
  "ring_inv m \<Longrightarrow> ring_geom m" "ring_inv m \<Longrightarrow> ring_size m \<le> length (rb_buffer m)"
  "ring_inv m \<Longrightarrow> ring_capacity m = length (rb_buffer m)"
  by (auto simp: ring_inv_def geom_capacity)

lemma ring_enqueue_cases:
  assumes "ring_inv m"
  obtains "ring_size m < length (rb_buffer m)" "try_enqueue r m = (Inr (), pushed r m)"
  | "ring_size m = length (rb_buffer m)" "try_enqueue r m = (Inl r, m)"
  using assms try_enqueue_ok try_enqueue_full ring_inv_facts(2) le_neq_implies_less by metis

lemma ring_dequeue_cases:
  assumes "ring_inv m"
  obtains x where "0 < ring_size m" "try_dequeue m = (Some x, popped m)"
    "ring_contents m = x # ring_contents (popped m)"
  | "ring_size m = 0" "ring_contents m = []" "try_dequeue m = (None, m)"
proof (cases "ring_size m")
  case 0
  moreover have "ring_contents m = []" by (simp add: ring_contents_def 0)
  ultimately show ?thesis using that(2) try_dequeue_none assms by blast
next
  case (Suc n)
  then have "0 < ring_size m" by simp
  from that(1) [OF this] try_dequeue_some [OF assms this] contents_popped [OF assms this]
  show ?thesis by simp
qed

interpretation ringq: queue_trait try_enqueue try_dequeue ring_capacity ring_contents ring_inv
proof unfold_locales
  fix m r assume m: "ring_inv m"
  show "length (ring_contents m) \<le> ring_capacity m"
    using ring_inv_facts [OF m] by simp
  show "length (ring_contents m) < ring_capacity m \<Longrightarrow>
    fst (try_enqueue r m) = Inr () \<and> ring_contents (snd (try_enqueue r m)) = ring_contents m @ [r]"
    by (rule ring_enqueue_cases [OF m, of r])
      (simp_all add: contents_pushed m ring_inv_facts [OF m])
  show "length (ring_contents m) = ring_capacity m \<Longrightarrow> try_enqueue r m = (Inl r, m)"
    by (rule ring_enqueue_cases [OF m, of r]) (simp_all add: ring_inv_facts [OF m])
  show "ring_inv (snd (try_enqueue r m))"
    by (rule ring_enqueue_cases [OF m, of r]) (simp_all add: ring_inv_pushed m)
  show "ring_inv (snd (try_dequeue m))"
    by (rule ring_dequeue_cases [OF m]) (simp_all add: ring_inv_popped m)
  show "ring_capacity (snd (try_enqueue r m)) = ring_capacity m"
    by (rule ring_enqueue_cases [OF m, of r]) (simp_all add: ring_capacity_def)
  show "ring_capacity (snd (try_dequeue m)) = ring_capacity m"
    by (rule ring_dequeue_cases [OF m]) (simp_all add: ring_capacity_def)
  show "ring_contents m = [] \<Longrightarrow> try_dequeue m = (None, m)"
    by (rule ring_dequeue_cases [OF m]) simp_all
  show "ring_contents m = x # xs \<Longrightarrow>
    fst (try_dequeue m) = Some x \<and> ring_contents (snd (try_dequeue m)) = xs" for x xs
    by (rule ring_dequeue_cases [OF m]) simp_all
qed

lemma drain_into_takes:
  "ring_inv m \<Longrightarrow> fst (drain_into n m) = take n (ring_contents m)
    \<and> ring_contents (snd (drain_into n m)) = drop n (ring_contents m)
    \<and> ring_inv (snd (drain_into n m))"
proof (induction n arbitrary: m)
  case 0
  then show ?case by simp
next
  case (Suc n)
  show ?case
  proof (rule ring_dequeue_cases [OF Suc.prems])
    fix x
    assume a: "0 < ring_size m" "try_dequeue m = (Some x, popped m)"
      "ring_contents m = x # ring_contents (popped m)"
    show ?thesis
      using Suc.IH [OF ring_inv_popped [OF Suc.prems a(1)]] a(2,3) by (simp add: case_prod_beta)
  qed (simp_all add: Suc.prems)
qed

lemma every_slot:
  assumes "ring_geom m"
  shows "\<exists>j < length (rb_buffer m). slot_index m q = slot_index m (pos_at m j)"
proof -
  let ?n = "length (rb_buffer m)"
  have n: "0 < ?n" using assms by simp
  obtain k where "slot_index m q = slot_index m (pos_at m k)"
    by (metis add.commute diff_add_cancel pos_at_def word_nat_cases)
  moreover have "slot_index m (pos_at m k) = slot_index m (pos_at m (k mod ?n))"
    unfolding pos_at_def slot_index_offset [OF assms] by (rule mod_add_right_eq [symmetric])
  ultimately show ?thesis using mod_less_divisor [OF n] by metis
qed

text \<open>\<open>Drop\<close> releases exactly the occupied slots.\<close>

lemma drop_from_pops:
  assumes "ring_geom m"
  shows "n = unat (rb_enq m - pos) \<Longrightarrow> n \<le> length (rb_buffer m) \<Longrightarrow>
    \<forall>j < n. cl_slot (cell_at m (pos + word_of_nat j)) \<noteq> None \<Longrightarrow>
    \<exists>m'. drop_from pos m = Some m' \<and> (\<forall>q. cl_slot (cell_at m' q) =
      (if \<exists>j < n. slot_index m q = slot_index m (pos + word_of_nat j) then None
       else cl_slot (cell_at m q)))"
  using assms
proof (induction n arbitrary: pos m)
  case 0
  then have "rb_enq m - pos = 0" by (metis unat_eq_0)
  then show ?case by (simp add: drop_from.simps)
next
  case (Suc n)
  let ?m1 = "upd_cell (\<lambda>c. c\<lparr>cl_slot := None\<rparr>) pos m"
  have ne: "rb_enq m - pos \<noteq> 0" using Suc.prems(1) by (metis nat.distinct(1) unat_0)
  obtain r where r: "cl_slot (cell_at m pos) = Some r" using Suc.prems(3) by force
  have step: "drop_from pos m = drop_from (pos + 1) ?m1"
    using ne r by (simp add: drop_from.simps [of pos])
  have off: "pos + 1 + word_of_nat j = pos + word_of_nat (Suc j)" for j by simp
  have "n = unat (rb_enq ?m1 - (pos + 1))"
    using unat_minus_one [OF ne] Suc.prems(1) by (simp only: upd_cell_simps diff_diff_add)
  moreover have "n \<le> length (rb_buffer ?m1)" using Suc.prems(2) by simp
  moreover have "cl_slot (cell_at ?m1 (pos + 1 + word_of_nat j)) \<noteq> None" if "j < n" for j
  proof -
    have "slot_index m (pos + word_of_nat (Suc j)) \<noteq> slot_index m (pos + word_of_nat 0)"
      using slot_index_inject [OF Suc.prems(4), of "Suc j" 0 pos] that Suc.prems(2,4)
      by (simp del: of_nat_Suc of_nat_0)
    then show ?thesis
      using Suc.prems(3,4) that unfolding off by (simp add: cell_at_upd del: of_nat_Suc)
  qed
  ultimately obtain m' where m': "drop_from (pos + 1) ?m1 = Some m'"
    and c: "\<And>q. cl_slot (cell_at m' q) =
      (if \<exists>j < n. slot_index ?m1 q = slot_index ?m1 (pos + 1 + word_of_nat j) then None
       else cl_slot (cell_at ?m1 q))"
    using Suc.IH [of ?m1 "pos + 1"] Suc.prems(4) by auto
  have "cl_slot (cell_at m' q) =
      (if \<exists>j < Suc n. slot_index m q = slot_index m (pos + word_of_nat j) then None
       else cl_slot (cell_at m q))" for q
    unfolding c off using Suc.prems(4)
    by (auto simp: cell_at_upd Ex_less_Suc2 simp del: of_nat_Suc)
  then show ?case unfolding step m' by blast
qed

lemma ring_drop_empties:
  assumes "ring_inv m"
  shows "\<exists>m'. ring_drop m = Some m' \<and> (\<forall>q. cl_slot (cell_at m' q) = None)"
proof -
  note g = ring_inv_facts [OF assms]
  have "\<forall>j < ring_size m. cl_slot (cell_at m (rb_deq m + word_of_nat j)) \<noteq> None"
    using ring_inv_occupied(2) [OF assms] by (fastforce simp: pos_at_def)
  from drop_from_pops [OF g(1) ring_size_def g(2) this]
  obtain m' where m': "ring_drop m = Some m'" and c: "\<And>q. cl_slot (cell_at m' q) =
      (if \<exists>j < ring_size m. slot_index m q = slot_index m (pos_at m j) then None
       else cl_slot (cell_at m q))"
    by (auto simp: ring_drop_def pos_at_def)
  have "cl_slot (cell_at m' q) = None" for q
  proof -
    obtain j where j: "j < length (rb_buffer m)" "slot_index m q = slot_index m (pos_at m j)"
      using every_slot [OF g(1)] by blast
    then have "cell_at m q = cell_at m (pos_at m j)" by (simp add: cell_at_def)
    then show ?thesis using c j ring_inv_free(2) [OF assms, of j] by (auto simp: not_less)
  qed
  then show ?thesis using m' by blast
qed

lemma ring_len_eq:
  assumes "ring_inv m"
  shows "ring_len m = (if rb_deq m \<le> rb_enq m then length (ring_contents m) else 0)"
proof -
  note g = ring_inv_facts [OF assms]
  have "rb_enq m - rb_deq m \<le> rb_capacity m"
    using g(2,3) by (simp add: word_le_nat_alt ring_size_def ring_capacity_def)
  then show ?thesis
    by (auto simp: ring_len_def Let_def ring_size_def min_def)
qed

section \<open>A ring of one cell\<close>

text \<open>
  With one cell the stamp \<open>pos + 1\<close> of a published item is also the stamp a producer one
  lap ahead waits for, so the protocol does not see that the cell is occupied.
\<close>

lemma deq_loop_ahead:
  assumes "0 < sint (cl_seq (cell_at m (rb_deq m)) - (rb_deq m + 1))"
  shows "deq_loop m D_Load = None"
proof (rule ccontr)
  assume "deq_loop m D_Load \<noteq> None"
  then obtain y where "deq_loop m D_Load = Some y" by blast
  moreover have "(m1, pc) \<noteq> (m, D_Load) \<and> (m1, pc) \<noteq> (m, D_Seq (rb_deq m))"
    if "deq_loop m1 pc = Some y" for m1 pc y
  proof (rule deq_loop.raw_induct [OF _ that])
    fix f m1 pc y
    assume IH: "\<And>m1 pc y. f m1 pc = Some y \<Longrightarrow>
        (m1, pc) \<noteq> (m, D_Load) \<and> (m1, pc) \<noteq> (m, D_Seq (rb_deq m))"
      and "(case pc of D_Ret x \<Rightarrow> Some (x, m1) | D_Undefined \<Rightarrow> None
        | _ \<Rightarrow> f (fst (deq_step False m1 pc)) (snd (deq_step False m1 pc))) = Some y"
    then show "(m1, pc) \<noteq> (m, D_Load) \<and> (m1, pc) \<noteq> (m, D_Seq (rb_deq m))"
      using assms IH [of m "D_Seq (rb_deq m)" y] IH [of m D_Load y]
      by (auto simp: Let_def split: if_splits)
  qed
  ultimately show False by blast
qed

lemma ring_new_1: "ring_new 1 =
    \<lparr>rb_buffer = [\<lparr>cl_seq = 0, cl_slot = None\<rparr>], rb_mask = 0, rb_capacity = 1,
     rb_enq = 0, rb_deq = 0\<rparr>"
  by (simp add: ring_new_def next_power_of_two_def pow2_from.simps)

section \<open>Properties\<close>

text \<open>
  the ring refines a bounded list.  A ring created for \<open>capacity\<close> requests, run
  without interference through any sequence of \<open>try_enqueue\<close> and \<open>try_dequeue\<close>, gives
  call by call the outcomes of a first-in first-out list that holds at most the requested
  capacity rounded up to a power of two.
\<close>

theorem ring_refines_bounded_fifo:
  assumes "2 \<le> capacity" and "capacity \<le> 2 ^ 62"
  shows "fst (queue_run try_enqueue try_dequeue ops (ring_new capacity)) =
    fst (queue_run (bounded_enq (next_power_of_two capacity)) bounded_deq ops [])"
proof -
  let ?m = "ring_new capacity"
  note new = ring_new_inv [OF assms]
  have cap: "ring_capacity ?m = next_power_of_two capacity"
    using ring_new_geom [OF assms] by (simp add: geom_capacity)
  obtain outs q where r: "queue_run try_enqueue try_dequeue ops ?m = (outs, q)" by fastforce
  from ringq.run_refines [OF new(1) r] show ?thesis by (simp add: r cap new(2))
qed

theorem ring_refines_bounded_fifo_witness:
  "fst (queue_run try_enqueue try_dequeue [Enq \<lparr>wr_id = 1, wr_version = 2, wr_blob = [], wr_seq = 0\<rparr>, Deq, Deq]
     (ring_new 3)) =
   [Accepted, Popped (Some \<lparr>wr_id = 1, wr_version = 2, wr_blob = [], wr_seq = 0\<rparr>), Popped None]"
proof (rule trans [OF ring_refines_bounded_fifo])
  have "next_power_of_two 3 = 4" by (simp add: next_power_of_two_def pow2_from.simps)
  then show "fst (queue_run (bounded_enq (next_power_of_two 3)) bounded_deq
      [Enq \<lparr>wr_id = 1, wr_version = 2, wr_blob = [], wr_seq = 0\<rparr>, Deq, Deq] []) =
    [Accepted, Popped (Some \<lparr>wr_id = 1, wr_version = 2, wr_blob = [], wr_seq = 0\<rparr>), Popped None]"
    by (simp add: bounded_enq_def split: unit.split)
qed simp_all

text \<open>
  without interference both methods return.  On a well-formed ring neither loop runs
  forever, no uninitialised slot is read, and the ring is well-formed afterwards.
\<close>

theorem ring_methods_return:
  assumes "ring_inv m"
  shows "(\<exists>x m'. enq_loop r m E_Load = Some (x, m') \<and> ring_inv m')
    \<and> (\<exists>y m'. deq_loop m D_Load = Some (y, m') \<and> ring_inv m')"
proof
  show "\<exists>x m'. enq_loop r m E_Load = Some (x, m') \<and> ring_inv m'"
    using enq_not_full [OF assms] enq_full [OF assms] ring_inv_pushed [OF assms]
      ring_inv_facts(2) [OF assms] assms le_neq_implies_less by blast
  show "\<exists>y m'. deq_loop m D_Load = Some (y, m') \<and> ring_inv m'"
    using deq_not_empty [OF assms] deq_empty [OF assms] ring_inv_popped [OF assms] assms by blast
qed

theorem ring_methods_return_witness:
  "ring_inv (ring_new 4) \<and> (\<exists>y m'. deq_loop (ring_new 4) D_Load = Some (y, m') \<and> ring_inv m')"
  using ring_new_inv(1) [of 4] ring_methods_return [of "ring_new 4"] by simp

text \<open>
  \<open>drain_into\<close> moves the oldest \<open>max\<close> requests, in order, and leaves the others.
\<close>

theorem drain_into_moves_prefix:
  assumes "ring_inv m" and "drain_into n m = (out, m')"
  shows "out = take n (ring_contents m) \<and> ring_contents m' = drop n (ring_contents m) \<and> ring_inv m'"
  using drain_into_takes [OF assms(1), of n] assms(2) by simp

theorem drain_into_moves_prefix_witness:
  "\<exists>m'. drain_into 3 (ring_new 4) = ([], m') \<and> ring_inv m'"
proof -
  obtain out m' where d: "drain_into 3 (ring_new 4) = (out, m')" by fastforce
  from drain_into_moves_prefix [OF _ d] d show ?thesis using ring_new_inv [of 4] by simp
qed

text \<open>
  \<open>len\<close> is the number of queued requests of a quiescent ring until the producer
  counter wraps past the consumer counter; then it is zero whatever the ring holds.
\<close>

theorem ring_len_until_wrap:
  assumes "ring_inv m"
  shows "ring_len m = (if rb_deq m \<le> rb_enq m then length (ring_contents m) else 0)"
  using assms by (rule ring_len_eq)

theorem ring_len_until_wrap_witness: "ring_len (ring_new 4) = 0 \<and> ring_inv (ring_new 4)"
  using ring_len_until_wrap [of "ring_new 4"] ring_new_inv [of 4] by simp

text \<open>
  dropping a well-formed ring never touches an uninitialised slot and leaves no slot
  initialised.
\<close>

theorem ring_drop_releases_all:
  assumes "ring_inv m"
  shows "\<exists>m'. ring_drop m = Some m' \<and> (\<forall>q. cl_slot (cell_at m' q) = None)"
  using assms by (rule ring_drop_empties)

theorem ring_drop_releases_all_witness:
  "\<exists>m'. ring_drop (pushed \<lparr>wr_id = 1, wr_version = 2, wr_blob = [], wr_seq = 0\<rparr> (ring_new 4)) = Some m'
    \<and> cl_slot (cell_at m' 0) = None"
proof -
  have "ring_size (ring_new 4) = 0" by (simp add: ring_size_def ring_new_def Let_def)
  then have "ring_inv (pushed \<lparr>wr_id = 1, wr_version = 2, wr_blob = [], wr_seq = 0\<rparr> (ring_new 4))"
    using ring_inv_pushed [of "ring_new 4"] ring_new_inv [of 4] ring_new_geom(1) [of 4] by simp
  from ring_drop_releases_all [OF this] show ?thesis by blast
qed

text \<open>
  C40: a ring of capacity one, which the configuration accepts, is broken.  A second
  \<open>try_enqueue\<close> succeeds although the first request is still queued, overwrites it, and
  the next \<open>try_dequeue\<close> never returns.
\<close>

theorem capacity_one_overwrites_and_hangs:
  "\<exists>m1 m2. try_enqueue a (ring_new 1) = (Inr (), m1) \<and> try_enqueue b m1 = (Inr (), m2)
    \<and> ring_capacity m2 = 1 \<and> cl_slot (cell_at m2 (rb_deq m2)) = Some b
    \<and> deq_loop m2 D_Load = None"
proof -
  define m1 where "m1 = \<lparr>rb_buffer = [\<lparr>cl_seq = 1, cl_slot = Some a\<rparr>], rb_mask = 0,
    rb_capacity = 1, rb_enq = 1, rb_deq = 0\<rparr>"
  define m2 where "m2 = \<lparr>rb_buffer = [\<lparr>cl_seq = 2, cl_slot = Some b\<rparr>], rb_mask = 0,
    rb_capacity = 1, rb_enq = 2, rb_deq = 0\<rparr>"
  note eval = enq_unfold try_enqueue_def cell_at_def slot_index_def upd_cell_def
  have "try_enqueue a (ring_new 1) = (Inr (), m1)"
    by (simp add: ring_new_1 [unfolded One_nat_def] m1_def eval)
  moreover have "try_enqueue b m1 = (Inr (), m2)" by (simp add: m1_def m2_def eval)
  moreover have "deq_loop m2 D_Load = None"
    by (rule deq_loop_ahead) (simp add: m2_def cell_at_def slot_index_def)
  ultimately show ?thesis
    by (simp add: m2_def cell_at_def slot_index_def ring_capacity_def)
qed

end
