(* ===== verification/Ring_Conc.thy ===== *)
theory Ring_Conc
  imports Ring
begin

text \<open>
  The ring under interference: any number of producers and consumers, each at some step of
  \<open>try_enqueue\<close> or \<open>try_dequeue\<close>, interleaved one atomic access at a time, with spurious
  failures of \<open>compare_exchange_weak\<close>.  The accesses are sequentially consistent: the
  acquire and release orderings of the source are not modelled.  Ghost components record
  the requests in the order of their claimed positions, how many positions consumers have
  claimed, and what was read where.

  The positions are compared as natural numbers, so the properties hold for runs that claim
  fewer than \<open>2 ^ 63\<close> positions.
\<close>

section \<open>Steps\<close>

record conc =
  co_ring :: ring
  co_prod :: "nat \<Rightarrow> (write_request \<times> enq_pc) option"   \<comment> \<open>the producers inside a call\<close>
  co_cons :: "nat \<Rightarrow> deq_pc option"                      \<comment> \<open>the consumers inside a call\<close>
  co_in :: "write_request list"                        \<comment> \<open>requests by claimed position\<close>
  co_taken :: nat                                      \<comment> \<open>positions claimed by consumers\<close>
  co_reads :: "(nat \<times> write_request) list"             \<comment> \<open>positions read, with the value\<close>

definition conc_start :: "nat \<Rightarrow> conc" where
  "conc_start capacity =
     \<lparr>co_ring = ring_new capacity, co_prod = (\<lambda>_. None), co_cons = (\<lambda>_. None), co_in = [],
      co_taken = 0, co_reads = []\<rparr>"

text \<open>What a step adds to the ghost components.\<close>

fun claimed :: "enq_pc \<Rightarrow> enq_pc \<Rightarrow> bool" where
  "claimed (E_Cas pos) (E_Write q) = True"
| "claimed a b = False"

fun taken :: "deq_pc \<Rightarrow> deq_pc \<Rightarrow> bool" where
  "taken (D_Cas pos) (D_Read q) = True"
| "taken a b = False"

fun read_at :: "deq_pc \<Rightarrow> deq_pc \<Rightarrow> (nat \<times> write_request) list" where
  "read_at (D_Read pos) (D_Free q r) = [(unat pos, r)]"
| "read_at a b = []"

definition enq_moves :: "nat \<Rightarrow> write_request \<Rightarrow> enq_pc \<Rightarrow> bool \<Rightarrow> conc \<Rightarrow> conc" where
  "enq_moves t r pc weak c =
     (let (m, pc') = enq_step weak r (co_ring c) pc in
      c\<lparr>co_ring := m, co_prod := (co_prod c)(t \<mapsto> (r, pc')),
        co_in := co_in c @ (if claimed pc pc' then [r] else [])\<rparr>)"

definition deq_moves :: "nat \<Rightarrow> deq_pc \<Rightarrow> bool \<Rightarrow> conc \<Rightarrow> conc" where
  "deq_moves t pc weak c =
     (let (m, pc') = deq_step weak (co_ring c) pc in
      c\<lparr>co_ring := m, co_cons := (co_cons c)(t \<mapsto> pc'),
        co_taken := co_taken c + (if taken pc pc' then 1 else 0),
        co_reads := co_reads c @ read_at pc pc'\<rparr>)"

inductive conc_step :: "conc \<Rightarrow> conc \<Rightarrow> bool" where
  call_enqueue: "co_prod c t = None \<Longrightarrow> conc_step c (c\<lparr>co_prod := (co_prod c)(t \<mapsto> (r, E_Load))\<rparr>)"
| move_producer: "co_prod c t = Some (r, pc) \<Longrightarrow> conc_step c (enq_moves t r pc weak c)"
| return_enqueue: "co_prod c t = Some (r, E_Ret x) \<Longrightarrow> conc_step c (c\<lparr>co_prod := (co_prod c)(t := None)\<rparr>)"
| call_dequeue: "co_cons c t = None \<Longrightarrow> conc_step c (c\<lparr>co_cons := (co_cons c)(t \<mapsto> D_Load)\<rparr>)"
| move_consumer: "co_cons c t = Some pc \<Longrightarrow> conc_step c (deq_moves t pc weak c)"
| return_dequeue: "co_cons c t = Some (D_Ret x) \<Longrightarrow> conc_step c (c\<lparr>co_cons := (co_cons c)(t := None)\<rparr>)"

inductive conc_reachable :: "nat \<Rightarrow> conc \<Rightarrow> bool" for capacity where
  start: "conc_reachable capacity (conc_start capacity)"
| step: "conc_reachable capacity c \<Longrightarrow> conc_step c c' \<Longrightarrow> conc_reachable capacity c'"

section \<open>The invariant\<close>

text \<open>The stage of a cell, with the thread that owns it.\<close>

datatype stage = Vacant | Writing nat | Written nat | Published | Taken nat | Emptied nat

fun filled :: "stage \<Rightarrow> bool" where
  "filled (Written t) = True" | "filled Published = True" | "filled (Taken t) = True" | "filled _ = False"

fun stamped :: "stage \<Rightarrow> nat" where
  "stamped Published = 1" | "stamped (Taken t) = 1" | "stamped (Emptied t) = 1" | "stamped _ = 0"

abbreviation cells :: "conc \<Rightarrow> nat" where
  "cells c \<equiv> length (rb_buffer (co_ring c))"

abbreviation claims :: "conc \<Rightarrow> nat" where
  "claims c \<equiv> length (co_in c)"

text \<open>Where the position of a cell in a given stage can lie.\<close>

fun in_range :: "conc \<Rightarrow> nat \<Rightarrow> stage \<Rightarrow> bool" where
  "in_range c p Vacant \<longleftrightarrow> claims c \<le> p \<and> p < co_taken c + cells c"
| "in_range c p (Writing t) \<longleftrightarrow> co_taken c \<le> p \<and> p < claims c"
| "in_range c p (Written t) \<longleftrightarrow> co_taken c \<le> p \<and> p < claims c"
| "in_range c p Published \<longleftrightarrow> co_taken c \<le> p \<and> p < claims c"
| "in_range c p (Taken t) \<longleftrightarrow> p < co_taken c \<and> claims c \<le> p + cells c"
| "in_range c p (Emptied t) \<longleftrightarrow> p < co_taken c \<and> claims c \<le> p + cells c"

fun owned :: "conc \<Rightarrow> nat \<Rightarrow> stage \<Rightarrow> bool" where
  "owned c p (Writing t) \<longleftrightarrow> co_prod c t = Some (co_in c ! p, E_Write (word_of_nat p))"
| "owned c p (Written t) \<longleftrightarrow> co_prod c t = Some (co_in c ! p, E_Publish (word_of_nat p))"
| "owned c p (Taken t) \<longleftrightarrow> co_cons c t = Some (D_Read (word_of_nat p)) \<and> p \<notin> fst ` set (co_reads c)"
| "owned c p (Emptied t) \<longleftrightarrow> co_cons c t = Some (D_Free (word_of_nat p) (co_in c ! p))"
| "owned c p _ \<longleftrightarrow> True"

definition cell_ok :: "conc \<Rightarrow> nat \<Rightarrow> nat \<times> stage \<Rightarrow> bool" where
  "cell_ok c j ps \<longleftrightarrow> (case ps of (p, s) \<Rightarrow>
     p mod cells c = j \<and> in_range c p s \<and> owned c p s
     \<and> cl_seq (rb_buffer (co_ring c) ! j) = word_of_nat (p + stamped s)
     \<and> cl_slot (rb_buffer (co_ring c) ! j) = (if filled s then Some (co_in c ! p) else None))"

fun producer_ok :: "(nat \<Rightarrow> nat \<times> stage) \<Rightarrow> conc \<Rightarrow> nat \<Rightarrow> write_request \<Rightarrow> enq_pc \<Rightarrow> bool" where
  "producer_ok g c t r E_Load \<longleftrightarrow> True"
| "producer_ok g c t r (E_Seq pos) \<longleftrightarrow> unat pos \<le> claims c"
| "producer_ok g c t r (E_Cas pos) \<longleftrightarrow> unat pos \<le> claims c
     \<and> (unat pos = claims c \<longrightarrow> g (claims c mod cells c) = (claims c, Vacant))"
| "producer_ok g c t r (E_Write pos) \<longleftrightarrow> unat pos < claims c \<and> g (unat pos mod cells c) = (unat pos, Writing t)"
| "producer_ok g c t r (E_Publish pos) \<longleftrightarrow> unat pos < claims c \<and> g (unat pos mod cells c) = (unat pos, Written t)"
| "producer_ok g c t r (E_Ret x) \<longleftrightarrow> (case x of Inl r' \<Rightarrow> r' = r | Inr u \<Rightarrow> True)"

fun consumer_ok :: "(nat \<Rightarrow> nat \<times> stage) \<Rightarrow> conc \<Rightarrow> nat \<Rightarrow> deq_pc \<Rightarrow> bool" where
  "consumer_ok g c t D_Load \<longleftrightarrow> True"
| "consumer_ok g c t (D_Seq pos) \<longleftrightarrow> unat pos \<le> co_taken c"
| "consumer_ok g c t (D_Cas pos) \<longleftrightarrow> unat pos \<le> co_taken c
     \<and> (unat pos = co_taken c \<longrightarrow> g (co_taken c mod cells c) = (co_taken c, Published))"
| "consumer_ok g c t (D_Read pos) \<longleftrightarrow> unat pos < co_taken c \<and> g (unat pos mod cells c) = (unat pos, Taken t)"
| "consumer_ok g c t (D_Free pos r) \<longleftrightarrow> unat pos < co_taken c \<and> g (unat pos mod cells c) = (unat pos, Emptied t)
     \<and> r = co_in c ! unat pos \<and> (unat pos, r) \<in> set (co_reads c)"
| "consumer_ok g c t (D_Ret x) \<longleftrightarrow> (\<forall>r. x = Some r \<longrightarrow> r \<in> snd ` set (co_reads c))"
| "consumer_ok g c t D_Undefined \<longleftrightarrow> False"

definition conc_inv :: "(nat \<Rightarrow> nat \<times> stage) \<Rightarrow> conc \<Rightarrow> bool" where
  "conc_inv g c \<longleftrightarrow> ring_geom (co_ring c)
     \<and> rb_enq (co_ring c) = word_of_nat (claims c) \<and> rb_deq (co_ring c) = word_of_nat (co_taken c)
     \<and> co_taken c \<le> claims c \<and> claims c \<le> co_taken c + cells c
     \<and> (\<forall>j < cells c. cell_ok c j (g j))
     \<and> (\<forall>t r pc. co_prod c t = Some (r, pc) \<longrightarrow> producer_ok g c t r pc)
     \<and> (\<forall>t pc. co_cons c t = Some pc \<longrightarrow> consumer_ok g c t pc)
     \<and> distinct (map fst (co_reads c))
     \<and> (\<forall>(p, r) \<in> set (co_reads c). p < co_taken c \<and> r = co_in c ! p)"

definition bounded :: "conc \<Rightarrow> bool" where
  "bounded c \<longleftrightarrow> claims c + cells c \<le> 2 ^ 63"

section \<open>Positions\<close>

lemma unat_pos: "p < 2 ^ 64 \<Longrightarrow> unat (word_of_nat p :: usize) = p"
  by (simp add: unat_word_of_nat_u64)

lemma pos_inject: "p < 2 ^ 64 \<Longrightarrow> q < 2 ^ 64 \<Longrightarrow> (word_of_nat p :: usize) = word_of_nat q \<longleftrightarrow> p = q"
  by (metis unat_pos)

lemma cells_pos: "ring_geom (co_ring c) \<Longrightarrow> 2 \<le> cells c"
  by (rule geom_pos)

lemma next_cell: "2 \<le> n \<Longrightarrow> Suc p mod n \<noteq> p mod n"
proof
  assume n: "2 \<le> n" and "Suc p mod n = p mod n"
  then have "n dvd Suc p - p" by (subst (asm) mod_eq_dvd_iff_nat) simp_all
  then show False using n by simp
qed

lemma cell_at_pos: "ring_geom m \<Longrightarrow> cell_at m pos = rb_buffer m ! (unat pos mod length (rb_buffer m))"
  by (simp add: cell_at_def slot_index_mod)

lemma upd_cell_pos:
  "ring_geom m \<Longrightarrow> rb_buffer (upd_cell f pos m) =
     (rb_buffer m)[unat pos mod length (rb_buffer m) := f (rb_buffer m ! (unat pos mod length (rb_buffer m)))]"
  by (simp add: upd_cell_def slot_index_mod cell_at_pos)

lemma conc_invD:
  assumes "conc_inv g c"
  shows "ring_geom (co_ring c)" "rb_enq (co_ring c) = word_of_nat (claims c)"
    "rb_deq (co_ring c) = word_of_nat (co_taken c)" "co_taken c \<le> claims c"
    "claims c \<le> co_taken c + cells c" "j < cells c \<Longrightarrow> cell_ok c j (g j)"
    "co_prod c t = Some (r, pc) \<Longrightarrow> producer_ok g c t r pc" "co_cons c t = Some pc' \<Longrightarrow> consumer_ok g c t pc'"
    "distinct (map fst (co_reads c))" "(p, x) \<in> set (co_reads c) \<Longrightarrow> p < co_taken c \<and> x = co_in c ! p"
  using assms unfolding conc_inv_def by blast+

text \<open>What the invariant says of the cell a position points to.\<close>

lemma inv_cell:
  assumes "conc_inv g c" and "g (q mod cells c) = (p, s)"
  shows "p mod cells c = q mod cells c" and "in_range c p s" and "owned c p s"
    and "cl_seq (rb_buffer (co_ring c) ! (q mod cells c)) = word_of_nat (p + stamped s)"
    and "cl_slot (rb_buffer (co_ring c) ! (q mod cells c)) = (if filled s then Some (co_in c ! p) else None)"
proof -
  have "2 \<le> cells c" using assms(1) by (intro cells_pos) (simp add: conc_inv_def)
  then have "q mod cells c < cells c" by (intro mod_less_divisor) linarith
  from conc_invD(6) [OF assms(1) this] have "cell_ok c (q mod cells c) (p, s)" by (simp add: assms(2))
  then show "p mod cells c = q mod cells c" "in_range c p s" "owned c p s"
    "cl_seq (rb_buffer (co_ring c) ! (q mod cells c)) = word_of_nat (p + stamped s)"
    "cl_slot (rb_buffer (co_ring c) ! (q mod cells c)) = (if filled s then Some (co_in c ! p) else None)"
    by (simp_all add: cell_ok_def)
qed

lemma range_small: "in_range c p s \<Longrightarrow> bounded c \<Longrightarrow> co_taken c \<le> claims c \<Longrightarrow> p + stamped s < 2 ^ 64"
  by (cases s) (auto simp: bounded_def)

text \<open>A stamp tells the position and the side of the handover of its cell.\<close>

lemma stamp_is:
  assumes "conc_inv g c" and "bounded c" and "g (q mod cells c) = (p, s)"
    and "cl_seq (rb_buffer (co_ring c) ! (q mod cells c)) = word_of_nat (q + b)"
    and "b \<le> 1" and "q + b < 2 ^ 64"
  shows "p = q \<and> stamped s = b"
proof -
  note i = inv_cell [OF assms(1,3)]
  have n: "2 \<le> cells c" using assms(1) by (intro cells_pos) (simp add: conc_inv_def)
  have "p + stamped s < 2 ^ 64"
    using range_small [OF i(2) assms(2)] assms(1) by (simp add: conc_inv_def)
  then have eq: "p + stamped s = q + b" using i(4) assms(4,6) pos_inject by metis
  have s: "stamped s \<le> 1" by (cases s) auto
  consider "p = q" | "p = Suc q" | "q = Suc p" using eq s assms(5) by linarith
  then show ?thesis
  proof cases
    case 1
    then show ?thesis using eq by simp
  next
    case 2
    then show ?thesis using i(1) next_cell [OF n, of q] by simp
  next
    case 3
    then show ?thesis using i(1) next_cell [OF n, of p] by simp
  qed
qed

section \<open>Steps of a thread that owns no cell\<close>

definition prod_free :: "enq_pc \<Rightarrow> bool" where
  "prod_free pc \<longleftrightarrow> (\<forall>pos. pc \<noteq> E_Write pos \<and> pc \<noteq> E_Publish pos)"

definition cons_free :: "deq_pc \<Rightarrow> bool" where
  "cons_free pc \<longleftrightarrow> (\<forall>pos r. pc \<noteq> D_Read pos \<and> pc \<noteq> D_Free pos r)"

lemma producer_ok_irrelevant [simp]:
  "producer_ok g (c\<lparr>co_prod := x\<rparr>) t r pc = producer_ok g c t r pc"
  "producer_ok g (c\<lparr>co_cons := y\<rparr>) t r pc = producer_ok g c t r pc"
  by (cases pc; simp)+

lemma consumer_ok_irrelevant [simp]:
  "consumer_ok g (c\<lparr>co_prod := x\<rparr>) t pc = consumer_ok g c t pc"
  "consumer_ok g (c\<lparr>co_cons := y\<rparr>) t pc = consumer_ok g c t pc"
  by (cases pc; simp)+

lemma in_range_irrelevant [simp]:
  "in_range (c\<lparr>co_prod := x\<rparr>) p s = in_range c p s"
  "in_range (c\<lparr>co_cons := y\<rparr>) p s = in_range c p s"
  by (cases s; simp)+

lemma owned_prod:
  assumes "owned c p s" and "s \<noteq> Writing t" and "s \<noteq> Written t"
  shows "owned (c\<lparr>co_prod := (co_prod c)(t := x)\<rparr>) p s"
  using assms by (cases s) auto

lemma owned_cons:
  assumes "owned c p s" and "s \<noteq> Taken t" and "s \<noteq> Emptied t"
  shows "owned (c\<lparr>co_cons := (co_cons c)(t := x)\<rparr>) p s"
  using assms by (cases s) auto

lemma prod_free_owns_none:
  assumes "owned c p s" and "\<forall>r pc. co_prod c t = Some (r, pc) \<longrightarrow> prod_free pc"
  shows "s \<noteq> Writing t" "s \<noteq> Written t"
  using assms by (auto simp: prod_free_def)

lemma cons_free_owns_none:
  assumes "owned c p s" and "\<forall>pc. co_cons c t = Some pc \<longrightarrow> cons_free pc"
  shows "s \<noteq> Taken t" "s \<noteq> Emptied t"
  using assms by (auto simp: cons_free_def)

lemma inv_prod_pc:
  assumes "conc_inv g c" and "\<forall>r pc. co_prod c t = Some (r, pc) \<longrightarrow> prod_free pc"
    and "\<And>r pc. x = Some (r, pc) \<Longrightarrow> producer_ok g c t r pc"
  shows "conc_inv g (c\<lparr>co_prod := (co_prod c)(t := x)\<rparr>)"
proof -
  have "cell_ok (c\<lparr>co_prod := (co_prod c)(t := x)\<rparr>) j (g j)" if "j < cells c" for j
  proof -
    obtain p s where g: "g j = (p, s)" by fastforce
    have ok: "cell_ok c j (p, s)" using conc_invD(6) [OF assms(1) that] by (simp add: g)
    then have "owned c p s" by (simp add: cell_ok_def)
    with ok show ?thesis
      using owned_prod prod_free_owns_none [OF _ assms(2)] by (simp add: cell_ok_def g)
  qed
  then show ?thesis using assms(1,3) by (auto simp: conc_inv_def)
qed

lemma inv_cons_pc:
  assumes "conc_inv g c" and "\<forall>pc. co_cons c t = Some pc \<longrightarrow> cons_free pc"
    and "\<And>pc. x = Some pc \<Longrightarrow> consumer_ok g c t pc"
  shows "conc_inv g (c\<lparr>co_cons := (co_cons c)(t := x)\<rparr>)"
proof -
  have "cell_ok (c\<lparr>co_cons := (co_cons c)(t := x)\<rparr>) j (g j)" if "j < cells c" for j
  proof -
    obtain p s where g: "g j = (p, s)" by fastforce
    have ok: "cell_ok c j (p, s)" using conc_invD(6) [OF assms(1) that] by (simp add: g)
    then have "owned c p s" by (simp add: cell_ok_def)
    with ok show ?thesis
      using owned_cons cons_free_owns_none [OF _ assms(2)] by (simp add: cell_ok_def g)
  qed
  then show ?thesis using assms(1,3) by (auto simp: conc_inv_def)
qed

section \<open>Steps that change a cell\<close>

text \<open>
  One cell changes its stage.  The other cells are untouched, and the threads that refer to
  them keep their conditions.
\<close>

definition untouched :: "conc \<Rightarrow> conc \<Rightarrow> nat \<Rightarrow> bool" where
  "untouched c c' j \<longleftrightarrow> ring_geom (co_ring c') \<and> cells c' = cells c
     \<and> (\<forall>k < cells c. k \<noteq> j \<longrightarrow> rb_buffer (co_ring c') ! k = rb_buffer (co_ring c) ! k)
     \<and> (\<forall>p < claims c. co_in c' ! p = co_in c ! p)"

lemma filled_claimed: "in_range c p s \<Longrightarrow> co_taken c \<le> claims c \<Longrightarrow> filled s \<Longrightarrow> p < claims c"
  by (cases s) auto

lemma conc_inv_rebuild:
  assumes inv: "conc_inv g c" and un: "untouched c c' j"
    and cnt: "rb_enq (co_ring c') = word_of_nat (claims c')" "rb_deq (co_ring c') = word_of_nat (co_taken c')"
      "co_taken c' \<le> claims c'" "claims c' \<le> co_taken c' + cells c'"
    and rng: "\<And>k p s. k < cells c \<Longrightarrow> k \<noteq> j \<Longrightarrow> p mod cells c = k \<Longrightarrow> in_range c p s \<Longrightarrow> in_range c' p s"
    and own: "\<And>k p s. k < cells c \<Longrightarrow> k \<noteq> j \<Longrightarrow> p mod cells c = k \<Longrightarrow> in_range c p s \<Longrightarrow> owned c p s \<Longrightarrow> owned c' p s"
    and new: "cell_ok c' j y"
    and prods: "\<And>t r pc. co_prod c' t = Some (r, pc) \<Longrightarrow> producer_ok (g(j := y)) c' t r pc"
    and conss: "\<And>t pc. co_cons c' t = Some pc \<Longrightarrow> consumer_ok (g(j := y)) c' t pc"
    and reads: "distinct (map fst (co_reads c'))"
      "\<And>p r. (p, r) \<in> set (co_reads c') \<Longrightarrow> p < co_taken c' \<and> r = co_in c' ! p"
  shows "conc_inv (g(j := y)) c'"
proof -
  note D = conc_invD [OF inv]
  have "cell_ok c' k ((g(j := y)) k)" if k: "k < cells c'" for k
  proof (cases "k = j")
    case True
    then show ?thesis using new by simp
  next
    case False
    have kn: "k < cells c" using k un by (simp add: untouched_def)
    obtain p s where g: "g k = (p, s)" by fastforce
    have ok: "cell_ok c k (p, s)" using D(6) [OF kn] by (simp add: g)
    then have p: "p mod cells c = k" "in_range c p s" "owned c p s" by (simp_all add: cell_ok_def)
    have "filled s \<Longrightarrow> co_in c' ! p = co_in c ! p"
      using un filled_claimed [OF p(2) D(4)] by (simp add: untouched_def)
    then show ?thesis
      using ok un False kn rng [OF kn False p(1,2)] own [OF kn False p]
      by (simp add: cell_ok_def g untouched_def)
  qed
  then show ?thesis using un cnt prods conss reads unfolding conc_inv_def untouched_def by blast
qed

lemma prod_transfer:
  assumes "producer_ok g c t r pc" and "g j = (p, s)" and "s \<noteq> Vacant" "s \<noteq> Writing t" "s \<noteq> Written t"
    and "claims c' = claims c" "cells c' = cells c"
  shows "producer_ok (g(j := y)) c' t r pc"
  using assms by (cases pc) auto

lemma cons_transfer:
  assumes "consumer_ok g c t pc" and "g j = (p, s)" and "s \<noteq> Published" "s \<noteq> Taken t" "s \<noteq> Emptied t"
    and "co_taken c' = co_taken c" "cells c' = cells c" "set (co_reads c) \<subseteq> set (co_reads c')"
    and "\<forall>p < claims c. co_in c' ! p = co_in c ! p" and "co_taken c \<le> claims c"
  shows "consumer_ok (g(j := y)) c' t pc"
  using assms by (cases pc) (auto, metis image_eqI snd_conv subsetD)

lemma owned_others:
  assumes "owned c p s" and "p mod cells c \<noteq> j" and "in_range c p s" and "co_taken c \<le> claims c"
    and "\<And>t'. t' \<noteq> t \<Longrightarrow> co_prod c' t' = co_prod c t'" and "\<And>t'. t' \<noteq> u \<Longrightarrow> co_cons c' t' = co_cons c t'"
    and "s \<noteq> Writing t" "s \<noteq> Written t" "s \<noteq> Taken u" "s \<noteq> Emptied u"
    and "fst ` set (co_reads c') \<subseteq> insert q (fst ` set (co_reads c))" and "q mod cells c = j"
    and "\<forall>p < claims c. co_in c' ! p = co_in c ! p"
  shows "owned c' p s"
  using assms by (cases s) auto

lemma slot_of:
  assumes "conc_inv g c" and "bounded c" and "q \<le> claims c + cells c"
  shows "unat (word_of_nat q :: usize) = q" and "q mod cells c < cells c"
    and "cell_at (co_ring c) (word_of_nat q) = rb_buffer (co_ring c) ! (q mod cells c)"
proof -
  have "q < 2 ^ 64" using assms(2,3) by (simp add: bounded_def)
  then show u: "unat (word_of_nat q :: usize) = q" by (rule unat_pos)
  have geom: "ring_geom (co_ring c)" by (rule conc_invD(1) [OF assms(1)])
  then show "q mod cells c < cells c" using cells_pos by (intro mod_less_divisor) force
  show "cell_at (co_ring c) (word_of_nat q) = rb_buffer (co_ring c) ! (q mod cells c)"
    by (simp only: cell_at_pos [OF geom] u)
qed

text \<open>A producer claims the position \<open>claims c\<close>.\<close>

lemma inv_claim_enqueue:
  assumes inv: "conc_inv g c" and bd: "bounded c" and t: "co_prod c t = Some (r, E_Cas pos)"
    and eq: "rb_enq (co_ring c) = pos"
  shows "\<exists>g'. conc_inv g' (c\<lparr>co_ring := (co_ring c)\<lparr>rb_enq := pos + 1\<rparr>,
      co_prod := (co_prod c)(t \<mapsto> (r, E_Write pos)), co_in := co_in c @ [r]\<rparr>)"
proof -
  note D = conc_invD [OF inv]
  let ?E = "claims c" and ?n = "cells c"
  let ?j = "?E mod ?n"
  have pos: "pos = word_of_nat ?E" using D(2) eq by simp
  note sl = slot_of [OF inv bd, of ?E]
  have u: "unat pos = ?E" using sl(1) by (simp add: pos)
  have g: "g ?j = (?E, Vacant)" using D(7) [OF t] u by simp
  note ic = inv_cell [OF inv g]
  let ?c = "c\<lparr>co_ring := (co_ring c)\<lparr>rb_enq := pos + 1\<rparr>,
      co_prod := (co_prod c)(t \<mapsto> (r, E_Write pos)), co_in := co_in c @ [r]\<rparr>"
  have "conc_inv (g(?j := (?E, Writing t))) ?c"
  proof (rule conc_inv_rebuild [OF inv])
    show "untouched c ?c ?j" using D(1) by (simp add: untouched_def nth_append)
    show "rb_enq (co_ring ?c) = word_of_nat (claims ?c)" by (simp add: pos)
    show "rb_deq (co_ring ?c) = word_of_nat (co_taken ?c)" "co_taken ?c \<le> claims ?c" using D(3,4) by simp_all
    show "claims ?c \<le> co_taken ?c + cells ?c" using ic(2) by simp
    show "cell_ok ?c ?j (?E, Writing t)" using ic D(4) by (simp add: cell_ok_def pos)
    show "in_range ?c p s" if "k \<noteq> ?j" "p mod ?n = k" "in_range c p s" for k p s
    proof -
      have "p \<noteq> ?E" "p + ?n \<noteq> ?E" using that(1,2) mod_add_self2 by metis+
      then show ?thesis using that(3) by (cases s) auto
    qed
    show "owned ?c p s" if "k \<noteq> ?j" "p mod ?n = k" "in_range c p s" "owned c p s" for k p s
    proof -
      have "s \<noteq> Writing t" "s \<noteq> Written t" using that(4) t by auto
      then show ?thesis
        using that(3,4) D(4) filled_claimed by (cases s) (auto simp: nth_append)
    qed
    show "producer_ok (g(?j := (?E, Writing t))) ?c t' r' pc"
      if "co_prod ?c t' = Some (r', pc)" for t' r' pc
    proof (cases "t' = t")
      case True
      then show ?thesis using that u by auto
    next
      case False
      then have "producer_ok g c t' r' pc" using that D(7) by simp
      then show ?thesis using g by (cases pc) auto
    qed
    show "consumer_ok (g(?j := (?E, Writing t))) ?c t' pc" if "co_cons ?c t' = Some pc" for t' pc
      using D(8) [of t' pc] that g D(4) by (cases pc) (auto simp: nth_append)
    show "distinct (map fst (co_reads ?c))" using D(9) by simp
    show "p < co_taken ?c \<and> x = co_in ?c ! p" if "(p, x) \<in> set (co_reads ?c)" for p x
      using D(10) [of p x] D(4) that by (auto simp: nth_append)
  qed
  then show ?thesis by blast
qed

text \<open>The owner of a position writes the payload, then publishes it.\<close>

lemma inv_write:
  assumes inv: "conc_inv g c" and bd: "bounded c" and t: "co_prod c t = Some (r, E_Write pos)"
  shows "\<exists>g'. conc_inv g' (c\<lparr>co_ring := upd_cell (\<lambda>c. c\<lparr>cl_slot := Some r\<rparr>) pos (co_ring c),
      co_prod := (co_prod c)(t \<mapsto> (r, E_Publish pos))\<rparr>)"
proof -
  note D = conc_invD [OF inv]
  let ?p = "unat pos" and ?n = "cells c"
  let ?j = "?p mod ?n"
  have g: "g ?j = (?p, Writing t)" "?p < claims c" using D(7) [OF t] by simp_all
  note ic = inv_cell [OF inv g(1)]
  have j: "?j < ?n" using slot_of(2) [OF inv bd, of ?p] g(2) by simp
  have r: "r = co_in c ! ?p" using ic(3) t by simp
  let ?c = "c\<lparr>co_ring := upd_cell (\<lambda>c. c\<lparr>cl_slot := Some r\<rparr>) pos (co_ring c),
      co_prod := (co_prod c)(t \<mapsto> (r, E_Publish pos))\<rparr>"
  have buf: "rb_buffer (co_ring ?c) = (rb_buffer (co_ring c))[?j := (rb_buffer (co_ring c) ! ?j)\<lparr>cl_slot := Some r\<rparr>]"
    using upd_cell_pos [OF D(1)] by simp
  have "conc_inv (g(?j := (?p, Written t))) ?c"
  proof (rule conc_inv_rebuild [OF inv])
    show "untouched c ?c ?j" using D(1) buf by (simp add: untouched_def)
    show "cell_ok ?c ?j (?p, Written t)" using ic j buf r by (simp add: cell_ok_def)
    show "in_range ?c p s" if "in_range c p s" for p s using that by (cases s) auto
    show "owned ?c p s" if "k \<noteq> ?j" "p mod ?n = k" "in_range c p s" "owned c p s" for k p s
    proof -
      have "p < 2 ^ 64" using range_small [OF that(3) bd D(4)] by simp
      then have "pos \<noteq> word_of_nat p" using that(1,2) unat_pos by auto
      then have "s \<noteq> Writing t" "s \<noteq> Written t" using that(4) t by auto
      then show ?thesis using that(4) by (cases s) auto
    qed
    show "producer_ok (g(?j := (?p, Written t))) ?c t' r' pc" if "co_prod ?c t' = Some (r', pc)" for t' r' pc
    proof (cases "t' = t")
      case True
      then show ?thesis using that g by auto
    next
      case False
      have "producer_ok g c t' r' pc" using that False D(7) by simp
      from prod_transfer [OF this g(1), where c' = ?c] False show ?thesis by simp
    qed
    show "consumer_ok (g(?j := (?p, Written t))) ?c t' pc" if "co_cons ?c t' = Some pc" for t' pc
      by (rule cons_transfer [OF D(8) g(1)]) (use that D(4) in simp_all)
  qed (use D in auto)
  then show ?thesis by blast
qed

lemma inv_publish:
  assumes inv: "conc_inv g c" and bd: "bounded c" and t: "co_prod c t = Some (r, E_Publish pos)"
  shows "\<exists>g'. conc_inv g' (c\<lparr>co_ring := upd_cell (\<lambda>c. c\<lparr>cl_seq := pos + 1\<rparr>) pos (co_ring c),
      co_prod := (co_prod c)(t \<mapsto> (r, E_Ret (Inr ())))\<rparr>)"
proof -
  note D = conc_invD [OF inv]
  let ?p = "unat pos" and ?n = "cells c"
  let ?j = "?p mod ?n"
  have g: "g ?j = (?p, Written t)" "?p < claims c" using D(7) [OF t] by simp_all
  note ic = inv_cell [OF inv g(1)]
  have j: "?j < ?n" using slot_of(2) [OF inv bd, of ?p] g(2) by simp
  let ?c = "c\<lparr>co_ring := upd_cell (\<lambda>c. c\<lparr>cl_seq := pos + 1\<rparr>) pos (co_ring c),
      co_prod := (co_prod c)(t \<mapsto> (r, E_Ret (Inr ())))\<rparr>"
  have buf: "rb_buffer (co_ring ?c) = (rb_buffer (co_ring c))[?j := (rb_buffer (co_ring c) ! ?j)\<lparr>cl_seq := pos + 1\<rparr>]"
    using upd_cell_pos [OF D(1)] by simp
  have "conc_inv (g(?j := (?p, Published))) ?c"
  proof (rule conc_inv_rebuild [OF inv])
    show "untouched c ?c ?j" using D(1) buf by (simp add: untouched_def)
    show "cell_ok ?c ?j (?p, Published)" using ic j buf by (simp add: cell_ok_def add.commute)
    show "in_range ?c p s" if "in_range c p s" for p s using that by (cases s) auto
    show "owned ?c p s" if "k \<noteq> ?j" "p mod ?n = k" "in_range c p s" "owned c p s" for k p s
    proof -
      have "p < 2 ^ 64" using range_small [OF that(3) bd D(4)] by simp
      then have "pos \<noteq> word_of_nat p" using that(1,2) unat_pos by auto
      then have "s \<noteq> Writing t" "s \<noteq> Written t" using that(4) t by auto
      then show ?thesis using that(4) by (cases s) auto
    qed
    show "producer_ok (g(?j := (?p, Published))) ?c t' r' pc" if "co_prod ?c t' = Some (r', pc)" for t' r' pc
    proof (cases "t' = t")
      case True
      then show ?thesis using that by auto
    next
      case False
      have "producer_ok g c t' r' pc" using that False D(7) by simp
      from prod_transfer [OF this g(1), where c' = ?c] False show ?thesis by simp
    qed
    show "consumer_ok (g(?j := (?p, Published))) ?c t' pc" if "co_cons ?c t' = Some pc" for t' pc
      by (rule cons_transfer [OF D(8) g(1)]) (use that D(4) in simp_all)
  qed (use D in auto)
  then show ?thesis by blast
qed

text \<open>A consumer claims the position \<open>co_taken c\<close>, reads the payload and frees the cell.\<close>

lemma inv_claim_dequeue:
  assumes inv: "conc_inv g c" and bd: "bounded c" and t: "co_cons c t = Some (D_Cas pos)"
    and eq: "rb_deq (co_ring c) = pos"
  shows "\<exists>g'. conc_inv g' (c\<lparr>co_ring := (co_ring c)\<lparr>rb_deq := pos + 1\<rparr>,
      co_cons := (co_cons c)(t \<mapsto> D_Read pos), co_taken := Suc (co_taken c)\<rparr>)"
proof -
  note D = conc_invD [OF inv]
  let ?D = "co_taken c" and ?n = "cells c"
  let ?j = "?D mod ?n"
  have pos: "pos = word_of_nat ?D" using D(3) eq by simp
  note sl = slot_of [OF inv bd, of ?D]
  have u: "unat pos = ?D" using sl(1) D(4) by (simp add: pos)
  have g: "g ?j = (?D, Published)" using D(8) [OF t] u by simp
  note ic = inv_cell [OF inv g]
  let ?c = "c\<lparr>co_ring := (co_ring c)\<lparr>rb_deq := pos + 1\<rparr>,
      co_cons := (co_cons c)(t \<mapsto> D_Read pos), co_taken := Suc (co_taken c)\<rparr>"
  have unread: "?D \<notin> fst ` set (co_reads c)" using D(10) by force
  have "conc_inv (g(?j := (?D, Taken t))) ?c"
  proof (rule conc_inv_rebuild [OF inv])
    show "untouched c ?c ?j" using D(1) by (simp add: untouched_def)
    show "rb_deq (co_ring ?c) = word_of_nat (co_taken ?c)" by (simp add: pos)
    show "co_taken ?c \<le> claims ?c" using ic(2) by simp
    show "cell_ok ?c ?j (?D, Taken t)" using ic D(5) unread by (simp add: cell_ok_def pos)
    show "in_range ?c p s" if "k \<noteq> ?j" "p mod ?n = k" "in_range c p s" for k p s
    proof -
      have "p \<noteq> ?D" using that(1,2) by auto
      then show ?thesis using that(3) by (cases s) auto
    qed
    show "owned ?c p s" if "owned c p s" for p s
    proof -
      have "s \<noteq> Taken t" "s \<noteq> Emptied t" using that t by auto
      then show ?thesis using that by (cases s) auto
    qed
    show "producer_ok (g(?j := (?D, Taken t))) ?c t' r pc" if "co_prod ?c t' = Some (r, pc)" for t' r pc
    proof -
      have "producer_ok g c t' r pc" using that D(7) by simp
      from prod_transfer [OF this g, where c' = ?c] show ?thesis by simp
    qed
    show "consumer_ok (g(?j := (?D, Taken t))) ?c t' pc" if "co_cons ?c t' = Some pc" for t' pc
    proof (cases "t' = t")
      case True
      then show ?thesis using that u by auto
    next
      case False
      then have "consumer_ok g c t' pc" using that D(8) by simp
      then show ?thesis using g by (cases pc) auto
    qed
    show "p < co_taken ?c \<and> x = co_in ?c ! p" if "(p, x) \<in> set (co_reads ?c)" for p x
      using D(10) [of p x] that by auto
  qed (use D in auto)
  then show ?thesis by blast
qed

lemma inv_read:
  assumes inv: "conc_inv g c" and bd: "bounded c" and t: "co_cons c t = Some (D_Read pos)"
  shows "cl_slot (cell_at (co_ring c) pos) = Some (co_in c ! unat pos)"
    and "\<exists>g'. conc_inv g' (c\<lparr>co_ring := upd_cell (\<lambda>c. c\<lparr>cl_slot := None\<rparr>) pos (co_ring c),
      co_cons := (co_cons c)(t \<mapsto> D_Free pos (co_in c ! unat pos)),
      co_reads := co_reads c @ [(unat pos, co_in c ! unat pos)]\<rparr>)"
proof -
  note D = conc_invD [OF inv]
  let ?p = "unat pos" and ?n = "cells c"
  let ?j = "?p mod ?n" and ?r = "co_in c ! unat pos"
  have g: "g ?j = (?p, Taken t)" "?p < co_taken c" using D(8) [OF t] by simp_all
  note ic = inv_cell [OF inv g(1)]
  have j: "?j < ?n" using slot_of(2) [OF inv bd, of ?p] g(2) D(4) by simp
  show "cl_slot (cell_at (co_ring c) pos) = Some ?r" using ic(5) cell_at_pos [OF D(1)] by simp
  let ?c = "c\<lparr>co_ring := upd_cell (\<lambda>c. c\<lparr>cl_slot := None\<rparr>) pos (co_ring c),
      co_cons := (co_cons c)(t \<mapsto> D_Free pos ?r), co_reads := co_reads c @ [(?p, ?r)]\<rparr>"
  have buf: "rb_buffer (co_ring ?c) = (rb_buffer (co_ring c))[?j := (rb_buffer (co_ring c) ! ?j)\<lparr>cl_slot := None\<rparr>]"
    using upd_cell_pos [OF D(1)] by simp
  have "conc_inv (g(?j := (?p, Emptied t))) ?c"
  proof (rule conc_inv_rebuild [OF inv])
    show "untouched c ?c ?j" using D(1) buf by (simp add: untouched_def)
    show "cell_ok ?c ?j (?p, Emptied t)" using ic j buf by (simp add: cell_ok_def)
    show "in_range ?c p s" if "in_range c p s" for p s using that by (cases s) auto
    show "owned ?c p s" if "k \<noteq> ?j" "p mod ?n = k" "in_range c p s" "owned c p s" for k p s
    proof -
      have "p < 2 ^ 64" using range_small [OF that(3) bd D(4)] by simp
      then have "pos \<noteq> word_of_nat p" using that(1,2) unat_pos by auto
      then have "s \<noteq> Taken t" "s \<noteq> Emptied t" using that(4) t by auto
      then show ?thesis using that by (cases s) auto
    qed
    show "producer_ok (g(?j := (?p, Emptied t))) ?c t' r pc" if "co_prod ?c t' = Some (r, pc)" for t' r pc
    proof -
      have "producer_ok g c t' r pc" using that D(7) by simp
      from prod_transfer [OF this g(1), where c' = ?c] show ?thesis by simp
    qed
    show "consumer_ok (g(?j := (?p, Emptied t))) ?c t' pc" if "co_cons ?c t' = Some pc" for t' pc
    proof (cases "t' = t")
      case True
      then show ?thesis using that g by auto
    next
      case False
      then have ok: "consumer_ok g c t' pc" using that D(8) by simp
      have D4: "co_taken c \<le> claims c" by (rule D(4))
      from cons_transfer [OF ok g(1), where c' = ?c] False D4 show ?thesis by auto
    qed
    show "distinct (map fst (co_reads ?c))" using D(9) ic(3) by simp
    show "p < co_taken ?c \<and> x = co_in ?c ! p" if "(p, x) \<in> set (co_reads ?c)" for p x
      using D(10) [of p x] that g(2) by auto
  qed (use D in auto)
  then show "\<exists>g'. conc_inv g' ?c" by blast
qed

lemma inv_free:
  assumes inv: "conc_inv g c" and bd: "bounded c" and t: "co_cons c t = Some (D_Free pos r)"
  shows "\<exists>g'. conc_inv g' (c\<lparr>co_ring := upd_cell (\<lambda>c'. c'\<lparr>cl_seq := pos + rb_mask (co_ring c) + 1\<rparr>) pos (co_ring c),
      co_cons := (co_cons c)(t \<mapsto> D_Ret (Some r))\<rparr>)"
proof -
  note D = conc_invD [OF inv]
  let ?p = "unat pos" and ?n = "cells c"
  let ?j = "?p mod ?n"
  have g: "g ?j = (?p, Emptied t)" "?p < co_taken c" "r = co_in c ! ?p" using D(8) [OF t] by simp_all
  note ic = inv_cell [OF inv g(1)]
  have j: "?j < ?n" using slot_of(2) [OF inv bd, of ?p] g(2) D(4) by simp
  let ?s = "pos + rb_mask (co_ring c) + 1"
  have s: "?s = word_of_nat (?p + ?n)" using geom_mask [OF D(1)] by (simp add: add.assoc)
  let ?c = "c\<lparr>co_ring := upd_cell (\<lambda>c'. c'\<lparr>cl_seq := ?s\<rparr>) pos (co_ring c),
      co_cons := (co_cons c)(t \<mapsto> D_Ret (Some r))\<rparr>"
  have buf: "rb_buffer (co_ring ?c) = (rb_buffer (co_ring c))[?j := (rb_buffer (co_ring c) ! ?j)\<lparr>cl_seq := ?s\<rparr>]"
    using upd_cell_pos [OF D(1)] by simp
  have read: "r \<in> snd ` set (co_reads c)" using D(8) [OF t] by force
  have "conc_inv (g(?j := (?p + ?n, Vacant))) ?c"
  proof (rule conc_inv_rebuild [OF inv])
    show "untouched c ?c ?j" using D(1) buf by (simp add: untouched_def)
    show "cell_ok ?c ?j (?p + ?n, Vacant)"
      using ic j g(2) buf [unfolded s] by (simp add: cell_ok_def s)
    show "in_range ?c p s" if "in_range c p s" for p s using that by (cases s) auto
    show "owned ?c p s" if "k \<noteq> ?j" "p mod ?n = k" "in_range c p s" "owned c p s" for k p s
    proof -
      have "p < 2 ^ 64" using range_small [OF that(3) bd D(4)] by simp
      then have "pos \<noteq> word_of_nat p" using that(1,2) unat_pos by auto
      then have "s \<noteq> Taken t" "s \<noteq> Emptied t" using that(4) t by auto
      then show ?thesis using that by (cases s) auto
    qed
    show "producer_ok (g(?j := (?p + ?n, Vacant))) ?c t' r' pc" if "co_prod ?c t' = Some (r', pc)" for t' r' pc
    proof -
      have "producer_ok g c t' r' pc" using that D(7) by simp
      from prod_transfer [OF this g(1), where c' = ?c] show ?thesis by simp
    qed
    show "consumer_ok (g(?j := (?p + ?n, Vacant))) ?c t' pc" if "co_cons ?c t' = Some pc" for t' pc
    proof (cases "t' = t")
      case True
      then have "pc = D_Ret (Some r)" using that by simp
      then show ?thesis using read by simp
    next
      case False
      then have ok: "consumer_ok g c t' pc" using that D(8) by simp
      have D4: "co_taken c \<le> claims c" by (rule D(4))
      from cons_transfer [OF ok g(1), where c' = ?c] False D4 show ?thesis by auto
    qed
  qed (use D in auto)
  then show ?thesis by blast
qed

section \<open>Every step\<close>

lemma prod_pc_moves:
  assumes "conc_inv g c" and "co_prod c t = Some (r, pc)" and "prod_free pc"
    and "enq_step weak r (co_ring c) pc = (co_ring c, pc')" and "\<not> claimed pc pc'"
    and "producer_ok g c t r pc'"
  shows "\<exists>g'. conc_inv g' (enq_moves t r pc weak c)"
proof -
  have "conc_inv g (c\<lparr>co_prod := (co_prod c)(t := Some (r, pc'))\<rparr>)"
    using assms(2,3,6) by (intro inv_prod_pc [OF assms(1)]) auto
  then show ?thesis using assms(4,5) by (auto simp: enq_moves_def)
qed

lemma cons_pc_moves:
  assumes "conc_inv g c" and "co_cons c t = Some pc" and "cons_free pc"
    and "deq_step weak (co_ring c) pc = (co_ring c, pc')" and "\<not> taken pc pc'" and "read_at pc pc' = []"
    and "consumer_ok g c t pc'"
  shows "\<exists>g'. conc_inv g' (deq_moves t pc weak c)"
proof -
  have "conc_inv g (c\<lparr>co_cons := (co_cons c)(t := Some pc')\<rparr>)"
    using assms(2,3,7) by (intro inv_cons_pc [OF assms(1)]) auto
  then show ?thesis using assms(4,5,6) by (auto simp: deq_moves_def)
qed

text \<open>A stamp that equals the front position announces a vacant cell, one that is one
  ahead of the back position a published one.\<close>

lemma vacant_at_front:
  assumes inv: "conc_inv g c" and bd: "bounded c"
    and "cl_seq (cell_at (co_ring c) pos) = pos" and "unat pos = claims c"
  shows "g (claims c mod cells c) = (claims c, Vacant)"
proof -
  note D = conc_invD [OF inv]
  have pos: "pos = word_of_nat (claims c)"
    using assms(4) slot_of(1) [OF inv bd, of "claims c"] by (simp add: word_unat_eq_iff)
  obtain p s where g: "g (claims c mod cells c) = (p, s)" by fastforce
  have "p = claims c \<and> stamped s = 0"
    using stamp_is [OF inv bd g, of 0] assms(3) slot_of(3) [OF inv bd, of "claims c"] bd
    by (simp add: pos bounded_def)
  moreover have "in_range c p s" by (rule inv_cell(2) [OF inv g])
  ultimately show ?thesis using g by (cases s) auto
qed

lemma published_at_back:
  assumes inv: "conc_inv g c" and bd: "bounded c"
    and "cl_seq (cell_at (co_ring c) pos) = pos + 1" and "unat pos = co_taken c"
  shows "g (co_taken c mod cells c) = (co_taken c, Published)"
proof -
  note D = conc_invD [OF inv]
  have pos: "pos = word_of_nat (co_taken c)"
    using assms(4) slot_of(1) [OF inv bd, of "co_taken c"] D(4) by (simp add: word_unat_eq_iff)
  obtain p s where g: "g (co_taken c mod cells c) = (p, s)" by fastforce
  have "p = co_taken c \<and> stamped s = 1"
    using stamp_is [OF inv bd g, of 1] assms(3) slot_of(3) [OF inv bd, of "co_taken c"] bd D(4)
    by (simp add: pos bounded_def add.commute)
  moreover have "in_range c p s" by (rule inv_cell(2) [OF inv g])
  ultimately show ?thesis using g by (cases s) auto
qed

lemma inv_enq_moves:
  assumes inv: "conc_inv g c" and bd: "bounded c" and t: "co_prod c t = Some (r, pc)"
  shows "\<exists>g'. conc_inv g' (enq_moves t r pc weak c)"
proof -
  note D = conc_invD [OF inv]
  have ok: "producer_ok g c t r pc" by (rule D(7) [OF t])
  have front: "unat (rb_enq (co_ring c)) \<le> claims c" using slot_of(1) [OF inv bd, of "claims c"] D(2) by simp
  show ?thesis
  proof (cases pc)
    case E_Load
    then show ?thesis by (intro prod_pc_moves [OF inv t, where pc' = "E_Seq (rb_enq (co_ring c))"]) (simp_all add: prod_free_def front)
  next
    case (E_Seq pos)
    let ?s = "cl_seq (cell_at (co_ring c) pos)"
    have "producer_ok g c t r (snd (enq_step weak r (co_ring c) pc))"
      using ok vacant_at_front [OF inv bd, of pos] by (simp add: E_Seq Let_def)
    then show ?thesis
      by (intro prod_pc_moves [OF inv t, where pc' = "snd (enq_step weak r (co_ring c) pc)"])
        (simp_all add: prod_free_def E_Seq Let_def)
  next
    case (E_Cas pos)
    show ?thesis
    proof (cases "rb_enq (co_ring c) = pos \<and> \<not> weak")
      case True
      then show ?thesis using inv_claim_enqueue [OF inv bd] t by (simp add: enq_moves_def E_Cas)
    next
      case False
      then show ?thesis
        by (intro prod_pc_moves [OF inv t, where pc' = "E_Seq (rb_enq (co_ring c))"])
          (simp_all add: prod_free_def E_Cas front)
    qed
  next
    case (E_Write pos)
    then show ?thesis using inv_write [OF inv bd] t by (simp add: enq_moves_def)
  next
    case (E_Publish pos)
    then show ?thesis using inv_publish [OF inv bd] t by (simp add: enq_moves_def)
  next
    case (E_Ret x)
    then show ?thesis using ok by (intro prod_pc_moves [OF inv t, where pc' = pc]) (simp_all add: prod_free_def)
  qed
qed

lemma inv_deq_moves:
  assumes inv: "conc_inv g c" and bd: "bounded c" and t: "co_cons c t = Some pc"
  shows "\<exists>g'. conc_inv g' (deq_moves t pc weak c)"
proof -
  note D = conc_invD [OF inv]
  have ok: "consumer_ok g c t pc" by (rule D(8) [OF t])
  have rear: "unat (rb_deq (co_ring c)) \<le> co_taken c"
    using slot_of(1) [OF inv bd, of "co_taken c"] D(3,4) by simp
  show ?thesis
  proof (cases pc)
    case D_Load
    then show ?thesis by (intro cons_pc_moves [OF inv t, where pc' = "D_Seq (rb_deq (co_ring c))"]) (simp_all add: cons_free_def rear)
  next
    case (D_Seq pos)
    have "consumer_ok g c t (snd (deq_step weak (co_ring c) pc))"
      using ok published_at_back [OF inv bd, of pos] by (simp add: D_Seq Let_def)
    then show ?thesis
      by (intro cons_pc_moves [OF inv t, where pc' = "snd (deq_step weak (co_ring c) pc)"])
        (simp_all add: cons_free_def D_Seq Let_def)
  next
    case (D_Cas pos)
    show ?thesis
    proof (cases "rb_deq (co_ring c) = pos \<and> \<not> weak")
      case True
      then show ?thesis using inv_claim_dequeue [OF inv bd] t by (simp add: deq_moves_def D_Cas)
    next
      case False
      then show ?thesis
        by (intro cons_pc_moves [OF inv t, where pc' = "D_Seq (rb_deq (co_ring c))"])
          (simp_all add: cons_free_def D_Cas rear)
    qed
  next
    case (D_Read pos)
    then show ?thesis using inv_read [OF inv bd] t by (simp add: deq_moves_def)
  next
    case (D_Free pos r)
    then show ?thesis using inv_free [OF inv bd] t by (simp add: deq_moves_def)
  next
    case (D_Ret x)
    then show ?thesis using ok by (intro cons_pc_moves [OF inv t, where pc' = pc]) (simp_all add: cons_free_def)
  next
    case D_Undefined
    then show ?thesis using ok by simp
  qed
qed

lemma conc_step_keeps:
  assumes "conc_inv g c" and "bounded c" and "conc_step c c'"
  shows "\<exists>g'. conc_inv g' c'"
  using assms(3)
proof (cases rule: conc_step.cases)
  case (call_enqueue t r)
  have "conc_inv g (c\<lparr>co_prod := (co_prod c)(t := Some (r, E_Load))\<rparr>)"
    using call_enqueue by (intro inv_prod_pc [OF assms(1)]) auto
  then show ?thesis using call_enqueue by auto
next
  case (move_producer t r pc weak)
  then show ?thesis using inv_enq_moves [OF assms(1,2)] by simp
next
  case (return_enqueue t r x)
  have "conc_inv g (c\<lparr>co_prod := (co_prod c)(t := None)\<rparr>)"
    using return_enqueue by (intro inv_prod_pc [OF assms(1)]) (auto simp: prod_free_def)
  then show ?thesis using return_enqueue by auto
next
  case (call_dequeue t)
  have "conc_inv g (c\<lparr>co_cons := (co_cons c)(t := Some D_Load)\<rparr>)"
    using call_dequeue by (intro inv_cons_pc [OF assms(1)]) auto
  then show ?thesis using call_dequeue by auto
next
  case (move_consumer t pc weak)
  then show ?thesis using inv_deq_moves [OF assms(1,2)] by simp
next
  case (return_dequeue t x)
  have "conc_inv g (c\<lparr>co_cons := (co_cons c)(t := None)\<rparr>)"
    using return_dequeue by (intro inv_cons_pc [OF assms(1)]) (auto simp: cons_free_def)
  then show ?thesis using return_dequeue by auto
qed

end
