(* ===== verification/Ring_Shared.thy ===== *)
theory Ring_Shared
  imports Ring_Conc "HOL-Library.Multiset"
begin

text \<open>
  What the invariant of \<open>Ring_Conc\<close> gives for every reachable state of a ring shared by any
  number of producers and consumers: first-in first-out handover without loss or
  duplication, exclusive access to the payload of a slot, the meaning of a full and of an
  empty answer, and the progress of a producer that no other thread interferes with.
\<close>

section \<open>Reachable states\<close>

lemma conc_start_inv:
  assumes "2 \<le> capacity" and "capacity \<le> 2 ^ 62"
  shows "conc_inv (\<lambda>j. (j, Vacant)) (conc_start capacity)"
proof -
  note geom = ring_new_geom(1) [OF assms]
  have "cell_ok (conc_start capacity) j (j, Vacant)" if "j < cells (conc_start capacity)" for j
    using that by (simp add: cell_ok_def conc_start_def ring_new_def Let_def)
  then show ?thesis
    using geom by (simp add: conc_inv_def conc_start_def) (simp add: ring_new_def Let_def)
qed

lemma enq_step_cells: "length (rb_buffer (fst (enq_step weak r m pc))) = length (rb_buffer m)"
  by (cases pc) (auto simp: Let_def upd_cell_def)

lemma deq_step_cells: "length (rb_buffer (fst (deq_step weak m pc))) = length (rb_buffer m)"
  by (cases pc) (auto simp: Let_def upd_cell_def split: option.split)

lemma conc_step_grows:
  assumes "conc_step c c'"
  shows "claims c \<le> claims c' \<and> cells c' = cells c"
  using assms
proof (cases rule: conc_step.cases)
  case (move_producer t r pc weak)
  then show ?thesis
    using enq_step_cells [of weak r "co_ring c" pc] by (auto simp: enq_moves_def split: prod.split)
next
  case (move_consumer t pc weak)
  then show ?thesis
    using deq_step_cells [of weak "co_ring c" pc] by (auto simp: deq_moves_def split: prod.split)
qed simp_all

lemma bounded_before: "conc_step c c' \<Longrightarrow> bounded c' \<Longrightarrow> bounded c"
  using conc_step_grows [of c c'] by (simp add: bounded_def)

text \<open>Every position that consumers have claimed was read, or its consumer is about to.\<close>

definition all_read :: "conc \<Rightarrow> bool" where
  "all_read c \<longleftrightarrow> (\<forall>p < co_taken c. p \<in> fst ` set (co_reads c)
     \<or> (\<exists>t. co_cons c t = Some (D_Read (word_of_nat p))))"

definition not_reading :: "deq_pc option \<Rightarrow> bool" where
  "not_reading x \<longleftrightarrow> (\<forall>pos. x \<noteq> Some (D_Read pos))"

lemma all_read_other:
  assumes "all_read c" and "not_reading (co_cons c t)"
    and "co_taken c' = co_taken c" and "set (co_reads c) \<subseteq> set (co_reads c')"
    and "\<And>u. u \<noteq> t \<Longrightarrow> co_cons c' u = co_cons c u"
  shows "all_read c'"
  unfolding all_read_def
proof (intro allI impI)
  fix p
  assume "p < co_taken c'"
  with assms(1,3) consider "p \<in> fst ` set (co_reads c)" | u where "co_cons c u = Some (D_Read (word_of_nat p))"
    unfolding all_read_def by metis
  then show "p \<in> fst ` set (co_reads c') \<or> (\<exists>t. co_cons c' t = Some (D_Read (word_of_nat p)))"
  proof cases
    case 1
    then show ?thesis using assms(4) by auto
  next
    case 2
    then have "u \<noteq> t" using assms(2) by (auto simp: not_reading_def)
    then have "co_cons c' u = Some (D_Read (word_of_nat p))" using 2 assms(5) by simp
    then show ?thesis by blast
  qed
qed

lemma all_read_deq_moves:
  assumes inv: "conc_inv g c" and bd: "bounded c" and ar: "all_read c" and t: "co_cons c t = Some pc"
  shows "all_read (deq_moves t pc weak c)"
proof (cases pc)
  case (D_Cas pos)
  show ?thesis
  proof (cases "rb_deq (co_ring c) = pos \<and> \<not> weak")
    case True
    have pos: "pos = word_of_nat (co_taken c)" using conc_invD(3) [OF inv] True by simp
    let ?c = "deq_moves t pc weak c"
    have new: "co_taken ?c = Suc (co_taken c)" "co_reads ?c = co_reads c"
      "co_cons ?c = (co_cons c)(t \<mapsto> D_Read pos)"
      using True by (simp_all add: deq_moves_def D_Cas)
    show ?thesis
      unfolding all_read_def
    proof (intro allI impI)
      fix p
      assume "p < co_taken ?c"
      then consider "p = co_taken c" | "p < co_taken c" using new(1) by linarith
      then show "p \<in> fst ` set (co_reads ?c) \<or> (\<exists>u. co_cons ?c u = Some (D_Read (word_of_nat p)))"
      proof cases
        case 1
        then have "co_cons ?c t = Some (D_Read (word_of_nat p))" by (simp add: new(3) pos)
        then show ?thesis by blast
      next
        case 2
        then consider "p \<in> fst ` set (co_reads c)" | u where "co_cons c u = Some (D_Read (word_of_nat p))"
          using ar unfolding all_read_def by metis
        then show ?thesis
        proof cases
          case 2
          then have "u \<noteq> t" using t D_Cas by auto
          then have "co_cons ?c u = Some (D_Read (word_of_nat p))" using 2 by (simp add: new(3))
          then show ?thesis by blast
        qed (simp add: new(2))
      qed
    qed
  next
    case False
    then show ?thesis
      by (intro all_read_other [OF ar, of t]) (use t D_Cas in \<open>auto simp: not_reading_def deq_moves_def\<close>)
  qed
next
  case (D_Read pos)
  define x where "x = co_in c ! unat pos"
  have slot: "cl_slot (cell_at (co_ring c) pos) = Some x"
    using inv_read(1) [OF inv bd] t by (simp add: D_Read x_def)
  have read: "p = unat pos" if "p < co_taken c" "word_of_nat p = pos" for p
    using slot_of(1) [OF inv bd, of p] conc_invD(4) [OF inv] that by auto
  show ?thesis
    unfolding all_read_def
  proof (intro allI impI)
    fix p
    assume p: "p < co_taken (deq_moves t pc weak c)"
    then have p': "p < co_taken c" using slot by (simp add: deq_moves_def D_Read)
    show "p \<in> fst ` set (co_reads (deq_moves t pc weak c))
        \<or> (\<exists>u. co_cons (deq_moves t pc weak c) u = Some (D_Read (word_of_nat p)))"
    proof (cases "p \<in> fst ` set (co_reads c) \<or> p = unat pos")
      case True
      then show ?thesis using slot by (auto simp: deq_moves_def D_Read)
    next
      case False
      then obtain u where u: "co_cons c u = Some (D_Read (word_of_nat p))"
        using ar p' by (auto simp: all_read_def)
      then have "u \<noteq> t" using t read [OF p'] False by (auto simp: D_Read)
      then have "co_cons (deq_moves t pc weak c) u = Some (D_Read (word_of_nat p))"
        using u by (simp add: deq_moves_def split: prod.split)
      then show ?thesis by blast
    qed
  qed
qed (use t in \<open>auto intro!: all_read_other [OF ar, of t] simp: not_reading_def deq_moves_def Let_def\<close>)

lemma all_read_keeps:
  assumes "conc_inv g c" and "bounded c" and "all_read c" and "conc_step c c'"
  shows "all_read c'"
  using assms(4)
proof (cases rule: conc_step.cases)
  case (move_consumer t pc weak)
  then show ?thesis using all_read_deq_moves [OF assms(1-3)] by simp
next
  case (call_dequeue t)
  then show ?thesis by (intro all_read_other [OF assms(3), of t]) (auto simp: not_reading_def)
next
  case (return_dequeue t x)
  then show ?thesis by (intro all_read_other [OF assms(3), of t]) (auto simp: not_reading_def)
qed (use assms(3) in \<open>auto simp: all_read_def enq_moves_def split: prod.split\<close>)

lemma reachable_inv:
  assumes "conc_reachable capacity c" and "2 \<le> capacity" and "capacity \<le> 2 ^ 62" and "bounded c"
  shows "\<exists>g. conc_inv g c \<and> all_read c"
  using assms(1,4)
proof (induction rule: conc_reachable.induct)
  case start
  have "all_read (conc_start capacity)" by (simp add: all_read_def conc_start_def)
  then show ?case using conc_start_inv [OF assms(2,3)] by blast
next
  case (step c c')
  have bd: "bounded c" by (rule bounded_before [OF step.hyps(2) step.prems])
  obtain g where "conc_inv g c" "all_read c" using step.IH bd by blast
  then show ?case using conc_step_keeps [OF _ bd step.hyps(2)] all_read_keeps [OF _ bd _ step.hyps(2)] by blast
qed

section \<open>Stamps compared with positions\<close>

lemma sint_diff:
  assumes "a < 2 ^ 63" and "b \<le> 2 ^ 63"
  shows "sint (word_of_nat a - word_of_nat b :: usize) = int a - int b"
proof -
  have "(word_of_nat a - word_of_nat b :: usize) = word_of_int (int a - int b)" by simp
  then have "sint (word_of_nat a - word_of_nat b :: usize) = signed_take_bit 63 (int a - int b)"
    by (simp only: sint_sbintrunc') simp
  also have "\<dots> = int a - int b" using assms by (intro signed_take_bit_int_eq_self) auto
  finally show ?thesis .
qed

lemma range_top:
  assumes "conc_inv g c" and "bounded c" and "in_range c p s"
  shows "p + stamped s < 2 ^ 63"
proof -
  note D = conc_invD [OF assms(1)]
  have "2 \<le> cells c" by (rule cells_pos [OF D(1)])
  then show ?thesis using assms(2,3) D(4) by (cases s) (auto simp: bounded_def)
qed

lemma seq_diff:
  assumes inv: "conc_inv g c" and bd: "bounded c" and g: "g (q mod cells c) = (p, s)"
    and q: "q \<le> claims c" "b \<le> 1"
  shows "sint (cl_seq (cell_at (co_ring c) (word_of_nat q)) - word_of_nat (q + b)) = int (p + stamped s) - int (q + b)"
proof -
  note ic = inv_cell [OF inv g]
  have "2 \<le> cells c" by (rule cells_pos [OF conc_invD(1) [OF inv]])
  then have "q + b \<le> 2 ^ 63" using bd q by (simp add: bounded_def)
  then have "sint (word_of_nat (p + stamped s) - word_of_nat (q + b) :: usize) = int (p + stamped s) - int (q + b)"
    by (rule sint_diff [OF range_top [OF inv bd ic(2)]])
  moreover have "cl_seq (cell_at (co_ring c) (word_of_nat q)) = word_of_nat (p + stamped s)"
    using ic(4) slot_of(3) [OF inv bd, of q] q(1) by simp
  ultimately show ?thesis by (simp only:)
qed

lemma lap_below:
  assumes "p mod n = q mod n" and "p < (q :: nat)"
  shows "p + n \<le> q"
proof -
  have "n dvd q - p" using assms by (metis less_imp_le mod_eq_dvd_iff_nat)
  then show ?thesis using assms(2) by (auto dest: dvd_imp_le)
qed

lemma same_slot:
  assumes inv: "conc_inv g c" and bd: "bounded c" and g: "g (unat pos mod cells c) = (p, s)"
    and "unat pos \<le> claims c"
  shows "slot_index (co_ring c) (word_of_nat p) = slot_index (co_ring c) pos"
proof -
  note ic = inv_cell [OF inv g] and D = conc_invD [OF inv]
  have "p < 2 ^ 64" using range_top [OF inv bd ic(2)] by simp
  then show ?thesis using ic(1) by (simp add: slot_index_mod [OF D(1)] unat_pos)
qed

text \<open>A stamp behind the position of a producer, and one behind that of a consumer.\<close>

lemma stamp_behind_front:
  assumes inv: "conc_inv g c" and g: "g (q mod cells c) = (p, s)" and "q \<le> claims c"
    and "p + stamped s < q"
  shows "q = claims c \<and> (claims c = co_taken c + cells c
    \<or> (\<exists>u. s = Taken u \<or> s = Emptied u) \<and> p + cells c = claims c)"
proof -
  note ic = inv_cell [OF inv g] and D = conc_invD [OF inv]
  have "p + cells c \<le> q" using lap_below [OF ic(1)] assms(4) by simp
  then show ?thesis using ic(2) D(4,5) assms(3) by (cases s) auto
qed

lemma stamp_behind_rear:
  assumes inv: "conc_inv g c" and g: "g (q mod cells c) = (p, s)" and "q \<le> co_taken c"
    and "p + stamped s < q + 1"
  shows "q = co_taken c \<and> (claims c = co_taken c
    \<or> (\<exists>u. s = Writing u \<or> s = Written u) \<and> p = co_taken c)"
proof -
  note ic = inv_cell [OF inv g] and D = conc_invD [OF inv]
  consider "p = q" | "p + cells c \<le> q" using lap_below [OF ic(1)] assms(4) by (cases "p = q") auto
  then show ?thesis using ic(2) D(4,5) assms(3,4) cells_pos [OF D(1)] by cases (cases s; auto)+
qed

lemma front_not_ahead:
  assumes inv: "conc_inv g c" and g: "g (claims c mod cells c) = (p, s)"
  shows "p + stamped s \<le> claims c"
proof -
  note ic = inv_cell [OF inv g] and D = conc_invD [OF inv]
  have "\<not> claims c < p"
  proof
    assume "claims c < p"
    then have "claims c + cells c \<le> p" using lap_below [OF ic(1) [symmetric]] by simp
    then show False using ic(2) D(4) cells_pos [OF D(1)] by (cases s) auto
  qed
  moreover have "stamped s = 0 \<or> p < claims c" using ic(2) D(4) by (cases s) auto
  moreover have "stamped s \<le> 1" by (cases s) auto
  ultimately show ?thesis by linarith
qed

section \<open>Who may touch a payload\<close>

datatype thread = Producer nat | Consumer nat

text \<open>The thread is between winning its compare-exchange and storing the stamp of the slot.\<close>

fun holds :: "conc \<Rightarrow> thread \<Rightarrow> nat \<Rightarrow> bool" where
  "holds c (Producer t) i =
     (case co_prod c t of
        Some (r, E_Write pos) \<Rightarrow> slot_index (co_ring c) pos = i
      | Some (r, E_Publish pos) \<Rightarrow> slot_index (co_ring c) pos = i
      | _ \<Rightarrow> False)"
| "holds c (Consumer t) i =
     (case co_cons c t of
        Some (D_Read pos) \<Rightarrow> slot_index (co_ring c) pos = i
      | Some (D_Free pos r) \<Rightarrow> slot_index (co_ring c) pos = i
      | _ \<Rightarrow> False)"

fun holder :: "stage \<Rightarrow> thread option" where
  "holder (Writing t) = Some (Producer t)"
| "holder (Written t) = Some (Producer t)"
| "holder (Taken t) = Some (Consumer t)"
| "holder (Emptied t) = Some (Consumer t)"
| "holder _ = None"

lemma holds_holder:
  assumes inv: "conc_inv g c" and "holds c x i"
  shows "holder (snd (g i)) = Some x"
proof (cases x)
  case (Producer t)
  then obtain r pc where t: "co_prod c t = Some (r, pc)" using assms(2) by (auto split: option.splits)
  from conc_invD(7) [OF inv t] assms(2) show ?thesis
    by (cases pc) (auto simp: Producer t slot_index_mod [OF conc_invD(1) [OF inv]])
next
  case (Consumer t)
  then obtain pc where t: "co_cons c t = Some pc" using assms(2) by (auto split: option.splits)
  from conc_invD(8) [OF inv t] assms(2) show ?thesis
    by (cases pc) (auto simp: Consumer t slot_index_mod [OF conc_invD(1) [OF inv]])
qed

text \<open>The requests whose position was claimed by a producer and by no consumer yet.\<close>

definition in_flight :: "conc \<Rightarrow> write_request list" where
  "in_flight c = drop (co_taken c) (co_in c)"

section \<open>A producer that runs alone\<close>

text \<open>Thread \<open>t\<close> makes one step per element of the list and no other thread makes any; an element
  says whether a compare-exchange made in that step fails spuriously.\<close>

fun alone :: "bool list \<Rightarrow> nat \<Rightarrow> conc \<Rightarrow> conc" where
  "alone [] t c = c"
| "alone (weak # ws) t c =
     (case co_prod c t of
        Some (r, pc) \<Rightarrow> alone ws t (enq_moves t r pc weak c)
      | None \<Rightarrow> c)"

abbreviation strongly :: "nat \<Rightarrow> bool list" where
  "strongly n \<equiv> replicate n False"

fun steps_left :: "usize \<Rightarrow> enq_pc \<Rightarrow> nat" where
  "steps_left front (E_Seq pos) = (if pos = front then 4 else 6)"
| "steps_left front E_Load = 5"
| "steps_left front (E_Cas pos) = (if pos = front then 3 else 5)"
| "steps_left front (E_Write pos) = 2"
| "steps_left front (E_Publish pos) = 1"
| "steps_left front (E_Ret x) = 0"

text \<open>A step that does not fail spuriously decreases the measure; one that does adds at most one.\<close>

lemma steps_left_decreases:
  assumes inv: "conc_inv g c" and bd: "bounded c" and t: "co_prod c t = Some (r, pc)"
    and "0 < steps_left (rb_enq (co_ring c)) pc"
  shows "\<exists>pc'. co_prod (enq_moves t r pc weak c) t = Some (r, pc')
    \<and> steps_left (rb_enq (co_ring (enq_moves t r pc weak c))) pc' < steps_left (rb_enq (co_ring c)) pc + (if weak then 2 else 0)"
proof (cases "\<exists>pos. pc = E_Seq pos \<and> pos = rb_enq (co_ring c)")
  case True
  note D = conc_invD [OF inv]
  have pos: "rb_enq (co_ring c) = word_of_nat (claims c)" by (rule D(2))
  obtain p s where g: "g (claims c mod cells c) = (p, s)" by fastforce
  have "sint (cl_seq (cell_at (co_ring c) (word_of_nat (claims c))) - word_of_nat (claims c)) \<le> 0"
    using seq_diff [OF inv bd g, of 0] front_not_ahead [OF inv g] by simp
  then show ?thesis using True
    by (auto simp: enq_moves_def Let_def pos simp del: word_of_nat_eq_iff)
      (metis add_0 add_diff_cancel_left' diff_add_cancel dual_order.order_iff_strict sint_0 signed_word_eqI)+
next
  case False
  then show ?thesis using assms(4) by (cases pc) (auto simp: enq_moves_def Let_def upd_cell_def)
qed

lemma alone_returns:
  assumes "conc_inv g c" and "claims c + length ws + cells c \<le> 2 ^ 63" and "co_prod c t = Some (r, pc)"
    and "steps_left (rb_enq (co_ring c)) pc + 2 * length (filter (\<lambda>weak. weak) ws) \<le> length ws"
  shows "\<exists>x. co_prod (alone ws t c) t = Some (r, E_Ret x)"
  using assms
proof (induction ws arbitrary: g c pc)
  case Nil
  then show ?case by (cases pc) (auto split: if_splits)
next
  case (Cons weak ws)
  let ?c = "enq_moves t r pc weak c"
  have bd: "bounded c" using Cons.prems(2) by (simp add: bounded_def)
  have mv: "conc_step c ?c" by (rule conc_step.move_producer [OF Cons.prems(3)])
  obtain g' where g': "conc_inv g' ?c" using conc_step_keeps [OF Cons.prems(1) bd mv] by blast
  have "claims ?c \<le> claims c + 1" by (simp add: enq_moves_def split: prod.split)
  then have room: "claims ?c + length ws + cells ?c \<le> 2 ^ 63"
    using Cons.prems(2) conc_step_grows [OF mv] by simp
  show ?case
  proof (cases "steps_left (rb_enq (co_ring c)) pc = 0")
    case True
    then obtain x where "pc = E_Ret x" by (cases pc) (auto split: if_splits)
    then have stay: "co_prod ?c t = Some (r, E_Ret x)" using Cons.prems(3) by (simp add: enq_moves_def)
    have "co_prod (alone ws t c') t = Some (r, E_Ret x)" if "co_prod c' t = Some (r, E_Ret x)" for c'
      using that by (induction ws arbitrary: c') (simp_all add: enq_moves_def)
    from this [OF stay] show ?thesis using Cons.prems(3) by simp
  next
    case False
    then obtain pc' where pc': "co_prod ?c t = Some (r, pc')"
      "steps_left (rb_enq (co_ring ?c)) pc' < steps_left (rb_enq (co_ring c)) pc + (if weak then 2 else 0)"
      using steps_left_decreases [OF Cons.prems(1) bd Cons.prems(3)] by blast
    have "steps_left (rb_enq (co_ring ?c)) pc' + 2 * length (filter (\<lambda>weak. weak) ws) \<le> length ws"
      using pc'(2) Cons.prems(4) by (cases weak) auto
    from Cons.IH [OF g' room pc'(1) this] show ?thesis using Cons.prems(3) by simp
  qed
qed

section \<open>A run used by the witnesses\<close>

text \<open>One producer hands one request to one consumer of a ring of two slots.\<close>

definition hello_req :: write_request where
  "hello_req = \<lparr>wr_id = 1, wr_version = 2, wr_blob = [104, 105], wr_seq = 0\<rparr>"

definition one_enqueued :: "write_request \<Rightarrow> conc" where
  "one_enqueued r = alone (strongly 5) 0 ((conc_start 2)\<lparr>co_prod := [0 \<mapsto> (r, E_Load)]\<rparr>)"

lemma reachable_alone:
  "conc_reachable capacity c \<Longrightarrow> conc_reachable capacity (alone ws t c)"
  by (induction ws arbitrary: c)
    (auto split: option.split intro: conc_reachable.step conc_step.move_producer)

lemma reachable_called:
  "conc_reachable capacity c \<Longrightarrow> co_prod c t = None \<Longrightarrow>
    conc_reachable capacity (c\<lparr>co_prod := (co_prod c)(t \<mapsto> (r, E_Load))\<rparr>)"
  by (erule conc_reachable.step) (rule conc_step.call_enqueue)

lemma ring_new_2: "ring_new 2 =
    \<lparr>rb_buffer = [\<lparr>cl_seq = 0, cl_slot = None\<rparr>, \<lparr>cl_seq = 1, cl_slot = None\<rparr>], rb_mask = 1,
     rb_capacity = 2, rb_enq = 0, rb_deq = 0\<rparr>"
  by (simp add: ring_new_def next_power_of_two_def pow2_from.simps upt_rec)

lemma five: "5 = Suc (Suc (Suc (Suc (Suc 0))))" by simp

lemma one_enqueued_eq: "one_enqueued r =
    \<lparr>co_ring = \<lparr>rb_buffer = [\<lparr>cl_seq = 1, cl_slot = Some r\<rparr>, \<lparr>cl_seq = 1, cl_slot = None\<rparr>], rb_mask = 1,
       rb_capacity = 2, rb_enq = 1, rb_deq = 0\<rparr>,
     co_prod = [0 \<mapsto> (r, E_Ret (Inr ()))], co_cons = (\<lambda>_. None), co_in = [r], co_taken = 0, co_reads = []\<rparr>"
  unfolding one_enqueued_def conc_start_def ring_new_2 five
  by (simp add: enq_moves_def cell_at_def slot_index_def upd_cell_def Let_def)

lemma one_enqueued_reachable: "conc_reachable 2 (one_enqueued r)"
  unfolding one_enqueued_def
  by (rule reachable_alone)
    (use reachable_called [OF conc_reachable.start, of 2 0 r] in \<open>simp add: conc_start_def\<close>)

text \<open>The consumer has claimed and read the request, and still has to free the slot.\<close>

definition one_taken :: "write_request \<Rightarrow> conc" where
  "one_taken r = deq_moves 0 (D_Read 0) False (deq_moves 0 (D_Cas 0) False (deq_moves 0 (D_Seq 0) False
     (deq_moves 0 D_Load False ((one_enqueued r)\<lparr>co_cons := [0 \<mapsto> D_Load]\<rparr>))))"

lemma one_taken_eq: "one_taken r =
    \<lparr>co_ring = \<lparr>rb_buffer = [\<lparr>cl_seq = 1, cl_slot = None\<rparr>, \<lparr>cl_seq = 1, cl_slot = None\<rparr>], rb_mask = 1,
       rb_capacity = 2, rb_enq = 1, rb_deq = 1\<rparr>,
     co_prod = [0 \<mapsto> (r, E_Ret (Inr ()))], co_cons = [0 \<mapsto> D_Free 0 r], co_in = [r], co_taken = 1,
     co_reads = [(0, r)]\<rparr>"
  unfolding one_taken_def one_enqueued_eq
  by (simp add: deq_moves_def cell_at_def slot_index_def upd_cell_def Let_def)

lemma one_taken_reachable: "conc_reachable 2 (one_taken r)"
proof -
  let ?c0 = "(one_enqueued r)\<lparr>co_cons := [0 \<mapsto> D_Load]\<rparr>"
  let ?c1 = "deq_moves 0 D_Load False ?c0"
  let ?c2 = "deq_moves 0 (D_Seq 0) False ?c1"
  let ?c3 = "deq_moves 0 (D_Cas 0) False ?c2"
  have s1: "conc_step (one_enqueued r) ?c0"
    using conc_step.call_dequeue [of "one_enqueued r" 0] by (simp add: one_enqueued_eq)
  have s2: "conc_step ?c0 ?c1" by (rule conc_step.move_consumer) simp
  have s3: "conc_step ?c1 ?c2"
    by (rule conc_step.move_consumer) (simp add: one_enqueued_eq deq_moves_def)
  have s4: "conc_step ?c2 ?c3"
    by (rule conc_step.move_consumer)
      (simp add: one_enqueued_eq deq_moves_def Let_def cell_at_def slot_index_def)
  have s5: "conc_step ?c3 (one_taken r)"
    unfolding one_taken_def
    by (rule conc_step.move_consumer)
      (simp add: one_enqueued_eq deq_moves_def Let_def cell_at_def slot_index_def)
  note reach = conc_reachable.step [OF one_enqueued_reachable s1]
  from conc_reachable.step [OF conc_reachable.step [OF conc_reachable.step [OF conc_reachable.step [OF reach s2] s3] s4] s5]
  show ?thesis .
qed

text \<open>Two requests fill the ring, and a third producer has loaded its position.\<close>

definition third_asks :: "write_request \<Rightarrow> conc" where
  "third_asks r =
     (let c = alone (strongly 5) 1 ((one_enqueued r)\<lparr>co_prod := (co_prod (one_enqueued r))(1 \<mapsto> (r, E_Load))\<rparr>)
      in alone (strongly 1) 2 (c\<lparr>co_prod := (co_prod c)(2 \<mapsto> (r, E_Load))\<rparr>))"

lemma third_asks_eq: "third_asks r =
    \<lparr>co_ring = \<lparr>rb_buffer = [\<lparr>cl_seq = 1, cl_slot = Some r\<rparr>, \<lparr>cl_seq = 2, cl_slot = Some r\<rparr>], rb_mask = 1,
       rb_capacity = 2, rb_enq = 2, rb_deq = 0\<rparr>,
     co_prod = [0 \<mapsto> (r, E_Ret (Inr ())), 1 \<mapsto> (r, E_Ret (Inr ())), 2 \<mapsto> (r, E_Seq 2)],
     co_cons = (\<lambda>_. None), co_in = [r, r], co_taken = 0, co_reads = []\<rparr>"
  unfolding third_asks_def one_enqueued_eq five One_nat_def
  by (simp add: enq_moves_def cell_at_def slot_index_def upd_cell_def Let_def)

lemma third_asks_reachable: "conc_reachable 2 (third_asks r)"
proof -
  let ?c = "alone (strongly 5) 1 ((one_enqueued r)\<lparr>co_prod := (co_prod (one_enqueued r))(1 \<mapsto> (r, E_Load))\<rparr>)"
  have c: "conc_reachable 2 ?c"
    by (intro reachable_alone reachable_called one_enqueued_reachable) (simp add: one_enqueued_eq)
  have "co_prod ?c 2 = None"
    unfolding one_enqueued_eq five
    by (simp add: enq_moves_def cell_at_def slot_index_def upd_cell_def Let_def)
  from reachable_alone [OF reachable_called [OF c this]] show ?thesis unfolding third_asks_def Let_def .
qed

text \<open>A producer has claimed its slot and not written it, and a consumer has loaded its
  position.\<close>

definition unpublished :: "write_request \<Rightarrow> conc" where
  "unpublished r = deq_moves 0 D_Load False
     ((alone (strongly 3) 0 ((conc_start 2)\<lparr>co_prod := [0 \<mapsto> (r, E_Load)]\<rparr>))\<lparr>co_cons := [0 \<mapsto> D_Load]\<rparr>)"

lemma unpublished_eq: "unpublished r =
    \<lparr>co_ring = \<lparr>rb_buffer = [\<lparr>cl_seq = 0, cl_slot = None\<rparr>, \<lparr>cl_seq = 1, cl_slot = None\<rparr>], rb_mask = 1,
       rb_capacity = 2, rb_enq = 1, rb_deq = 0\<rparr>,
     co_prod = [0 \<mapsto> (r, E_Write 0)], co_cons = [0 \<mapsto> D_Seq 0], co_in = [r], co_taken = 0,
     co_reads = []\<rparr>"
  unfolding unpublished_def conc_start_def ring_new_2 numeral_3_eq_3
  by (simp add: enq_moves_def deq_moves_def cell_at_def slot_index_def upd_cell_def Let_def)

lemma unpublished_reachable: "conc_reachable 2 (unpublished r)"
proof -
  let ?c = "alone (strongly 3) 0 ((conc_start 2)\<lparr>co_prod := [0 \<mapsto> (r, E_Load)]\<rparr>)"
  have c: "conc_reachable 2 ?c"
    by (rule reachable_alone)
      (use reachable_called [OF conc_reachable.start, of 2 0 r] in \<open>simp add: conc_start_def\<close>)
  have none: "co_cons ?c = (\<lambda>_. None)"
    unfolding conc_start_def ring_new_2 numeral_3_eq_3
    by (simp add: enq_moves_def cell_at_def slot_index_def upd_cell_def Let_def)
  have "conc_step ?c (?c\<lparr>co_cons := [0 \<mapsto> D_Load]\<rparr>)"
    using conc_step.call_dequeue [of ?c 0] by (simp only: none)
  moreover have "conc_step (?c\<lparr>co_cons := [0 \<mapsto> D_Load]\<rparr>) (unpublished r)"
    unfolding unpublished_def by (rule conc_step.move_consumer) simp
  ultimately show ?thesis using c by (blast intro: conc_reachable.step)
qed

section \<open>Properties\<close>

text \<open>
  C16: However the threads interleave, no request is lost, duplicated or reordered, for
  capacities from 2 to \<open>2 ^ 62\<close> and fewer than \<open>2 ^ 63\<close> claims. No
  consumer reads an uninitialised slot, no position is read twice, the request read at a
  position is the one whose producer claimed that position, and once no consumer is between its
  claim and its read, the requests read are exactly the ones at the positions that consumers
  have claimed.
\<close>

theorem shared_ring_hands_over_once:
  assumes "conc_reachable capacity c" and "2 \<le> capacity" "capacity \<le> 2 ^ 62"
    and "length (co_in c) + length (rb_buffer (co_ring c)) \<le> 2 ^ 63"
  shows "(\<forall>t. co_cons c t \<noteq> Some D_Undefined) \<and> distinct (map fst (co_reads c))
    \<and> (\<forall>(p, r) \<in> set (co_reads c). p < co_taken c \<and> r = co_in c ! p)
    \<and> ((\<forall>t pos. co_cons c t \<noteq> Some (D_Read pos)) \<longrightarrow>
         mset (map snd (co_reads c)) = mset (take (co_taken c) (co_in c)))"
proof -
  obtain g where inv: "conc_inv g c" and ar: "all_read c"
    using reachable_inv [OF assms(1-3)] assms(4) by (auto simp: bounded_def)
  note D = conc_invD [OF inv]
  have "mset (map snd (co_reads c)) = mset (take (co_taken c) (co_in c))"
    if idle: "\<forall>t pos. co_cons c t \<noteq> Some (D_Read pos)"
  proof -
    have snd: "map snd (co_reads c) = map (\<lambda>p. co_in c ! p) (map fst (co_reads c))"
      using D(10) by (auto simp: map_eq_conv split_beta intro!: map_cong)
    have "set (map fst (co_reads c)) = {..<co_taken c}"
    proof
      show "set (map fst (co_reads c)) \<subseteq> {..<co_taken c}" using D(10) by force
      show "{..<co_taken c} \<subseteq> set (map fst (co_reads c))" using ar idle unfolding all_read_def by force
    qed
    then have "mset (map fst (co_reads c)) = mset [0..<co_taken c]"
      using D(9) by (subst set_eq_iff_mset_eq_distinct [symmetric]) (auto simp: lessThan_atLeast0)
    then have "mset (map snd (co_reads c)) = image_mset (\<lambda>p. co_in c ! p) (mset [0..<co_taken c])"
      by (simp only: snd mset_map)
    also have "\<dots> = mset (map (\<lambda>p. co_in c ! p) [0..<co_taken c])" by (simp only: mset_map)
    also have "map (\<lambda>p. co_in c ! p) [0..<co_taken c] = take (co_taken c) (co_in c)"
      using D(4) by (intro nth_equalityI) simp_all
    finally show ?thesis .
  qed
  moreover have "co_cons c t \<noteq> Some D_Undefined" for t using D(8) [of t D_Undefined] by auto
  ultimately show ?thesis using D(9,10) by blast
qed

theorem shared_ring_hands_over_once_witness:
  "mset (map snd (co_reads (one_taken hello_req))) = {#hello_req#}
    \<and> distinct (map fst (co_reads (one_taken hello_req)))"
  using shared_ring_hands_over_once [OF one_taken_reachable, of hello_req] by (simp add: one_taken_eq)

text \<open>
  C17: The payload of a slot has one user at a time, for capacities from 2 to \<open>2 ^ 62\<close> and
  fewer than \<open>2 ^ 63\<close> claims.  From the moment a producer or a consumer wins its compare-exchange
  until it stores the stamp, no other thread is in that section for the same slot, which is what
  the \<open>unsafe\<close> blocks rely on.
\<close>

theorem payload_access_exclusive:
  assumes "conc_reachable capacity c" and "2 \<le> capacity" "capacity \<le> 2 ^ 62"
    and "length (co_in c) + length (rb_buffer (co_ring c)) \<le> 2 ^ 63"
    and "holds c x i" and "holds c y i"
  shows "x = y"
proof -
  obtain g where inv: "conc_inv g c"
    using reachable_inv [OF assms(1-3)] assms(4) by (auto simp: bounded_def)
  from holds_holder [OF inv assms(5)] holds_holder [OF inv assms(6)] show ?thesis by simp
qed

theorem payload_access_exclusive_witness:
  "\<not> holds (one_taken hello_req) (Producer 0) 0 \<and> holds (one_taken hello_req) (Consumer 0) 0"
proof -
  have "holds (one_taken hello_req) (Consumer 0) 0" by (simp add: one_taken_eq slot_index_def)
  moreover from payload_access_exclusive [OF one_taken_reachable _ _ _ _ this, of "Producer 0"]
  have "\<not> holds (one_taken hello_req) (Producer 0) 0" by (auto simp: one_taken_eq)
  ultimately show ?thesis by blast
qed

text \<open>
  C18: Every interleaved step refines a bounded first-in first-out queue, for capacities from
  2 to \<open>2 ^ 62\<close> and fewer than \<open>2 ^ 63\<close> claims: it leaves the queue of claimed and not yet taken
  requests alone, appends one request while there is room, or removes the oldest.  The
  difference of the two counters is its length.
\<close>

theorem shared_ring_refines_fifo:
  assumes "conc_reachable capacity c" and "2 \<le> capacity" "capacity \<le> 2 ^ 62"
    and "conc_step c c'" and "length (co_in c') + length (rb_buffer (co_ring c')) \<le> 2 ^ 63"
  shows "(in_flight c' = in_flight c
      \<or> (\<exists>r. in_flight c' = in_flight c @ [r] \<and> length (in_flight c) < ring_capacity (co_ring c))
      \<or> (\<exists>r. in_flight c = r # in_flight c'))
    \<and> length (in_flight c') = unat (rb_enq (co_ring c') - rb_deq (co_ring c'))"
proof -
  have bd': "bounded c'" using assms(5) by (simp add: bounded_def)
  have bd: "bounded c" by (rule bounded_before [OF assms(4) bd'])
  obtain g where inv: "conc_inv g c" using reachable_inv [OF assms(1-3) bd] by blast
  obtain g' where inv': "conc_inv g' c'" using conc_step_keeps [OF inv bd assms(4)] by blast
  note D = conc_invD [OF inv] and D' = conc_invD [OF inv']
  have len: "length (in_flight c') = unat (rb_enq (co_ring c') - rb_deq (co_ring c'))"
  proof -
    have "rb_enq (co_ring c') - rb_deq (co_ring c') = word_of_nat (claims c' - co_taken c')"
      using D'(2,3,4) by (simp add: of_nat_diff)
    moreover have "claims c' - co_taken c' < 2 ^ 64" using assms(5) by simp
    ultimately show ?thesis by (simp only: unat_pos in_flight_def length_drop)
  qed
  have step: "(co_in c' = co_in c \<and> co_taken c' = co_taken c)
      \<or> (\<exists>r. co_in c' = co_in c @ [r] \<and> co_taken c' = co_taken c)
      \<or> (co_in c' = co_in c \<and> co_taken c' = Suc (co_taken c))"
    using assms(4) by (cases rule: conc_step.cases) (auto simp: enq_moves_def deq_moves_def split: prod.splits)
  then consider (same) "co_in c' = co_in c" "co_taken c' = co_taken c"
    | (push) r where "co_in c' = co_in c @ [r]" "co_taken c' = co_taken c"
    | (pop) "co_in c' = co_in c" "co_taken c' = Suc (co_taken c)" by blast
  then show ?thesis
  proof cases
    case same
    then show ?thesis using len by (simp add: in_flight_def)
  next
    case push
    then have "in_flight c' = in_flight c @ [r]" using D(4) by (simp add: in_flight_def)
    moreover have "length (in_flight c) < ring_capacity (co_ring c)"
      using push D'(5) D(4) conc_step_grows [OF assms(4)] by (simp add: in_flight_def geom_capacity [OF D(1)])
    ultimately show ?thesis using len by blast
  next
    case pop
    then have "co_taken c < claims c" using D'(4) by simp
    then have "in_flight c = co_in c ! co_taken c # in_flight c'"
      using pop by (simp add: in_flight_def Cons_nth_drop_Suc)
    then show ?thesis using len by blast
  qed
qed

theorem shared_ring_refines_fifo_witness:
  "length (in_flight (enq_moves 0 hello_req (E_Ret (Inr ())) False (one_enqueued hello_req))) = 1"
proof -
  have "conc_step (one_enqueued hello_req)
      (enq_moves 0 hello_req (E_Ret (Inr ())) False (one_enqueued hello_req))"
    by (rule conc_step.move_producer) (simp add: one_enqueued_eq)
  from shared_ring_refines_fifo [OF one_enqueued_reachable _ _ this] show ?thesis
    by (simp add: one_enqueued_eq enq_moves_def)
qed

text \<open>
  a producer gives its request back only when the ring is full.  When \<open>try_enqueue\<close>
  refuses, the position it looked at is the front, and either as many requests are queued
  as the ring has slots, or the slot at the front is still held by a consumer that has
  claimed its request and not yet freed it.
\<close>

theorem refused_only_when_full:
  assumes "conc_reachable capacity c" and "2 \<le> capacity" "capacity \<le> 2 ^ 62"
    and "length (co_in c) + length (rb_buffer (co_ring c)) \<le> 2 ^ 63"
    and t: "co_prod c t = Some (r, E_Seq pos)"
    and ret: "snd (enq_step weak r (co_ring c) (E_Seq pos)) = E_Ret (Inl r)"
  shows "pos = rb_enq (co_ring c) \<and> (length (in_flight c) = ring_capacity (co_ring c)
    \<or> (\<exists>u. holds c (Consumer u) (slot_index (co_ring c) pos)))"
proof -
  have bd: "bounded c" using assms(4) by (simp add: bounded_def)
  obtain g where inv: "conc_inv g c" using reachable_inv [OF assms(1-3) bd] by blast
  note D = conc_invD [OF inv]
  have q: "unat pos \<le> claims c" using D(7) [OF t] by simp
  have pos: "word_of_nat (unat pos) = pos" by simp
  obtain p s where g: "g (unat pos mod cells c) = (p, s)" by fastforce
  have "sint (cl_seq (cell_at (co_ring c) pos) - pos) < 0"
    using ret by (auto simp: Let_def split: if_splits)
  with seq_diff [OF inv bd g q, of 0] have "int (p + stamped s) - int (unat pos + 0) < 0"
    by (simp only: pos add_0_right zero_le)
  then have "p + stamped s < unat pos" by linarith
  from stamp_behind_front [OF inv g q this]
  have front: "unat pos = claims c" and why: "claims c = co_taken c + cells c
    \<or> (\<exists>u. s = Taken u \<or> s = Emptied u) \<and> p + cells c = claims c" by blast+
  have "slot_index (co_ring c) (word_of_nat p) = slot_index (co_ring c) pos" by (rule same_slot [OF inv bd g q])
  then have "holds c (Consumer u) (slot_index (co_ring c) pos)" if "s = Taken u \<or> s = Emptied u" for u
    using inv_cell(3) [OF inv g] that by auto
  then show ?thesis
    using front why pos D(2) by (metis in_flight_def geom_capacity [OF D(1)] diff_add_inverse length_drop)
qed

theorem refused_only_when_full_witness:
  "length (in_flight (third_asks hello_req)) = 2"
proof -
  have "\<not> holds (third_asks hello_req) (Consumer u) (slot_index (co_ring (third_asks hello_req)) 2)" for u
    by (simp add: third_asks_eq)
  with refused_only_when_full [OF third_asks_reachable, where t = 2 and pos = 2 and weak = False]
  show ?thesis
    by (simp add: third_asks_eq Let_def cell_at_def slot_index_def ring_capacity_def)
qed

text \<open>
  \<open>try_dequeue\<close> answers \<open>None\<close> only when there is nothing to take.  The position the
  consumer looked at is the oldest one not taken, and either no request is queued, or the
  oldest one is still being written by the producer that claimed its position.
\<close>

theorem none_only_when_empty:
  assumes "conc_reachable capacity c" and "2 \<le> capacity" "capacity \<le> 2 ^ 62"
    and "length (co_in c) + length (rb_buffer (co_ring c)) \<le> 2 ^ 63"
    and t: "co_cons c t = Some (D_Seq pos)"
    and ret: "snd (deq_step weak (co_ring c) (D_Seq pos)) = D_Ret None"
  shows "pos = rb_deq (co_ring c) \<and> (in_flight c = []
    \<or> (\<exists>u. holds c (Producer u) (slot_index (co_ring c) pos)))"
proof -
  have bd: "bounded c" using assms(4) by (simp add: bounded_def)
  obtain g where inv: "conc_inv g c" using reachable_inv [OF assms(1-3) bd] by blast
  note D = conc_invD [OF inv]
  have qt: "unat pos \<le> co_taken c" using D(8) [OF t] by simp
  then have q: "unat pos \<le> claims c" using D(4) by simp
  have pos: "word_of_nat (unat pos) = pos" "word_of_nat (unat pos + 1) = pos + 1" by (simp_all add: add.commute)
  obtain p s where g: "g (unat pos mod cells c) = (p, s)" by fastforce
  have "sint (cl_seq (cell_at (co_ring c) pos) - (pos + 1)) < 0"
    using ret by (auto simp: Let_def split: if_splits)
  with seq_diff [OF inv bd g q, of 1] have "int (p + stamped s) - int (unat pos + 1) < 0"
    by (simp only: pos order_refl)
  then have "p + stamped s < unat pos + 1" by linarith
  from stamp_behind_rear [OF inv g qt this]
  have front: "unat pos = co_taken c" and why: "claims c = co_taken c
    \<or> (\<exists>u. s = Writing u \<or> s = Written u) \<and> p = co_taken c" by blast+
  have "slot_index (co_ring c) (word_of_nat p) = slot_index (co_ring c) pos" by (rule same_slot [OF inv bd g q])
  then have "holds c (Producer u) (slot_index (co_ring c) pos)" if "s = Writing u \<or> s = Written u" for u
    using inv_cell(3) [OF inv g] that by auto
  then show ?thesis using front why pos(1) D(3) by (metis in_flight_def drop_all order_refl)
qed

theorem none_only_when_empty_witness:
  "\<exists>u. holds (unpublished hello_req) (Producer u) 0"
  using none_only_when_empty [OF unpublished_reachable, where t = 0 and pos = 0 and weak = False]
  by (simp add: unpublished_eq Let_def cell_at_def slot_index_def in_flight_def)

text \<open>
  C19: a producer waits for nobody.  In any reachable state of a ring of at least two slots
  whose counters are not about to wrap, whatever the other threads were doing when they were
  stopped, also inside a slot, a producer that is left alone returns from \<open>try_enqueue\<close>
  within six of its own atomic accesses, plus two for each of its weak compare-exchanges that
  fails spuriously.
\<close>

theorem producer_never_waits:
  assumes "conc_reachable capacity c" and "2 \<le> capacity" "capacity \<le> 2 ^ 62"
    and "length (co_in c) + length ws + length (rb_buffer (co_ring c)) \<le> 2 ^ 63"
    and "co_prod c t = Some (r, pc)" and "6 + 2 * length (filter (\<lambda>weak. weak) ws) \<le> length ws"
  shows "\<exists>x. co_prod (alone ws t c) t = Some (r, E_Ret x)"
proof -
  obtain g where inv: "conc_inv g c"
    using reachable_inv [OF assms(1-3)] assms(4) by (auto simp: bounded_def)
  have "steps_left (rb_enq (co_ring c)) pc \<le> 6" by (cases pc) auto
  then have "steps_left (rb_enq (co_ring c)) pc + 2 * length (filter (\<lambda>weak. weak) ws) \<le> length ws" using assms(6) by linarith
  from alone_returns [OF inv assms(4,5) this] show ?thesis .
qed

theorem producer_never_waits_witness:
  "\<exists>x. co_prod (alone [False, False, True, False, False, True, False, False, False, False] 1
      ((one_taken hello_req)\<lparr>co_prod := (co_prod (one_taken hello_req))(1 \<mapsto> (hello_req, E_Load))\<rparr>)) 1
    = Some (hello_req, E_Ret x)"
proof (rule producer_never_waits)
  show "conc_reachable 2 ((one_taken hello_req)\<lparr>co_prod := (co_prod (one_taken hello_req))(1 \<mapsto> (hello_req, E_Load))\<rparr>)"
    by (rule reachable_called [OF one_taken_reachable]) (simp add: one_taken_eq)
qed (simp_all add: one_taken_eq)

end
