(* ===== verification/Framing.thy ===== *)
theory Framing
  imports Prelude
begin

text \<open>
  Files that are a sequence of self-delimiting frames, as the write-ahead log and the disk
  key-value store keep them.  The locale states what a frame codec and the loop that reads
  a file frame by frame promise each other, and proves once what the loop returns: all
  records of an intact image, the longest complete prefix when the image is cut anywhere,
  and on any bytes only records whose own image is the prefix that was read.
\<close>

definition image_of :: "('r \<Rightarrow> u8 list) \<Rightarrow> 'r list \<Rightarrow> u8 list" where
  "image_of enc rs = concat (map enc rs)"

lemma image_of_simps [simp]:
  "image_of enc [] = []" "image_of enc (r # rs) = enc r @ image_of enc rs"
  "image_of enc (rs @ rs') = image_of enc rs @ image_of enc rs'"
  by (simp_all add: image_of_def)

definition torn_for :: "(u8 list \<Rightarrow> ('r \<times> nat) option) \<Rightarrow> u8 list \<Rightarrow> bool" where
  "torn_for dec bs \<longleftrightarrow> bs = [] \<or> dec bs = None"

locale frame_scan =
  fixes enc :: "'r \<Rightarrow> u8 list" and dec :: "u8 list \<Rightarrow> ('r \<times> nat) option" and fit :: "'r \<Rightarrow> bool"
    and scan :: "u8 list \<Rightarrow> nat \<Rightarrow> 'r list \<times> nat"
  assumes enc_nonempty: "enc r \<noteq> []"
    and dec_enc: "fit r \<Longrightarrow> dec (enc r @ rest) = Some (r, length (enc r))"
    and dec_cut: "fit r \<Longrightarrow> k < length (enc r) \<Longrightarrow> dec (take k (enc r)) = None"
    and dec_Some: "dec bs = Some (r, n) \<Longrightarrow> fit r \<and> n = length (enc r) \<and> take n bs = enc r"
    and scan_torn: "torn_for dec bs \<Longrightarrow> scan bs pos = ([], pos)"
    and scan_Some: "bs \<noteq> [] \<Longrightarrow> dec bs = Some (r, n) \<Longrightarrow>
      scan bs pos = (r # fst (scan (drop n bs) (pos + n)), snd (scan (drop n bs) (pos + n)))"
begin

lemma scan_image:
  "list_all fit rs \<Longrightarrow> torn_for dec junk \<Longrightarrow>
    scan (image_of enc rs @ junk) pos = (rs, pos + length (image_of enc rs))"
proof (induction rs arbitrary: pos)
  case Nil
  then show ?case by (simp add: scan_torn)
next
  case (Cons r rs)
  have "scan (enc r @ image_of enc rs @ junk) pos = (r # rs, pos + length (enc r) + length (image_of enc rs))"
    using Cons enc_nonempty dec_enc [of r "image_of enc rs @ junk"] by (subst scan_Some) auto
  then show ?case by (simp add: add.assoc)
qed

lemma image_cut:
  "list_all fit rs \<Longrightarrow> n < length (image_of enc rs) \<Longrightarrow>
    \<exists>k junk. k < length rs \<and> take n (image_of enc rs) = image_of enc (take k rs) @ junk \<and> torn_for dec junk
      \<and> length (image_of enc (take k rs)) \<le> n \<and> n < length (image_of enc (take (Suc k) rs))"
proof (induction rs arbitrary: n)
  case Nil
  then show ?case by simp
next
  case (Cons r rs)
  show ?case
  proof (cases "n < length (enc r)")
    case True
    then have "torn_for dec (take n (enc r))" using Cons.prems(1) dec_cut by (simp add: torn_for_def)
    then show ?thesis using True by (intro exI [of _ 0]) simp
  next
    case False
    then have "n - length (enc r) < length (image_of enc rs)" using Cons.prems(2) by simp
    from Cons.IH [OF _ this] obtain k junk where "k < length rs" "torn_for dec junk"
      "take (n - length (enc r)) (image_of enc rs) = image_of enc (take k rs) @ junk"
      "length (image_of enc (take k rs)) \<le> n - length (enc r)"
      "n - length (enc r) < length (image_of enc (take (Suc k) rs))"
      using Cons.prems(1) by auto
    moreover from this have "length (enc r) + length (image_of enc (take k rs)) \<le> n"
      "n < length (enc r) + length (image_of enc (take (Suc k) rs))" using False by linarith+
    ultimately show ?thesis using False
      by (intro exI [of _ "Suc k"] exI [of _ junk]) simp
  qed
qed

lemma scan_cut:
  assumes "list_all fit rs"
  shows "\<exists>k \<le> length rs. scan (take n (image_of enc rs)) pos = (take k rs, pos + length (image_of enc (take k rs)))
    \<and> length (image_of enc (take k rs)) \<le> n \<and> (k < length rs \<longrightarrow> n < length (image_of enc (take (Suc k) rs)))"
proof (cases "n < length (image_of enc rs)")
  case False
  then show ?thesis
    using scan_image [OF assms, of "[]"] by (intro exI [of _ "length rs"]) (simp add: torn_for_def)
next
  case True
  from image_cut [OF assms this] obtain k junk where k: "k < length rs" "torn_for dec junk"
    "take n (image_of enc rs) = image_of enc (take k rs) @ junk"
    "length (image_of enc (take k rs)) \<le> n" "n < length (image_of enc (take (Suc k) rs))" by blast
  have "list_all fit (take k rs)" using assms by (metis append_take_drop_id list_all_append)
  then show ?thesis using scan_image [OF _ k(2), of "take k rs"] k by (intro exI [of _ k]) simp
qed

lemma scan_sound:
  "scan bs pos = (rs, n) \<Longrightarrow>
    list_all fit rs \<and> n = pos + length (image_of enc rs) \<and> (\<exists>junk. bs = image_of enc rs @ junk \<and> torn_for dec junk)"
proof (induction "length bs" arbitrary: bs pos rs rule: less_induct)
  case less
  show ?case
  proof (cases "torn_for dec bs")
    case True
    then show ?thesis using less.prems scan_torn [OF True, of pos] by auto
  next
    case False
    then obtain r c where d: "bs \<noteq> []" "dec bs = Some (r, c)" by (auto simp: torn_for_def)
    note c = dec_Some [OF d(2)]
    then have pos: "0 < c" using enc_nonempty [of r] by simp
    obtain rs' where rs': "scan (drop c bs) (pos + c) = (rs', n)" "rs = r # rs'"
      using less.prems scan_Some [OF d, of pos] by (metis fst_conv snd_conv surj_pair)
    have "length (drop c bs) < length bs" using pos d(1) by simp
    from less.hyps [OF this rs'(1)] obtain junk where j: "list_all fit rs'" "n = pos + c + length (image_of enc rs')"
      "drop c bs = image_of enc rs' @ junk" "torn_for dec junk" by blast
    have "bs = enc r @ drop c bs" using c by (metis append_take_drop_id)
    then show ?thesis using c j rs'(2) by (auto intro!: exI [of _ junk])
  qed
qed

end

end
