(* ===== verification/Segment.thy ===== *)
theory Segment
  imports Domain Framing
begin

text \<open>
  The byte image of a log segment, \<open>decode_segment\<close> of \<open>src/wal.rs\<close>, and what it
  returns on the image of a list of records: the records themselves, the longest complete
  prefix when the image is cut short, and on any other bytes a list of records whose own
  image is the prefix that was kept.
\<close>

definition HEADER_MAGIC :: "u8 list" where
  "HEADER_MAGIC = [0x46, 0x4C, 0x55, 0x58, 0x57, 0x41, 0x4C, 0x31]"

definition HEADER_LEN :: nat where "HEADER_LEN = 8"

lemma length_HEADER_MAGIC [simp]: "length HEADER_MAGIC = HEADER_LEN"
  by (simp add: HEADER_MAGIC_def HEADER_LEN_def)

section \<open>\<open>decode_segment\<close>\<close>

text \<open>The loop, from the bytes that are left and the offset they start at.\<close>

function scan_frames :: "u8 list \<Rightarrow> nat \<Rightarrow> wal_record list \<times> nat" where
  "scan_frames bytes pos =
     (if bytes = [] then ([], pos)
      else case decode bytes of
             Inr (r, consumed) \<Rightarrow>
               (let (records, good_end) = scan_frames (drop consumed bytes) (pos + consumed)
                in (r # records, good_end))
           | Inl _ \<Rightarrow> ([], pos))"
  by pat_completeness auto
termination
  by (relation "measure (\<lambda>(bytes, pos). length bytes)") (auto dest: decode_Inr simp: length_encode)

declare scan_frames.simps [simp del]

definition decode_segment :: "u8 list \<Rightarrow> wal_record list \<times> nat" where
  "decode_segment bytes =
     (if length bytes < HEADER_LEN then ([], length bytes)
      else if take HEADER_LEN bytes \<noteq> HEADER_MAGIC then ([], length bytes)
      else scan_frames (drop HEADER_LEN bytes) HEADER_LEN)"

section \<open>Images\<close>

definition frames :: "wal_record list \<Rightarrow> u8 list" where
  "frames = image_of encode"

definition segment :: "wal_record list \<Rightarrow> u8 list" where
  "segment rs = HEADER_MAGIC @ frames rs"

lemma frames_simps [simp]:
  "frames [] = []" "frames (r # rs) = encode r @ frames rs" "frames (rs @ rs') = frames rs @ frames rs'"
  by (simp_all add: frames_def)

lemma segment_append: "segment (rs @ rs') = segment rs @ frames rs'"
  by (simp add: segment_def)

lemma segment_simps [simp]: "take HEADER_LEN (segment rs) = HEADER_MAGIC"
  "HEADER_LEN \<le> length (segment rs)"
  by (simp_all add: segment_def)

lemma length_segment_append: "length (segment (rs @ rs')) = length (segment rs) + length (frames rs')"
  by (simp add: segment_append)

abbreviation all_fit :: "wal_record list \<Rightarrow> bool" where
  "all_fit rs \<equiv> list_all fits rs"

text \<open>Bytes that hold no complete frame at their front.\<close>

definition torn :: "u8 list \<Rightarrow> bool" where
  "torn bs \<longleftrightarrow> bs = [] \<or> (\<exists>e. decode bs = Inl e)"

lemma encode_nonempty [simp]: "encode r \<noteq> []"
  using length_encode [of r] by auto

text \<open>The codec and the scanner keep the contract of framed files.\<close>

definition decoded :: "u8 list \<Rightarrow> (wal_record \<times> nat) option" where
  "decoded bs = (case decode bs of Inr x \<Rightarrow> Some x | Inl e \<Rightarrow> None)"

lemma torn_eq: "torn = torn_for decoded"
  by (rule ext) (auto simp: torn_def torn_for_def decoded_def split: sum.split)

interpretation walf: frame_scan encode decoded fits scan_frames
proof
  show "torn_for decoded bs \<Longrightarrow> scan_frames bs pos = ([], pos)" for bs pos
    by (auto simp: torn_eq [symmetric] torn_def scan_frames.simps [of bs])
  show "bs \<noteq> [] \<Longrightarrow> decoded bs = Some (r, n) \<Longrightarrow>
      scan_frames bs pos = (r # fst (scan_frames (drop n bs) (pos + n)), snd (scan_frames (drop n bs) (pos + n)))"
    for bs r n pos
    by (auto simp: decoded_def scan_frames.simps [of bs] split: sum.splits prod.splits)
qed (auto simp: decoded_def decode_encode decode_torn dest: decode_Inr split: sum.splits)

lemmas scan_frames_image = walf.scan_image [folded torn_eq frames_def]

lemma decode_segment_image:
  assumes "all_fit rs" and "torn junk"
  shows "decode_segment (segment rs @ junk) = (rs, length (segment rs))"
  using scan_frames_image [OF assms, of HEADER_LEN] by (simp add: decode_segment_def segment_def)

text \<open>A cut at an arbitrary byte falls within some frame.\<close>

lemma decode_segment_cut:
  assumes "all_fit rs" and "HEADER_LEN \<le> n"
  shows "\<exists>k \<le> length rs. decode_segment (take n (segment rs)) = (take k rs, length (segment (take k rs)))
    \<and> length (segment (take k rs)) \<le> n \<and> (k < length rs \<longrightarrow> n < length (segment (take (Suc k) rs)))"
proof -
  obtain k where k: "k \<le> length rs" "length (frames (take k rs)) \<le> n - HEADER_LEN"
    "scan_frames (take (n - HEADER_LEN) (frames rs)) HEADER_LEN = (take k rs, HEADER_LEN + length (frames (take k rs)))"
    "k < length rs \<longrightarrow> n - HEADER_LEN < length (frames (take (Suc k) rs))"
    using walf.scan_cut [OF assms(1), of "n - HEADER_LEN" HEADER_LEN] unfolding frames_def by blast
  have "take n (segment rs) = HEADER_MAGIC @ take (n - HEADER_LEN) (frames rs)"
    using assms(2) by (simp add: segment_def)
  then have "decode_segment (take n (segment rs)) = (take k rs, length (segment (take k rs)))"
    using k(3) by (simp add: decode_segment_def segment_def)
  then show ?thesis using k assms(2) by (intro exI [of _ k]) (auto simp: segment_def)
qed

text \<open>The records of any file are an image of a prefix of it.\<close>

lemmas scan_frames_sound = walf.scan_sound [folded torn_eq frames_def]

lemma decode_segment_sound:
  assumes "decode_segment bytes = (rs, n)" and "take HEADER_LEN bytes = HEADER_MAGIC"
  shows "all_fit rs" and "n = length (segment rs)" and "take n bytes = segment rs" and "n \<le> length bytes"
proof -
  have "length (take HEADER_LEN bytes) = HEADER_LEN" using assms(2) by simp
  then have "\<not> length bytes < HEADER_LEN" by (simp add: min_def split: if_splits)
  then have "scan_frames (drop HEADER_LEN bytes) HEADER_LEN = (rs, n)"
    using assms by (simp add: decode_segment_def)
  from scan_frames_sound [OF this] obtain junk where s: "all_fit rs"
    "n = HEADER_LEN + length (frames rs)" "drop HEADER_LEN bytes = frames rs @ junk" by blast
  then have "bytes = segment rs @ junk"
    using append_take_drop_id [of HEADER_LEN bytes] assms(2) by (simp add: segment_def)
  with s show "all_fit rs" "n = length (segment rs)" "take n bytes = segment rs" "n \<le> length bytes"
    by (simp_all add: segment_def)
qed

end
