(* ===== verification/Disk.thy ===== *)
theory Disk
  imports Segment
begin

text \<open>
  What \<open>src/wal.rs\<close> uses of \<open>std::fs\<close> and \<open>std::io\<close>: a directory with the names of the
  active and of the temporary segment, files that keep their content apart from the part
  of it that has reached stable storage, system calls that can fail or write less than
  asked, and \<open>BufWriter\<close> with the standard library's capacity of 8 KiB and its rules for
  full buffers and large writes.

  The outcome of each system call is the next event of a script, \<open>Good\<close> when the script
  is used up, so that a statement about every script covers every failure at every call.
  A crash at some point is a script that fails from that point on, followed by \<open>crash\<close>.

  The write-side fields of \<open>Wal\<close> and of its \<open>Inner\<close> are in the same record, after the
  disk's: they mean nothing until \<open>open\<close> has set them.
\<close>

section \<open>State\<close>

datatype io_error = InvalidInput | InvalidData | WriteZero | OtherIo

datatype io_event = Good | Short nat | Fail io_error

record inode =
  ino_data :: "u8 list"
  ino_synced :: nat                   \<comment> \<open>how many leading bytes survive a crash\<close>

record wal =
  fs_inodes :: "inode list"
  fs_active :: "nat option"           \<comment> \<open>what \<open>ACTIVE_SEGMENT\<close> names\<close>
  fs_temp :: "nat option"             \<comment> \<open>what \<open>TEMP_SEGMENT\<close> names\<close>
  fs_after_crash :: "nat option list" \<comment> \<open>what \<open>ACTIVE_SEGMENT\<close> may name after a crash\<close>
  fs_events :: "io_event list"
  wal_fsync :: bool
  wr_file :: nat                      \<comment> \<open>the file of \<open>Inner.writer\<close>\<close>
  wr_pos :: nat                       \<comment> \<open>its cursor\<close>
  wr_buf :: "u8 list"                 \<comment> \<open>bytes not yet handed to the file\<close>
  write_offset :: nat
  last_lsn :: lsn

type_synonym 'a io = "wal \<Rightarrow> (io_error + 'a) \<times> wal"

text \<open>The operator \<open>?\<close>.\<close>

definition try_io :: "'a io \<Rightarrow> ('a \<Rightarrow> 'b io) \<Rightarrow> 'b io" where
  "try_io m k w = (case m w of (Inl e, w') \<Rightarrow> (Inl e, w') | (Inr x, w') \<Rightarrow> k x w')"

section \<open>System calls\<close>

definition next_event :: "wal \<Rightarrow> io_event \<times> wal" where
  "next_event w = (case fs_events w of [] \<Rightarrow> (Good, w) | e # es \<Rightarrow> (e, w\<lparr>fs_events := es\<rparr>))"

text \<open>A call that does nothing but succeed or fail.\<close>

definition sys_call :: "unit io" where
  "sys_call w = (case next_event w of (Fail e, w') \<Rightarrow> (Inl e, w') | (_, w') \<Rightarrow> (Inr (), w'))"

definition data_of :: "wal \<Rightarrow> nat \<Rightarrow> u8 list" where
  "data_of w n = ino_data (fs_inodes w ! n)"

definition synced_of :: "wal \<Rightarrow> nat \<Rightarrow> nat" where
  "synced_of w n = ino_synced (fs_inodes w ! n)"

definition upd_inode :: "nat \<Rightarrow> (inode \<Rightarrow> inode) \<Rightarrow> wal \<Rightarrow> wal" where
  "upd_inode n f w = w\<lparr>fs_inodes := (fs_inodes w)[n := f (fs_inodes w ! n)]\<rparr>"

definition overwrite :: "nat \<Rightarrow> u8 list \<Rightarrow> u8 list \<Rightarrow> u8 list" where
  "overwrite pos bs data =
     take pos data @ replicate (pos - length data) 0 @ bs @ drop (pos + length bs) data"

definition put_bytes :: "nat \<Rightarrow> nat \<Rightarrow> u8 list \<Rightarrow> wal \<Rightarrow> wal" where
  "put_bytes n pos bs =
     upd_inode n (\<lambda>i. \<lparr>ino_data = overwrite pos bs (ino_data i),
                       ino_synced = min (ino_synced i) pos\<rparr>)"

text \<open>\<open>write\<close>: the number of bytes the file took.\<close>

definition sys_write :: "nat \<Rightarrow> nat \<Rightarrow> u8 list \<Rightarrow> nat io" where
  "sys_write n pos bs w =
     (case next_event w of
        (Fail e, w') \<Rightarrow> (Inl e, w')
      | (Short k, w') \<Rightarrow> (Inr (length (take k bs)), put_bytes n pos (take k bs) w')
      | (Good, w') \<Rightarrow> (Inr (length bs), put_bytes n pos bs w'))"

text \<open>\<open>Write::write_all\<close>, which also returns where it left the cursor.\<close>

function file_write_all :: "nat \<Rightarrow> nat \<Rightarrow> u8 list \<Rightarrow> wal \<Rightarrow> (io_error + unit) \<times> nat \<times> wal" where
  "file_write_all n pos bs w =
     (if bs = [] then (Inr (), pos, w)
      else case sys_write n pos bs w of
             (Inl e, w') \<Rightarrow> (Inl e, pos, w')
           | (Inr k, w') \<Rightarrow>
               (if k = 0 then (Inl WriteZero, pos, w')
                else file_write_all n (pos + k) (drop k bs) w'))"
  by pat_completeness auto
termination
  by (relation "measure (\<lambda>(n, pos, bs, w). length bs)") auto

declare file_write_all.simps [simp del]

definition sync_data :: "nat \<Rightarrow> unit io" where
  "sync_data n = try_io sys_call (\<lambda>_ w.
     (Inr (), upd_inode n (\<lambda>i. i\<lparr>ino_synced := length (ino_data i)\<rparr>) w))"

definition set_len :: "nat \<Rightarrow> nat \<Rightarrow> unit io" where
  "set_len n len = try_io sys_call (\<lambda>_ w.
     (Inr (), upd_inode n (\<lambda>i. \<lparr>ino_data = take len (ino_data i) @ replicate (len - length (ino_data i)) 0,
                                ino_synced = min (ino_synced i) len\<rparr>) w))"

text \<open>Opening the active segment without creating it; a missing file is an error.\<close>

definition open_active :: "nat io" where
  "open_active = try_io sys_call (\<lambda>_ w.
     (case fs_active w of None \<Rightarrow> Inl OtherIo | Some n \<Rightarrow> Inr n, w))"

text \<open>\<open>create(true)\<close> without truncation: a new file is empty, and its name is not stable.\<close>

definition create_active :: "nat io" where
  "create_active = try_io sys_call (\<lambda>_ w.
     (case fs_active w of
        Some n \<Rightarrow> (Inr n, w)
      | None \<Rightarrow>
          (let n = length (fs_inodes w) in
           (Inr n, w\<lparr>fs_inodes := fs_inodes w @ [\<lparr>ino_data = [], ino_synced = 0\<rparr>],
                     fs_active := Some n,
                     fs_after_crash := Some n # fs_after_crash w\<rparr>))))"

text \<open>\<open>create(true).truncate(true)\<close> on the temporary name.\<close>

definition create_temp :: "nat io" where
  "create_temp = try_io sys_call (\<lambda>_ w.
     (case fs_temp w of
        Some n \<Rightarrow> (Inr n, upd_inode n (\<lambda>i. \<lparr>ino_data = [], ino_synced = 0\<rparr>) w)
      | None \<Rightarrow>
          (let n = length (fs_inodes w) in
           (Inr n, w\<lparr>fs_inodes := fs_inodes w @ [\<lparr>ino_data = [], ino_synced = 0\<rparr>],
                     fs_temp := Some n\<rparr>))))"

definition rename_temp :: "unit io" where
  "rename_temp = try_io sys_call (\<lambda>_ w.
     (Inr (), w\<lparr>fs_active := fs_temp w, fs_temp := None,
                fs_after_crash := fs_temp w # fs_after_crash w\<rparr>))"

section \<open>\<open>BufWriter\<close>\<close>

definition BUF_CAPACITY :: nat where "BUF_CAPACITY = 8192"

text \<open>\<open>flush_buf\<close>: on an error the bytes that were not taken stay in the buffer.\<close>

definition bw_flush :: "unit io" where
  "bw_flush w =
     (case file_write_all (wr_file w) (wr_pos w) (wr_buf w) w of
        (r, pos, w') \<Rightarrow>
          (r, w'\<lparr>wr_pos := pos, wr_buf := drop (pos - wr_pos w) (wr_buf w)\<rparr>))"

text \<open>\<open>write_all\<close>: what does not fit flushes first, what is larger than the buffer goes
  straight to the file.\<close>

definition bw_write_all :: "u8 list \<Rightarrow> unit io" where
  "bw_write_all bs w =
     (let spare = BUF_CAPACITY - length (wr_buf w) in
      if length bs < spare then (Inr (), w\<lparr>wr_buf := wr_buf w @ bs\<rparr>)
      else try_io (\<lambda>w. if spare < length bs then bw_flush w else (Inr (), w)) (\<lambda>_ w.
        if BUF_CAPACITY \<le> length bs
        then (case file_write_all (wr_file w) (wr_pos w) bs w of
                (r, pos, w') \<Rightarrow> (r, w'\<lparr>wr_pos := pos\<rparr>))
        else (Inr (), w\<lparr>wr_buf := wr_buf w @ bs\<rparr>)) w)"

section \<open>Crash\<close>

text \<open>
  The machine restarts: the name points to one of the files it may point to, and of that
  file some length at least as long as the stable part is left.
\<close>

definition can_crash :: "wal \<Rightarrow> nat option \<Rightarrow> nat \<Rightarrow> bool" where
  "can_crash w a n \<longleftrightarrow> a \<in> set (fs_after_crash w)
     \<and> (\<forall>i. a = Some i \<longrightarrow> synced_of w i \<le> n \<and> n \<le> length (data_of w i))"

definition crash :: "nat option \<Rightarrow> nat \<Rightarrow> io_event list \<Rightarrow> wal \<Rightarrow> wal" where
  "crash a n events w =
     (let w' = w\<lparr>fs_active := a, fs_temp := None, fs_after_crash := [a], fs_events := events\<rparr> in
      case a of
        None \<Rightarrow> w'
      | Some i \<Rightarrow> upd_inode i (\<lambda>f. \<lparr>ino_data = take n (ino_data f), ino_synced = n\<rparr>) w')"

section \<open>Running the operations\<close>

lemma try_io_Inr:
  "try_io m k w = (Inr y, w') \<longleftrightarrow> (\<exists>x w1. m w = (Inr x, w1) \<and> k x w1 = (Inr y, w'))"
  by (auto simp: try_io_def split: prod.splits sum.splits)

lemma try_io_Inl:
  "try_io m k w = (Inl e, w') \<longleftrightarrow>
     m w = (Inl e, w') \<or> (\<exists>x w1. m w = (Inr x, w1) \<and> k x w1 = (Inl e, w'))"
  by (auto simp: try_io_def split: prod.splits sum.splits)

lemma next_event_events: obtains event ev where "next_event w = (event, w\<lparr>fs_events := ev\<rparr>)"
proof (cases "fs_events w")
  case Nil
  then have "w\<lparr>fs_events := []\<rparr> = w" by (metis wal.surjective wal.update_convs(5))
  then show ?thesis using Nil that [of Good "[]"] by (simp add: next_event_def)
next
  case (Cons e es)
  then show ?thesis using that [of e es] by (simp add: next_event_def)
qed

lemma sys_call_events:
  assumes "sys_call w = (r, w')"
  obtains ev where "w' = w\<lparr>fs_events := ev\<rparr>"
proof -
  obtain event ev where "next_event w = (event, w\<lparr>fs_events := ev\<rparr>)" by (rule next_event_events)
  with assms that show ?thesis by (auto simp: sys_call_def split: io_event.splits)
qed

lemma event_simps [simp]:
  "data_of (w\<lparr>fs_events := ev\<rparr>) = data_of w" "synced_of (w\<lparr>fs_events := ev\<rparr>) = synced_of w"
  "data_of (w\<lparr>fs_active := a\<rparr>) = data_of w" "synced_of (w\<lparr>fs_active := a\<rparr>) = synced_of w"
  "data_of (w\<lparr>fs_temp := a\<rparr>) = data_of w" "synced_of (w\<lparr>fs_temp := a\<rparr>) = synced_of w"
  by (auto simp: data_of_def synced_of_def)

lemma upd_inode_simps [simp]:
  "fs_active (upd_inode n f w) = fs_active w" "fs_temp (upd_inode n f w) = fs_temp w"
  "fs_after_crash (upd_inode n f w) = fs_after_crash w" "fs_events (upd_inode n f w) = fs_events w"
  "wal_fsync (upd_inode n f w) = wal_fsync w" "wr_file (upd_inode n f w) = wr_file w"
  "wr_pos (upd_inode n f w) = wr_pos w" "wr_buf (upd_inode n f w) = wr_buf w"
  "write_offset (upd_inode n f w) = write_offset w" "last_lsn (upd_inode n f w) = last_lsn w"
  "length (fs_inodes (upd_inode n f w)) = length (fs_inodes w)"
  by (simp_all add: upd_inode_def)

lemma data_of_upd:
  "n < length (fs_inodes w) \<Longrightarrow>
    data_of (upd_inode n f w) m = (if m = n then ino_data (f (fs_inodes w ! n)) else data_of w m)"
  by (auto simp: data_of_def upd_inode_def)

lemma synced_of_upd:
  "n < length (fs_inodes w) \<Longrightarrow>
    synced_of (upd_inode n f w) m = (if m = n then ino_synced (f (fs_inodes w ! n)) else synced_of w m)"
  by (auto simp: synced_of_def upd_inode_def)

text \<open>
  What a sequence of calls establishes: from a state with \<open>P\<close> it ends with \<open>Q\<close> of the
  result, or, when some call fails, with \<open>E\<close>.
\<close>

definition runs :: "(wal \<Rightarrow> bool) \<Rightarrow> 'a io \<Rightarrow> ('a \<Rightarrow> wal \<Rightarrow> bool) \<Rightarrow> (wal \<Rightarrow> bool) \<Rightarrow> bool" where
  "runs P m Q E \<longleftrightarrow> (\<forall>w r w'. P w \<longrightarrow> m w = (r, w') \<longrightarrow>
     (case r of Inr x \<Rightarrow> Q x w' | Inl e \<Rightarrow> E w'))"

lemma runsI: "(\<And>w r w'. P w \<Longrightarrow> m w = (r, w') \<Longrightarrow> case r of Inr x \<Rightarrow> Q x w' | Inl e \<Rightarrow> E w')
    \<Longrightarrow> runs P m Q E"
  by (simp add: runs_def)

lemma runs_Inr: "runs P m Q E \<Longrightarrow> P w \<Longrightarrow> m w = (Inr x, w') \<Longrightarrow> Q x w'"
  by (fastforce simp: runs_def)

lemma runs_Inl: "runs P m Q E \<Longrightarrow> P w \<Longrightarrow> m w = (Inl e, w') \<Longrightarrow> E w'"
  by (fastforce simp: runs_def)

lemma runs_try:
  assumes "runs P m Q E" and "\<And>x. runs (Q x) (k x) R E"
  shows "runs P (try_io m k) R E"
proof (rule runsI)
  fix w r w' assume P: "P w" and run: "try_io m k w = (r, w')"
  obtain r1 w1 where m: "m w = (r1, w1)" by fastforce
  show "case r of Inr x \<Rightarrow> R x w' | Inl e \<Rightarrow> E w'"
  proof (cases r1)
    case (Inl e)
    then show ?thesis using runs_Inl [OF assms(1) P] m run by (auto simp: try_io_def)
  next
    case (Inr x)
    then have "Q x w1" using runs_Inr [OF assms(1) P] m by simp
    then show ?thesis using assms(2) [of x] m run Inr by (auto simp: try_io_def runs_def)
  qed
qed

lemma runs_pure: "(\<And>w. P w \<Longrightarrow> Q x (f w)) \<Longrightarrow> runs P (\<lambda>w. (Inr x, f w)) Q E"
  by (simp add: runs_def)

lemma runs_call:
  assumes "\<And>w ev. P w \<Longrightarrow> P (w\<lparr>fs_events := ev\<rparr>)" and "\<And>w. P w \<Longrightarrow> E w"
  shows "runs P sys_call (\<lambda>_. P) E"
proof (rule runsI)
  fix w r w' assume P: "P w" and run: "sys_call w = (r, w')"
  obtain ev where "w' = w\<lparr>fs_events := ev\<rparr>" using sys_call_events [OF run] .
  then show "case r of Inr x \<Rightarrow> P w' | Inl e \<Rightarrow> E w'" using assms P by (auto split: sum.split)
qed

lemma runs_weaken:
  assumes "runs P' m Q' E'" and "\<And>w. P w \<Longrightarrow> P' w" and "\<And>x w. Q' x w \<Longrightarrow> Q x w"
    and "\<And>w. E' w \<Longrightarrow> E w"
  shows "runs P m Q E"
  using assms by (fastforce simp: runs_def split: sum.splits)

section \<open>Appending to a file\<close>

text \<open>
  What writing at the end of a file can do, whatever the script: the file gains a prefix
  of the bytes, all of them exactly when the call succeeds, and nothing else changes.
\<close>

definition grow_file :: "nat \<Rightarrow> u8 list \<Rightarrow> io_event list \<Rightarrow> wal \<Rightarrow> wal" where
  "grow_file n bs ev w =
     upd_inode n (\<lambda>i. \<lparr>ino_data = ino_data i @ bs, ino_synced = ino_synced i\<rparr>) (w\<lparr>fs_events := ev\<rparr>)"

lemma grow_file_Nil: "grow_file n [] ev w = w\<lparr>fs_events := ev\<rparr>"
proof -
  have eq: "\<lparr>ino_data = ino_data i, ino_synced = ino_synced i\<rparr> = i" for i :: inode by simp
  show ?thesis unfolding grow_file_def upd_inode_def append_Nil2 eq list_update_id by simp
qed

lemma grow_file_grow_file:
  "n < length (fs_inodes w) \<Longrightarrow> grow_file n bs' ev' (grow_file n bs ev w) = grow_file n (bs @ bs') ev' w"
  by (simp add: grow_file_def upd_inode_def)

lemma grow_file_simps [simp]:
  "fs_active (grow_file n bs ev w) = fs_active w" "fs_temp (grow_file n bs ev w) = fs_temp w"
  "fs_after_crash (grow_file n bs ev w) = fs_after_crash w" "fs_events (grow_file n bs ev w) = ev"
  "wal_fsync (grow_file n bs ev w) = wal_fsync w" "wr_file (grow_file n bs ev w) = wr_file w"
  "wr_pos (grow_file n bs ev w) = wr_pos w" "wr_buf (grow_file n bs ev w) = wr_buf w"
  "write_offset (grow_file n bs ev w) = write_offset w" "last_lsn (grow_file n bs ev w) = last_lsn w"
  "length (fs_inodes (grow_file n bs ev w)) = length (fs_inodes w)"
  by (simp_all add: grow_file_def)

lemma data_of_grow_file:
  "n < length (fs_inodes w) \<Longrightarrow>
    data_of (grow_file n bs ev w) m = (if m = n then data_of w n @ bs else data_of w m)"
  by (auto simp: grow_file_def data_of_def upd_inode_def)

lemma synced_of_grow_file:
  "n < length (fs_inodes w) \<Longrightarrow> synced_of (grow_file n bs ev w) m = synced_of w m"
  by (auto simp: grow_file_def synced_of_def upd_inode_def nth_list_update)

lemma put_bytes_end:
  assumes "pos = length (data_of w n)" and "synced_of w n \<le> pos"
  shows "put_bytes n pos bs (w\<lparr>fs_events := ev\<rparr>) = grow_file n bs ev w"
  using assms by (simp add: put_bytes_def grow_file_def upd_inode_def overwrite_def data_of_def synced_of_def)

lemma sys_write_end:
  assumes "sys_write n pos bs w = (r, w')"
    and "pos = length (data_of w n)" and "synced_of w n \<le> pos"
  shows "(\<exists>e ev. r = Inl e \<and> w' = grow_file n [] ev w)
    \<or> (\<exists>k ev. k \<le> length bs \<and> r = Inr k \<and> w' = grow_file n (take k bs) ev w)"
proof -
  obtain event ev where n: "next_event w = (event, w\<lparr>fs_events := ev\<rparr>)"
    by (rule next_event_events)
  note p = put_bytes_end [OF assms(2,3)]
  show ?thesis
  proof (cases event)
    case (Short k)
    then show ?thesis using assms(1) n p
      by (intro disjI2 exI [of _ "length (take k bs)"] exI [of _ ev])
        (auto simp: sys_write_def min_def)
  qed (use assms(1) n p in \<open>auto simp: sys_write_def grow_file_Nil\<close>)
qed

lemma file_write_all_end:
  "file_write_all n pos bs w = (r, pos', w') \<Longrightarrow> n < length (fs_inodes w) \<Longrightarrow>
    pos = length (data_of w n) \<Longrightarrow> synced_of w n \<le> pos \<Longrightarrow>
    \<exists>k ev. k \<le> length bs \<and> pos' = pos + k \<and> w' = grow_file n (take k bs) ev w
      \<and> (r = Inr () \<longleftrightarrow> k = length bs)"
proof (induction n pos bs w rule: file_write_all.induct)
  case (1 n pos bs w)
  show ?case
  proof (cases "bs = []")
    case True
    then show ?thesis
      using "1.prems"(1) by (auto simp: file_write_all.simps [of n pos "[]"] grow_file_Nil intro!: exI [of _ "fs_events w"])
  next
    case False
    obtain r1 w1 where s: "sys_write n pos bs w = (r1, w1)" by fastforce
    from sys_write_end [OF s "1.prems"(3,4)] show ?thesis
    proof (elim disjE exE conjE)
      fix e ev assume "r1 = Inl e" "w1 = grow_file n [] ev w"
      then show ?thesis
        using "1.prems"(1) s False by (intro exI [of _ 0] exI [of _ ev])
          (auto simp: file_write_all.simps [of n pos bs])
    next
      fix k ev assume k: "k \<le> length bs" "r1 = Inr k" "w1 = grow_file n (take k bs) ev w"
      show ?thesis
      proof (cases "k = 0")
        case True
        then show ?thesis
          using "1.prems"(1) s False k by (intro exI [of _ 0] exI [of _ ev])
            (auto simp: file_write_all.simps [of n pos bs])
      next
        case nz: False
        then have rec: "file_write_all n (pos + k) (drop k bs) w1 = (r, pos', w')"
          using "1.prems"(1) s False k by (simp add: file_write_all.simps [of n pos bs])
        have "\<exists>j ev'. j \<le> length (drop k bs) \<and> pos' = pos + k + j
            \<and> w' = grow_file n (take j (drop k bs)) ev' w1 \<and> (r = Inr () \<longleftrightarrow> j = length (drop k bs))"
          using "1.prems"(2-4) k nz
          by (intro "1.IH" [OF False s [symmetric] k(2) nz rec])
            (simp_all add: data_of_grow_file synced_of_grow_file)
        then obtain j ev' where "j \<le> length (drop k bs)" "pos' = pos + k + j"
          "w' = grow_file n (take j (drop k bs)) ev' w1" "r = Inr () \<longleftrightarrow> j = length (drop k bs)"
          by blast
        then show ?thesis
          using k "1.prems"(2)
          by (intro exI [of _ "k + j"] exI [of _ ev']) (auto simp: grow_file_grow_file take_add)
      qed
    qed
  qed
qed

section \<open>The buffered writer\<close>

definition writer_ok :: "wal \<Rightarrow> bool" where
  "writer_ok w \<longleftrightarrow> wr_file w < length (fs_inodes w) \<and> wr_pos w = length (data_of w (wr_file w))
     \<and> synced_of w (wr_file w) \<le> wr_pos w"

text \<open>What the writer has been given, on the file and in the buffer.\<close>

definition content :: "wal \<Rightarrow> u8 list" where
  "content w = data_of w (wr_file w) @ wr_buf w"

text \<open>The writer accepted \<open>x\<close>; some bytes went from the buffer to the end of the file.\<close>

definition accepts :: "u8 list \<Rightarrow> wal \<Rightarrow> wal \<Rightarrow> bool" where
  "accepts x w w' \<longleftrightarrow> (\<exists>j ev buf. j @ buf = wr_buf w @ x
     \<and> w' = (grow_file (wr_file w) j ev w)\<lparr>wr_pos := wr_pos w + length j, wr_buf := buf\<rparr>)"

lemma wr_update_simps [simp]:
  "data_of (w\<lparr>wr_pos := p\<rparr>) = data_of w" "data_of (w\<lparr>wr_buf := b\<rparr>) = data_of w"
  "synced_of (w\<lparr>wr_pos := p\<rparr>) = synced_of w" "synced_of (w\<lparr>wr_buf := b\<rparr>) = synced_of w"
  "grow_file n x ev (w\<lparr>wr_pos := p\<rparr>) = (grow_file n x ev w)\<lparr>wr_pos := p\<rparr>"
  "grow_file n x ev (w\<lparr>wr_buf := b\<rparr>) = (grow_file n x ev w)\<lparr>wr_buf := b\<rparr>"
  by (auto simp: data_of_def synced_of_def grow_file_def upd_inode_def)

lemma accepts_trans:
  assumes "accepts x w w1" and "accepts y w1 w2" and "wr_file w < length (fs_inodes w)"
  shows "accepts (x @ y) w w2"
proof -
  obtain j ev buf where 1: "j @ buf = wr_buf w @ x"
    "w1 = (grow_file (wr_file w) j ev w)\<lparr>wr_pos := wr_pos w + length j, wr_buf := buf\<rparr>"
    using assms(1) by (auto simp: accepts_def)
  obtain j' ev' buf' where 2: "j' @ buf' = wr_buf w1 @ y"
    "w2 = (grow_file (wr_file w1) j' ev' w1)\<lparr>wr_pos := wr_pos w1 + length j', wr_buf := buf'\<rparr>"
    using assms(2) by (auto simp: accepts_def)
  have "(j @ j') @ buf' = wr_buf w @ x @ y" using 1 2(1) by simp
  moreover have "w2 = (grow_file (wr_file w) (j @ j') ev' w)
      \<lparr>wr_pos := wr_pos w + length (j @ j'), wr_buf := buf'\<rparr>"
    using assms(3) by (simp add: 2(2) 1(2) grow_file_grow_file add.assoc)
  ultimately show ?thesis unfolding accepts_def by blast
qed

lemma accepts_facts:
  assumes "accepts x w w'"
  shows "wr_file w' = wr_file w" "fs_active w' = fs_active w" "fs_temp w' = fs_temp w"
    "fs_after_crash w' = fs_after_crash w" "wal_fsync w' = wal_fsync w"
    "write_offset w' = write_offset w" "last_lsn w' = last_lsn w"
    "length (fs_inodes w') = length (fs_inodes w)"
  using assms by (auto simp: accepts_def)

lemma accepts_content:
  assumes "accepts x w w'" and "writer_ok w"
  shows "content w' = content w @ x" and "writer_ok w'"
    and "synced_of w' = synced_of w" and "m \<noteq> wr_file w \<Longrightarrow> data_of w' m = data_of w m"
    and "length (data_of w (wr_file w)) \<le> length (data_of w' (wr_file w))"
  using assms
  by (auto simp: accepts_def content_def writer_ok_def data_of_grow_file synced_of_grow_file fun_eq_iff)

lemma accepts_refl: "accepts [] w w"
proof -
  have "w = (grow_file (wr_file w) [] (fs_events w) w)\<lparr>wr_pos := wr_pos w + length [], wr_buf := wr_buf w\<rparr>"
    by (simp add: grow_file_Nil)
  then show ?thesis unfolding accepts_def by (metis append_Nil append_Nil2)
qed

lemma accepts_buffer: "accepts bs w (w\<lparr>wr_buf := wr_buf w @ bs\<rparr>)"
proof -
  have "w\<lparr>wr_buf := wr_buf w @ bs\<rparr> =
    (grow_file (wr_file w) [] (fs_events w) w)\<lparr>wr_pos := wr_pos w + length [], wr_buf := wr_buf w @ bs\<rparr>"
    by (simp add: grow_file_Nil)
  then show ?thesis unfolding accepts_def by (metis append_Nil)
qed

lemma bw_flush_accepts:
  assumes "writer_ok w" and "bw_flush w = (r, w')"
  shows "accepts [] w w'" and "r = Inr () \<Longrightarrow> wr_buf w' = []"
proof -
  obtain pos w1 where f: "file_write_all (wr_file w) (wr_pos w) (wr_buf w) w = (r, pos, w1)"
    and w': "w' = w1\<lparr>wr_pos := pos, wr_buf := drop (pos - wr_pos w) (wr_buf w)\<rparr>"
    using assms(2) by (auto simp: bw_flush_def split: prod.splits)
  obtain k ev where k: "k \<le> length (wr_buf w)" "pos = wr_pos w + k"
    "w1 = grow_file (wr_file w) (take k (wr_buf w)) ev w" "r = Inr () \<longleftrightarrow> k = length (wr_buf w)"
    using file_write_all_end [OF f] assms(1) by (auto simp: writer_ok_def)
  have "w' = (grow_file (wr_file w) (take k (wr_buf w)) ev w)
      \<lparr>wr_pos := wr_pos w + length (take k (wr_buf w)), wr_buf := drop k (wr_buf w)\<rparr>"
    using k by (simp add: w')
  then show "accepts [] w w'" unfolding accepts_def by (metis append_Nil2 append_take_drop_id)
  show "r = Inr () \<Longrightarrow> wr_buf w' = []" using k by (simp add: w')
qed

text \<open>A failed write of less than the buffer's capacity leaves nothing of it behind.\<close>

lemma bw_write_all_accepts:
  assumes "writer_ok w" and "bw_write_all bs w = (r, w')"
  shows "r = Inr () \<Longrightarrow> accepts bs w w'"
    and "r = Inl e \<Longrightarrow> length bs < BUF_CAPACITY \<Longrightarrow> accepts [] w w'"
proof -
  let ?spare = "BUF_CAPACITY - length (wr_buf w)"
  consider (buffer) "length bs < ?spare" | (flush) "\<not> length bs < ?spare" by blast
  then have "(r = Inr () \<longrightarrow> accepts bs w w')
      \<and> (r = Inl e \<longrightarrow> length bs < BUF_CAPACITY \<longrightarrow> accepts [] w w')"
  proof cases
    case buffer
    then show ?thesis using assms(2) accepts_buffer by (auto simp: bw_write_all_def)
  next
    case flush
    obtain r1 w1 where r1: "(if ?spare < length bs then bw_flush w else (Inr (), w)) = (r1, w1)"
      by fastforce
    have acc: "accepts [] w w1"
      using r1 bw_flush_accepts(1) [OF assms(1)] accepts_refl by (auto split: if_splits)
    note ok1 = accepts_content(2) [OF acc assms(1)]
    show ?thesis
    proof (cases r1)
      case (Inl e1)
      then have "r = Inl e1" "w' = w1"
        using assms(2) flush r1 by (auto simp: bw_write_all_def try_io_def)
      then show ?thesis using acc by simp
    next
      case (Inr u)
      show ?thesis
      proof (cases "BUF_CAPACITY \<le> length bs")
        case False
        then have "r = Inr ()" "w' = w1\<lparr>wr_buf := wr_buf w1 @ bs\<rparr>"
          using assms(2) flush r1 Inr by (auto simp: bw_write_all_def try_io_def)
        then show ?thesis
          using accepts_trans [OF acc accepts_buffer] assms(1) by (simp add: writer_ok_def)
      next
        case True
        obtain r2 pos w2 where f: "file_write_all (wr_file w1) (wr_pos w1) bs w1 = (r2, pos, w2)"
          by (metis prod_cases3)
        then have res: "r = r2" "w' = w2\<lparr>wr_pos := pos\<rparr>"
          using assms(2) flush r1 Inr True by (auto simp: bw_write_all_def try_io_def)
        have empty: "wr_buf w1 = []"
        proof (cases "?spare < length bs")
          case True
          then show ?thesis using r1 Inr bw_flush_accepts(2) [OF assms(1)] by (cases u) simp
        next
          case False
          then have "BUF_CAPACITY \<le> ?spare" using True flush by linarith
          then have "length (wr_buf w) = 0" unfolding BUF_CAPACITY_def by linarith
          then show ?thesis using r1 False by simp
        qed
        obtain k ev where k: "pos = wr_pos w1 + k" "w2 = grow_file (wr_file w1) (take k bs) ev w1"
          "r2 = Inr () \<longleftrightarrow> k = length bs"
          using file_write_all_end [OF f] ok1 by (auto simp: writer_ok_def)
        have "accepts bs w1 w'" if "r2 = Inr ()"
          unfolding accepts_def using that k res empty
          by (intro exI [of _ bs] exI [of _ ev] exI [of _ "[]"]) simp
        then show ?thesis
          using True res accepts_trans [OF acc] assms(1) by (auto simp: writer_ok_def)
      qed
    qed
  qed
  then show "r = Inr () \<Longrightarrow> accepts bs w w'"
    and "r = Inl e \<Longrightarrow> length bs < BUF_CAPACITY \<Longrightarrow> accepts [] w w'" by auto
qed

section \<open>Without failures\<close>

text \<open>Once the script is used up every call succeeds.\<close>

lemma try_io_quiet: "m w = (Inr x, w1) \<Longrightarrow> try_io m k w = k x w1"
  by (simp add: try_io_def)

lemma sys_call_quiet: "fs_events w = [] \<Longrightarrow> sys_call w = (Inr (), w)"
  by (simp add: sys_call_def next_event_def)

lemma file_write_all_quiet:
  "fs_events w = [] \<Longrightarrow> bs \<noteq> [] \<Longrightarrow>
    file_write_all n pos bs w = (Inr (), pos + length bs, put_bytes n pos bs w)"
  by (simp add: file_write_all.simps sys_write_def next_event_def)

lemma put_bytes_events: "fs_events (put_bytes n pos bs w) = fs_events w"
  "fs_active (put_bytes n pos bs w) = fs_active w"
  by (simp_all add: put_bytes_def)

lemma bw_flush_quiet:
  assumes "fs_events w = []"
  shows "\<exists>w'. bw_flush w = (Inr (), w') \<and> fs_events w' = [] \<and> fs_active w' = fs_active w
    \<and> wal_fsync w' = wal_fsync w"
proof (cases "wr_buf w = []")
  case True
  then show ?thesis using assms by (simp add: bw_flush_def file_write_all.simps)
next
  case False
  then show ?thesis
    using assms by (simp add: bw_flush_def file_write_all_quiet put_bytes_events) (simp add: put_bytes_def)
qed

lemma bw_write_all_quiet:
  assumes "fs_events w = []" and "bs \<noteq> []"
  shows "\<exists>w'. bw_write_all bs w = (Inr (), w') \<and> fs_events w' = [] \<and> fs_active w' = fs_active w"
proof -
  obtain w1 where "bw_flush w = (Inr (), w1)" "fs_events w1 = []" "fs_active w1 = fs_active w"
    using bw_flush_quiet [OF assms(1)] by blast
  then show ?thesis
    using assms file_write_all_quiet [of w bs] file_write_all_quiet [of w1 bs]
    by (auto simp: bw_write_all_def Let_def try_io_def put_bytes_events)
qed

lemma sync_data_quiet:
  "fs_events w = [] \<Longrightarrow>
    sync_data n w = (Inr (), upd_inode n (\<lambda>i. i\<lparr>ino_synced := length (ino_data i)\<rparr>) w)"
  by (simp add: sync_data_def try_io_quiet sys_call_quiet)

end
