(* ===== verification/Wal.thy ===== *)
theory Wal
  imports Disk Traits
begin

text \<open>
  \<open>src/wal.rs\<close>: \<open>open\<close>, \<open>append_batch\<close>, \<open>checkpoint\<close>, \<open>recover\<close> and \<open>flush\<close> over the
  disk of the theory \<open>Disk\<close>, each with every early return of the source.  The mutex makes
  each of them one step.  The lemmas follow the content of the active segment, on disk and
  in the write buffer, through successful and failing runs and through a crash.
\<close>

section \<open>Operations\<close>

definition write_header :: "nat \<Rightarrow> unit io" where
  "write_header n w = (case file_write_all n 0 HEADER_MAGIC w of (r, _, w') \<Rightarrow> (r, w'))"

text \<open>The first half of \<open>open\<close>: establish or verify the file header.\<close>

definition check_header :: "nat \<Rightarrow> nat io" where
  "check_header n =
     try_io sys_call (\<lambda>_ w.                                        \<comment> \<open>metadata\<close>
       let existing_len = length (data_of w n) in
       if existing_len < HEADER_LEN then
         try_io sys_call (\<lambda>_.                                      \<comment> \<open>seek\<close>
           try_io (write_header n) (\<lambda>_.
             try_io (sync_data n) (\<lambda>_ w. (Inr HEADER_LEN, w)))) w
       else
         try_io sys_call (\<lambda>_.                                      \<comment> \<open>seek\<close>
           try_io sys_call (\<lambda>_ w.                                  \<comment> \<open>read_exact\<close>
             if take HEADER_LEN (data_of w n) \<noteq> HEADER_MAGIC then (Inl InvalidData, w)
             else (Inr existing_len, w))) w)"

definition wal_open :: "bool \<Rightarrow> unit io" where
  "wal_open fsync =
     try_io sys_call (\<lambda>_.                                          \<comment> \<open>create_dir_all\<close>
       try_io create_active (\<lambda>n.
         try_io (check_header n) (\<lambda>offset.
           try_io sys_call (\<lambda>_ w.                                  \<comment> \<open>seek\<close>
             (Inr (), w\<lparr>wal_fsync := fsync, wr_file := n, wr_pos := offset, wr_buf := [],
                        write_offset := offset, last_lsn := 0\<rparr>)))))"

text \<open>An unsupported directory sync is not an error.\<close>

definition benign :: "unit io \<Rightarrow> (unit \<Rightarrow> unit io) \<Rightarrow> unit io" where
  "benign m k w =
     (case m w of
        (Inr u, w') \<Rightarrow> k u w'
      | (Inl InvalidInput, w') \<Rightarrow> (Inr (), w')
      | (Inl e, w') \<Rightarrow> (Inl e, w'))"

definition sync_dir :: "unit io" where
  "sync_dir =
     benign sys_call (\<lambda>_.                                          \<comment> \<open>File::open\<close>
       benign sys_call (\<lambda>_ w.                                      \<comment> \<open>sync_all\<close>
         (Inr (), w\<lparr>fs_after_crash := [fs_active w]\<rparr>)))"

text \<open>Step 1 of \<open>append_batch\<close>: the frames, the bytes they take and the highest LSN.\<close>

fun write_frames :: "wal_record list \<Rightarrow> nat \<Rightarrow> lsn \<Rightarrow> (nat \<times> lsn) io" where
  "write_frames [] bytes_written high_lsn w = (Inr (bytes_written, high_lsn), w)"
| "write_frames (r # rs) bytes_written high_lsn w =
     try_io (bw_write_all (encode r)) (\<lambda>_.
       write_frames rs (bytes_written + length (encode r))
         (if high_lsn < wal_lsn r then wal_lsn r else high_lsn)) w"

definition append_batch :: "wal_record list \<Rightarrow> lsn io" where
  "append_batch records w =
     (if records = [] then (Inr (last_lsn w), w)
      else
        try_io (write_frames records 0 (last_lsn w)) (\<lambda>(bytes_written, high_lsn).
          try_io bw_flush (\<lambda>_.
            try_io (\<lambda>w. if wal_fsync w then sync_data (wr_file w) w else (Inr (), w)) (\<lambda>_ w.
              (Inr high_lsn, w\<lparr>write_offset := write_offset w + bytes_written,
                               last_lsn := high_lsn\<rparr>)))) w)"

definition read_all :: "(u8 list) io" where
  "read_all = try_io open_active (\<lambda>n. try_io sys_call (\<lambda>_ w. (Inr (data_of w n), w)))"

fun write_survivors :: "nat \<Rightarrow> wal_record list \<Rightarrow> nat \<Rightarrow> nat io" where
  "write_survivors n [] offset w = (Inr offset, w)"
| "write_survivors n (r # rs) offset w =
     (case file_write_all n offset (encode r) w of
        (Inl e, _, w') \<Rightarrow> (Inl e, w')
      | (Inr u, _, w') \<Rightarrow> write_survivors n rs (offset + length (encode r)) w')"

text \<open>Steps 2 and 3 of \<open>checkpoint\<close>.\<close>

definition write_temp :: "wal_record list \<Rightarrow> nat io" where
  "write_temp survivors =
     try_io create_temp (\<lambda>n.
       try_io (write_header n) (\<lambda>_.
         try_io (write_survivors n survivors HEADER_LEN) (\<lambda>offset.
           try_io (sync_data n) (\<lambda>_ w. (Inr offset, w)))))"

definition max_lsn :: "wal_record list \<Rightarrow> lsn option" where
  "max_lsn rs = (if rs = [] then None else Some (Max (set (map wal_lsn rs))))"

definition checkpoint :: "lsn \<Rightarrow> unit io" where
  "checkpoint up_to_lsn =
     try_io bw_flush (\<lambda>_.
       try_io read_all (\<lambda>bytes.
         let survivors = filter (\<lambda>r. up_to_lsn < wal_lsn r) (fst (decode_segment bytes)) in
         try_io (write_temp survivors) (\<lambda>new_offset.
           try_io rename_temp (\<lambda>_.
             try_io sync_dir (\<lambda>_.
               try_io open_active (\<lambda>n.
                 try_io sys_call (\<lambda>_ w.                            \<comment> \<open>seek\<close>
                   (Inr (), w\<lparr>wr_file := n, wr_pos := new_offset, wr_buf := [],
                              write_offset := new_offset,
                              last_lsn := max (case max_lsn survivors of
                                                 None \<Rightarrow> up_to_lsn | Some l \<Rightarrow> l) up_to_lsn\<rparr>))))))))"

text \<open>What \<open>recover\<close> does when something follows the last good frame.\<close>

definition cut_tail :: "nat \<Rightarrow> unit io" where
  "cut_tail good_end =
     try_io open_active (\<lambda>n.
       try_io (set_len n good_end) (\<lambda>_.
         try_io (sync_data n) (\<lambda>_.
           try_io sync_dir (\<lambda>_.
             try_io open_active (\<lambda>m.
               try_io sys_call (\<lambda>_ w.                              \<comment> \<open>seek\<close>
                 (Inr (), w\<lparr>wr_file := m, wr_pos := good_end, wr_buf := []\<rparr>)))))))"

definition recover :: "(wal_record list) io" where
  "recover =
     try_io bw_flush (\<lambda>_.
       try_io read_all (\<lambda>bytes.
         let (records, good_end) = decode_segment bytes in
         try_io (\<lambda>w. if good_end < length bytes then cut_tail good_end w else (Inr (), w)) (\<lambda>_ w.
           (Inr records, w\<lparr>write_offset := good_end,
                           last_lsn := (case max_lsn records of None \<Rightarrow> 0 | Some l \<Rightarrow> l)\<rparr>))))"

definition wal_flush :: "unit io" where
  "wal_flush = try_io bw_flush (\<lambda>_. try_io (\<lambda>w. sync_data (wr_file w) w) (\<lambda>_ w. (Inr (), w)))"

text \<open>An empty directory.\<close>

definition empty_dir :: "io_event list \<Rightarrow> wal" where
  "empty_dir events =
     \<lparr>fs_inodes = [], fs_active = None, fs_temp = None, fs_after_crash = [None],
      fs_events = events, wal_fsync = False, wr_file = 0, wr_pos = 0, wr_buf = [],
      write_offset = 0, last_lsn = 0\<rparr>"

section \<open>Invariant\<close>

definition disk_ok :: "wal \<Rightarrow> bool" where
  "disk_ok w \<longleftrightarrow> fs_active w \<in> set (fs_after_crash w)
     \<and> (\<forall>i. Some i \<in> set (fs_after_crash w) \<longrightarrow>
          i < length (fs_inodes w) \<and> fs_temp w \<noteq> Some i \<and> synced_of w i \<le> length (data_of w i))
     \<and> (\<forall>t. fs_temp w = Some t \<longrightarrow> t < length (fs_inodes w))"

text \<open>The log holds the records \<open>rs\<close>: they are the active segment and the buffer.\<close>

definition wal_holds :: "wal_record list \<Rightarrow> wal \<Rightarrow> bool" where
  "wal_holds rs w \<longleftrightarrow> disk_ok w \<and> writer_ok w \<and> fs_active w = Some (wr_file w)
     \<and> all_fit rs \<and> content w = segment rs"

lemma disk_ok_events [simp]: "disk_ok (w\<lparr>fs_events := ev\<rparr>) = disk_ok w"
  by (simp add: disk_ok_def)

lemma disk_ok_process [simp]:
  "disk_ok (w\<lparr>write_offset := x\<rparr>) = disk_ok w" "disk_ok (w\<lparr>last_lsn := l\<rparr>) = disk_ok w"
  "data_of (w\<lparr>write_offset := x\<rparr>) = data_of w" "data_of (w\<lparr>last_lsn := l\<rparr>) = data_of w"
  "synced_of (w\<lparr>write_offset := x\<rparr>) = synced_of w" "synced_of (w\<lparr>last_lsn := l\<rparr>) = synced_of w"
  by (auto simp: disk_ok_def data_of_def synced_of_def)

lemma wal_holds_events [simp]: "wal_holds rs (w\<lparr>fs_events := ev\<rparr>) = wal_holds rs w"
  by (simp add: wal_holds_def writer_ok_def content_def)

lemma wal_holds_process [simp]:
  "wal_holds rs (w\<lparr>write_offset := x\<rparr>) = wal_holds rs w"
  "wal_holds rs (w\<lparr>last_lsn := l\<rparr>) = wal_holds rs w"
  by (simp_all add: wal_holds_def writer_ok_def content_def)

lemma accepts_disk_ok:
  assumes "accepts x w w'" and "writer_ok w" and "disk_ok w"
  shows "disk_ok w'"
proof -
  have "length (data_of w i) \<le> length (data_of w' i)" for i
    using accepts_content(4) [OF assms(1,2), of i] accepts_content(5) [OF assms(1,2)]
    by (cases "i = wr_file w") simp_all
  moreover have "disk_ok w" by (rule assms(3))
  ultimately show ?thesis
    unfolding disk_ok_def accepts_facts [OF assms(1)] accepts_content(3) [OF assms(1,2)]
    by (meson order_trans)
qed

lemma accepts_wal_holds:
  assumes "wal_holds rs w" and "accepts (frames recs) w w'" and "all_fit recs"
  shows "wal_holds (rs @ recs) w'"
  using assms accepts_disk_ok [OF assms(2)] accepts_facts [OF assms(2)] accepts_content [OF assms(2)]
  by (simp add: wal_holds_def segment_append)

section \<open>Appending\<close>

lemma sync_data_Inr:
  assumes "sync_data n w = (Inr (), w')"
  obtains ev where "w' = upd_inode n (\<lambda>i. i\<lparr>ino_synced := length (ino_data i)\<rparr>) (w\<lparr>fs_events := ev\<rparr>)"
  using assms by (auto simp: sync_data_def try_io_Inr elim: sys_call_events)

lemma sync_data_Inl:
  assumes "sync_data n w = (Inl e, w')"
  obtains ev where "w' = w\<lparr>fs_events := ev\<rparr>"
  using assms by (auto simp: sync_data_def try_io_Inl elim: sys_call_events)

lemma sync_data_effect:
  assumes "sync_data n w = (r, w')" and "n < length (fs_inodes w)"
  shows "data_of w' = data_of w"
    and "r = Inr () \<Longrightarrow> synced_of w' = (synced_of w)(n := length (data_of w n))"
    and "r \<noteq> Inr () \<Longrightarrow> synced_of w' = synced_of w"
    and "fs_active w' = fs_active w" "fs_temp w' = fs_temp w" "fs_after_crash w' = fs_after_crash w"
    "wal_fsync w' = wal_fsync w" "wr_file w' = wr_file w" "wr_pos w' = wr_pos w" "wr_buf w' = wr_buf w"
    "write_offset w' = write_offset w" "last_lsn w' = last_lsn w"
    "length (fs_inodes w') = length (fs_inodes w)"
proof -
  obtain ev f where w': "w' = (if r = Inr () then upd_inode n f (w\<lparr>fs_events := ev\<rparr>) else w\<lparr>fs_events := ev\<rparr>)"
    "f = (\<lambda>i. i\<lparr>ino_synced := length (ino_data i)\<rparr>)"
    using assms(1) by (cases r) (auto elim!: sync_data_Inr sync_data_Inl)
  show "data_of w' = data_of w" "r = Inr () \<Longrightarrow> synced_of w' = (synced_of w)(n := length (data_of w n))"
    "r \<noteq> Inr () \<Longrightarrow> synced_of w' = synced_of w"
    "fs_active w' = fs_active w" "fs_temp w' = fs_temp w" "fs_after_crash w' = fs_after_crash w"
    "wal_fsync w' = wal_fsync w" "wr_file w' = wr_file w" "wr_pos w' = wr_pos w" "wr_buf w' = wr_buf w"
    "write_offset w' = write_offset w" "last_lsn w' = last_lsn w"
    "length (fs_inodes w') = length (fs_inodes w)"
    using assms(2) by (auto simp: w' data_of_upd synced_of_upd fun_eq_iff) (auto simp: data_of_def)
qed

lemma sync_data_wal_holds:
  assumes "sync_data n w = (r, w')" and "wal_holds rs w" and "n < length (fs_inodes w)"
  shows "wal_holds rs w'"
  using assms(2) sync_data_effect [OF assms(1,3)]
  by (cases "r = Inr ()") (auto simp: wal_holds_def disk_ok_def writer_ok_def content_def)

lemma write_frames_ok:
  "write_frames rs b h w = (Inr (b', h'), w') \<Longrightarrow> writer_ok w \<Longrightarrow>
    accepts (frames rs) w w' \<and> b' = b + length (frames rs) \<and> h' = fold max (map wal_lsn rs) h"
proof (induction rs arbitrary: b h w)
  case Nil
  then show ?case by (simp add: accepts_refl)
next
  case (Cons r rs)
  from Cons.prems(1) obtain w1 where w1: "bw_write_all (encode r) w = (Inr (), w1)"
    and rest: "write_frames rs (b + length (encode r)) (if h < wal_lsn r then wal_lsn r else h) w1
      = (Inr (b', h'), w')" by (auto simp: try_io_Inr)
  note acc = bw_write_all_accepts(1) [OF Cons.prems(2) w1 refl]
  have "(if h < wal_lsn r then wal_lsn r else h) = max (wal_lsn r) h" by (auto simp: max_def)
  then show ?case
    using Cons.IH [OF rest accepts_content(2) [OF acc Cons.prems(2)]] Cons.prems(2)
      accepts_trans [OF acc] by (auto simp: writer_ok_def)
qed

text \<open>The frames that fit the writer's buffer.\<close>

definition small :: "wal_record \<Rightarrow> bool" where
  "small r \<longleftrightarrow> length (encode r) < BUF_CAPACITY"

lemma write_frames_err:
  "write_frames rs b h w = (Inl e, w') \<Longrightarrow> writer_ok w \<Longrightarrow> list_all small rs \<Longrightarrow>
    \<exists>k < length rs. accepts (frames (take k rs)) w w'"
proof (induction rs arbitrary: b h w)
  case Nil
  then show ?case by simp
next
  case (Cons r rs)
  from Cons.prems(1) consider "bw_write_all (encode r) w = (Inl e, w')"
    | w1 where "bw_write_all (encode r) w = (Inr (), w1)"
      "write_frames rs (b + length (encode r)) (if h < wal_lsn r then wal_lsn r else h) w1 = (Inl e, w')"
    by (auto simp: try_io_Inl)
  then show ?case
  proof cases
    case 1
    then show ?thesis
      using bw_write_all_accepts(2) [OF Cons.prems(2) 1 refl] Cons.prems(3)
      by (intro exI [of _ 0]) (simp add: small_def)
  next
    case 2
    note acc = bw_write_all_accepts(1) [OF Cons.prems(2) 2(1) refl]
    obtain k where "k < length rs" "accepts (frames (take k rs)) w1 w'"
      using Cons.IH [OF 2(2) accepts_content(2) [OF acc Cons.prems(2)]] Cons.prems(3) by auto
    then show ?thesis
      using accepts_trans [OF acc] Cons.prems(2)
      by (intro exI [of _ "Suc k"]) (simp add: writer_ok_def)
  qed
qed

text \<open>The fields an append does not write.\<close>

definition same_log :: "wal \<Rightarrow> wal \<Rightarrow> bool" where
  "same_log w w' \<longleftrightarrow> wr_file w' = wr_file w \<and> fs_active w' = fs_active w \<and> fs_temp w' = fs_temp w
     \<and> fs_after_crash w' = fs_after_crash w \<and> wal_fsync w' = wal_fsync w
     \<and> length (fs_inodes w') = length (fs_inodes w)
     \<and> (\<forall>m. m \<noteq> wr_file w \<longrightarrow> data_of w' m = data_of w m)
     \<and> (\<forall>m. synced_of w m \<le> length (data_of w m) \<longrightarrow> synced_of w m \<le> synced_of w' m)"

lemma same_log_trans: "same_log w w1 \<Longrightarrow> same_log w1 w2 \<Longrightarrow>
    (\<And>m. synced_of w m \<le> length (data_of w m) \<Longrightarrow> synced_of w1 m \<le> length (data_of w1 m)) \<Longrightarrow> same_log w w2"
  unfolding same_log_def by (simp del: not_less) (meson order_trans)

lemma accepts_same_log:
  assumes "accepts x w w'" and "writer_ok w"
  shows "same_log w w'"
  using accepts_facts [OF assms(1)] accepts_content [OF assms] by (simp add: same_log_def)

lemma append_batch_cases:
  assumes "append_batch recs w = (r, w')" and "recs \<noteq> []" and "writer_ok w"
  obtains (frames) e where "r = Inl e" "write_frames recs 0 (last_lsn w) w = (Inl e, w')"
  | (flush) e where "r = Inl e" "accepts (frames recs) w w'"
  | (sync) e w1 where "r = Inl e" "accepts (frames recs) w w1" "wr_buf w1 = []"
      "sync_data (wr_file w) w1 = (Inl e, w')" "wal_fsync w"
  | (ok) w1 w2 where "r = Inr (fold max (map wal_lsn recs) (last_lsn w))"
      "accepts (frames recs) w w1" "wr_buf w1 = []"
      "if wal_fsync w then sync_data (wr_file w) w1 = (Inr (), w2) else w2 = w1"
      "w' = w2\<lparr>write_offset := write_offset w2 + length (frames recs),
               last_lsn := fold max (map wal_lsn recs) (last_lsn w)\<rparr>"
proof -
  have run: "try_io (write_frames recs 0 (last_lsn w)) (\<lambda>(bytes_written, high_lsn).
      try_io bw_flush (\<lambda>_.
        try_io (\<lambda>w. if wal_fsync w then sync_data (wr_file w) w else (Inr (), w)) (\<lambda>_ w.
          (Inr high_lsn, w\<lparr>write_offset := write_offset w + bytes_written,
                           last_lsn := high_lsn\<rparr>)))) w = (r, w')"
    using assms(1,2) by (simp add: append_batch_def)
  obtain r0 w0 where f: "write_frames recs 0 (last_lsn w) w = (r0, w0)" by fastforce
  show thesis
  proof (cases r0)
    case (Inl e)
    then show ?thesis using run f that(1) by (auto simp: try_io_def)
  next
    case (Inr x)
    then obtain b h where r0: "r0 = Inr (b, h)" by (cases x) simp
    note w0 = write_frames_ok [OF f [unfolded r0] assms(3)]
    then have acc0: "accepts (frames recs) w w0" by simp
    note ok0 = accepts_content(2) [OF acc0 assms(3)]
    obtain r1 w1 where fl: "bw_flush w0 = (r1, w1)" by fastforce
    have acc1: "accepts (frames recs) w w1"
      using accepts_trans [OF acc0 bw_flush_accepts(1) [OF ok0 fl]] assms(3) by (simp add: writer_ok_def)
    note fw = accepts_facts [OF acc1]
    show ?thesis
    proof (cases r1)
      case (Inl e)
      then show ?thesis using run f r0 fl acc1 that(2) by (auto simp: try_io_def)
    next
      case (Inr u)
      then have buf: "wr_buf w1 = []" using bw_flush_accepts(2) [OF ok0 fl] by (cases u) simp
      obtain r2 w2 where sy: "(if wal_fsync w1 then sync_data (wr_file w1) w1 else (Inr (), w1)) = (r2, w2)"
        by fastforce
      show ?thesis
      proof (cases r2)
        case (Inl e)
        then show ?thesis
          using run f r0 fl Inr sy acc1 buf fw that(3) by (auto simp: try_io_def split: if_splits)
      next
        case (Inr u')
        then show ?thesis
          using run f r0 fl \<open>r1 = Inr u\<close> sy acc1 buf fw that(4) [of w1 w2] w0
          by (auto simp: try_io_def split: if_splits)
      qed
    qed
  qed
qed

lemma append_ok:
  assumes "wal_holds rs w" and "all_fit recs" and "append_batch recs w = (Inr l, w')" and "recs \<noteq> []"
  shows "wal_holds (rs @ recs) w'" and "wr_buf w' = []" and "same_log w w'"
    and "l = fold max (map wal_lsn recs) (last_lsn w)" and "last_lsn w' = l"
    and "write_offset w' = write_offset w + length (frames recs)"
    and "wal_fsync w \<Longrightarrow> synced_of w' (wr_file w) = length (segment (rs @ recs))"
proof -
  have wok: "writer_ok w" using assms(1) by (simp add: wal_holds_def)
  obtain w1 w2 where l: "l = fold max (map wal_lsn recs) (last_lsn w)"
    and acc: "accepts (frames recs) w w1" and buf: "wr_buf w1 = []"
    and sy: "if wal_fsync w then sync_data (wr_file w) w1 = (Inr (), w2) else w2 = w1"
    and w': "w' = w2\<lparr>write_offset := write_offset w2 + length (frames recs), last_lsn := l\<rparr>"
    using assms(3,4) wok by (auto elim: append_batch_cases)
  note fw = accepts_facts [OF acc]
  note h1 = accepts_wal_holds [OF assms(1) acc assms(2)]
  have n: "wr_file w < length (fs_inodes w1)" using wok fw by (simp add: writer_ok_def)
  have "wal_holds (rs @ recs) w2"
    using sy h1 sync_data_wal_holds [OF _ h1 n] by (auto split: if_splits)
  then show "wal_holds (rs @ recs) w'" by (simp add: w')
  have s2: "wal_fsync w \<Longrightarrow> sync_data (wr_file w) w1 = (Inr (), w2)" using sy by simp
  note eff = sync_data_effect [OF s2 n]
  show "wr_buf w' = []" using buf sy eff by (cases "wal_fsync w") (simp_all add: w')
  show "write_offset w' = write_offset w + length (frames recs)"
    using sy eff fw by (cases "wal_fsync w") (simp_all add: w')
  show "l = fold max (map wal_lsn recs) (last_lsn w)" by (rule l)
  show "last_lsn w' = l" by (simp add: w')
  have "length (data_of w1 (wr_file w)) = length (segment (rs @ recs))"
    using h1 buf fw by (simp add: wal_holds_def content_def)
  then show "wal_fsync w \<Longrightarrow> synced_of w' (wr_file w) = length (segment (rs @ recs))"
    using eff by (simp add: w')
  show "same_log w w'"
    using accepts_same_log [OF acc wok] sy eff fw accepts_content [OF acc wok]
    by (cases "wal_fsync w") (auto simp: same_log_def w')
qed

lemma append_err:
  assumes "wal_holds rs w" and "all_fit recs" and "list_all small recs"
    and "append_batch recs w = (Inl e, w')"
  shows "\<exists>k \<le> length recs. wal_holds (rs @ take k recs) w' \<and> same_log w w'"
proof -
  have ok: "writer_ok w" using assms(1) by (simp add: wal_holds_def)
  have fit: "all_fit (take k recs)" for k
    using assms(2) by (metis append_take_drop_id list_all_append)
  have "recs \<noteq> []" using assms(4) by (auto simp: append_batch_def)
  from assms(4) this ok show ?thesis
  proof (cases rule: append_batch_cases)
    case (frames e')
    from write_frames_err [OF frames(2) ok assms(3)] obtain k
      where k: "k < length recs" "accepts (frames (take k recs)) w w'" by blast
    then show ?thesis
      using accepts_wal_holds [OF assms(1) k(2) fit] accepts_same_log [OF k(2) ok]
      by (intro exI [of _ k]) simp
  next
    case (flush e')
    then show ?thesis
      using accepts_wal_holds [OF assms(1) flush(2) assms(2)] accepts_same_log [OF flush(2) ok]
      by (intro exI [of _ "length recs"]) simp
  next
    case (sync e' w1)
    note fw = accepts_facts [OF sync(2)]
    note h1 = accepts_wal_holds [OF assms(1) sync(2) assms(2)]
    have n: "wr_file w < length (fs_inodes w1)" using ok fw by (simp add: writer_ok_def)
    have "same_log w w'"
      using accepts_same_log [OF sync(2) ok] sync_data_effect [OF sync(4) n] by (simp add: same_log_def)
    then show ?thesis
      using sync_data_wal_holds [OF sync(4) h1 n] by (intro exI [of _ "length recs"]) simp
  qed simp
qed

section \<open>Reading back\<close>

lemma runs_open_active:
  assumes "\<And>w ev. P w \<Longrightarrow> P (w\<lparr>fs_events := ev\<rparr>)" and "\<And>w. P w \<Longrightarrow> E w"
  shows "runs P open_active (\<lambda>n w. P w \<and> fs_active w = Some n) E"
  unfolding open_active_def
  by (rule runs_try [OF runs_call [of P E, OF assms]], assumption, assumption)
    (auto simp: runs_def assms(2) split: option.splits)

lemma runs_read_all:
  assumes "\<And>w ev. P w \<Longrightarrow> P (w\<lparr>fs_events := ev\<rparr>)" and "\<And>w. P w \<Longrightarrow> E w"
  shows "runs P read_all (\<lambda>bytes w. P w \<and> (\<exists>n. fs_active w = Some n \<and> bytes = data_of w n)) E"
  unfolding read_all_def
proof (rule runs_try [OF runs_open_active [of P E, OF assms]])
  show "runs (\<lambda>w. P w \<and> fs_active w = Some n) (try_io sys_call (\<lambda>_ w. (Inr (data_of w n), w)))
    (\<lambda>bytes w. P w \<and> (\<exists>n. fs_active w = Some n \<and> bytes = data_of w n)) E" for n
    by (rule runs_try [OF runs_call]) (auto simp: runs_def assms)
qed

lemma runs_benign:
  assumes "runs P m (\<lambda>_. P) P" and "\<And>u. runs P (k u) (\<lambda>_. P) P"
  shows "runs P (benign m k) (\<lambda>_. P) P"
proof (rule runsI)
  fix w r w' assume P: "P w" and run: "benign m k w = (r, w')"
  obtain r1 w1 where m: "m w = (r1, w1)" by fastforce
  have "P w'"
  proof (cases r1)
    case (Inl e)
    then have "P w1" using runs_Inl [OF assms(1) P] m by simp
    then show ?thesis using run m Inl by (cases e) (simp_all add: benign_def)
  next
    case (Inr u)
    then have P1: "P w1" using runs_Inr [OF assms(1) P] m by simp
    have k: "k u w1 = (r, w')" using run m Inr by (simp add: benign_def)
    show ?thesis
    proof (cases r)
      case (Inl e)
      show ?thesis using assms(2) P1 k [unfolded Inl] by (rule runs_Inl)
    next
      case (Inr x)
      show ?thesis using assms(2) P1 k [unfolded Inr] by (rule runs_Inr)
    qed
  qed
  then show "case r of Inr x \<Rightarrow> P w' | Inl e \<Rightarrow> P w'" by (cases r) simp_all
qed

lemma runs_sync_dir:
  assumes "\<And>w ev. P w \<Longrightarrow> P (w\<lparr>fs_events := ev\<rparr>)"
    and "\<And>w. P w \<Longrightarrow> P (w\<lparr>fs_after_crash := [fs_active w]\<rparr>)"
  shows "runs P sync_dir (\<lambda>_. P) P"
  unfolding sync_dir_def
  by (intro runs_benign runs_call runs_try assms(1)) (simp_all add: runs_def assms(2))

text \<open>
  \<open>disk_ok\<close> and the content of the active file through the part of \<open>recover\<close> that can
  change the disk: the file is as before or cut after the last good frame.
\<close>

definition cut_of :: "nat \<Rightarrow> nat \<Rightarrow> wal \<Rightarrow> wal \<Rightarrow> bool" where
  "cut_of n g w w' \<longleftrightarrow> disk_ok w' \<and> fs_active w' = Some n \<and> n < length (fs_inodes w')
     \<and> (data_of w' n = data_of w n \<or> data_of w' n = take g (data_of w n))
     \<and> min (synced_of w n) g \<le> synced_of w' n
     \<and> wal_fsync w' = wal_fsync w
     \<and> set (fs_after_crash w') \<subseteq> set (fs_after_crash w)
     \<and> (\<forall>m. m \<noteq> n \<longrightarrow> data_of w' m = data_of w m \<and> synced_of w' m = synced_of w m)"

lemma cut_of_refl: "disk_ok w \<Longrightarrow> fs_active w = Some n \<Longrightarrow> cut_of n g w w"
  by (auto simp: cut_of_def disk_ok_def)

lemma cut_of_events [simp]: "cut_of n g w (w'\<lparr>fs_events := ev\<rparr>) = cut_of n g w w'"
  by (simp add: cut_of_def)

lemma process_fields [simp]:
  "data_of (w\<lparr>wr_file := n\<rparr>) = data_of w" "synced_of (w\<lparr>wr_file := n\<rparr>) = synced_of w"
  "data_of (w\<lparr>wal_fsync := b\<rparr>) = data_of w" "synced_of (w\<lparr>wal_fsync := b\<rparr>) = synced_of w"
  "data_of (w\<lparr>fs_after_crash := c\<rparr>) = data_of w" "synced_of (w\<lparr>fs_after_crash := c\<rparr>) = synced_of w"
  "disk_ok (w\<lparr>wr_file := n\<rparr>) = disk_ok w" "disk_ok (w\<lparr>wr_pos := p\<rparr>) = disk_ok w"
  "disk_ok (w\<lparr>wr_buf := x\<rparr>) = disk_ok w" "disk_ok (w\<lparr>wal_fsync := b\<rparr>) = disk_ok w"
  by (auto simp: disk_ok_def data_of_def synced_of_def)

lemma cut_of_process [simp]:
  "cut_of n g w0 (w\<lparr>wr_file := m\<rparr>) = cut_of n g w0 w" "cut_of n g w0 (w\<lparr>wr_pos := p\<rparr>) = cut_of n g w0 w"
  "cut_of n g w0 (w\<lparr>wr_buf := x\<rparr>) = cut_of n g w0 w"
  by (simp_all add: cut_of_def)

lemma cut_of_active: "cut_of n g w w' \<Longrightarrow> fs_active w' = Some n"
  by (simp add: cut_of_def)

lemma runs_set_len:
  assumes "g \<le> length (data_of w n)"
  shows "runs (\<lambda>w'. cut_of n g w w' \<and> data_of w' n = data_of w n) (set_len n g)
    (\<lambda>_ w'. cut_of n g w w' \<and> data_of w' n = take g (data_of w n)) (cut_of n g w)"
  unfolding set_len_def
proof (rule runs_try [OF runs_call], goal_cases)
  case (3 u)
  show ?case
  proof (rule runs_pure, elim conjE)
    fix w1 assume c: "cut_of n g w w1" and d: "data_of w1 n = data_of w n"
    let ?f = "\<lambda>i. \<lparr>ino_data = take g (ino_data i) @ replicate (g - length (ino_data i)) 0,
                   ino_synced = min (ino_synced i) g\<rparr>"
    let ?w2 = "upd_inode n ?f w1"
    have n: "n < length (fs_inodes w1)" using c by (simp add: cut_of_def)
    have d2: "data_of ?w2 m = (if m = n then take g (data_of w n) else data_of w1 m)"
      and s2: "synced_of ?w2 m = (if m = n then min (synced_of w1 n) g else synced_of w1 m)" for m
      using assms d by (simp_all add: data_of_upd [OF n] synced_of_upd [OF n])
        (simp_all add: data_of_def synced_of_def)
    have "synced_of w1 n \<le> length (data_of w1 n)" using c by (auto simp: cut_of_def disk_ok_def)
    moreover have "disk_ok w1" using c by (simp add: cut_of_def)
    ultimately have "disk_ok ?w2" using assms d unfolding disk_ok_def by (auto simp: d2 s2)
    then show "cut_of n g w ?w2 \<and> data_of ?w2 n = take g (data_of w n)"
      using c unfolding cut_of_def by (auto simp: d2 s2)
  qed
qed simp_all

lemma runs_sync_cut:
  "runs (\<lambda>w'. cut_of n g w w' \<and> data_of w' n = d) (sync_data n)
    (\<lambda>_ w'. cut_of n g w w' \<and> data_of w' n = d \<and> synced_of w' n = length d) (cut_of n g w)"
proof (rule runsI)
  fix w1 r w2 assume pre: "cut_of n g w w1 \<and> data_of w1 n = d" and run: "sync_data n w1 = (r, w2)"
  then have n: "n < length (fs_inodes w1)" and le: "synced_of w1 n \<le> length (data_of w1 n)"
    by (auto simp: cut_of_def disk_ok_def)
  note eff = sync_data_effect [OF run n]
  show "case r of Inr x \<Rightarrow> cut_of n g w w2 \<and> data_of w2 n = d \<and> synced_of w2 n = length d
    | Inl e \<Rightarrow> cut_of n g w w2"
    using pre le eff by (cases r) (auto simp: cut_of_def disk_ok_def)
qed

lemma runs_cut_tail:
  assumes "g \<le> length (data_of w n)"
  shows "runs (\<lambda>w'. cut_of n g w w' \<and> data_of w' n = data_of w n) (cut_tail g)
    (\<lambda>_ w'. cut_of n g w w' \<and> data_of w' n = take g (data_of w n) \<and> synced_of w' n = g
        \<and> wr_file w' = n \<and> wr_pos w' = g \<and> wr_buf w' = []) (cut_of n g w)"
proof -
  let ?d = "take g (data_of w n)"
  let ?P = "\<lambda>w'. cut_of n g w w' \<and> data_of w' n = ?d \<and> synced_of w' n = g"
  have sd: "runs ?P sync_dir (\<lambda>_. ?P) (cut_of n g w)"
    by (rule runs_weaken [OF runs_sync_dir [of ?P]]) (auto simp: cut_of_def disk_ok_def)
  have last: "runs (\<lambda>w'. ?P w' \<and> fs_active w' = Some m)
      (try_io sys_call (\<lambda>_ w. (Inr (), w\<lparr>wr_file := m, wr_pos := g, wr_buf := []\<rparr>)))
      (\<lambda>_ w'. ?P w' \<and> wr_file w' = n \<and> wr_pos w' = g \<and> wr_buf w' = []) (cut_of n g w)" for m
    by (rule runs_try [OF runs_call], simp, simp, rule runs_pure) (auto dest: cut_of_active)
  have rest: "runs ?P (try_io sync_dir (\<lambda>_. try_io open_active (\<lambda>m.
        try_io sys_call (\<lambda>_ w. (Inr (), w\<lparr>wr_file := m, wr_pos := g, wr_buf := []\<rparr>)))))
      (\<lambda>_ w'. ?P w' \<and> wr_file w' = n \<and> wr_pos w' = g \<and> wr_buf w' = []) (cut_of n g w)"
    by (rule runs_try [OF sd], rule runs_try [OF runs_open_active last]) simp_all
  have mid: "runs (\<lambda>w'. cut_of n g w w' \<and> data_of w' n = data_of w n)
      (try_io (set_len n g) (\<lambda>_. try_io (sync_data n) (\<lambda>_. try_io sync_dir (\<lambda>_. try_io open_active (\<lambda>m.
        try_io sys_call (\<lambda>_ w. (Inr (), w\<lparr>wr_file := m, wr_pos := g, wr_buf := []\<rparr>)))))))
      (\<lambda>_ w'. ?P w' \<and> wr_file w' = n \<and> wr_pos w' = g \<and> wr_buf w' = []) (cut_of n g w)"
    using assms
    by (intro runs_try [OF runs_set_len] runs_try [OF runs_weaken [OF runs_sync_cut [of n g w ?d]] rest])
      simp_all
  show ?thesis
    unfolding cut_tail_def
  proof (rule runs_try [OF runs_open_active])
    fix m
    show "runs (\<lambda>w'. (cut_of n g w w' \<and> data_of w' n = data_of w n) \<and> fs_active w' = Some m)
      (try_io (set_len m g) (\<lambda>_. try_io (sync_data m) (\<lambda>_. try_io sync_dir (\<lambda>_. try_io open_active (\<lambda>m.
        try_io sys_call (\<lambda>_ w. (Inr (), w\<lparr>wr_file := m, wr_pos := g, wr_buf := []\<rparr>)))))))
      (\<lambda>_ w'. cut_of n g w w' \<and> data_of w' n = ?d \<and> synced_of w' n = g
        \<and> wr_file w' = n \<and> wr_pos w' = g \<and> wr_buf w' = []) (cut_of n g w)"
    proof (cases "m = n")
      case True
      show ?thesis unfolding True by (rule runs_weaken [OF mid]) auto
    next
      case False
      then show ?thesis by (auto simp: runs_def dest: cut_of_active)
    qed
  qed auto
qed

section \<open>Recovery\<close>

text \<open>What \<open>open\<close> leaves: the active file has a header and the writer is at its end.\<close>

definition opened :: "wal \<Rightarrow> bool" where
  "opened w \<longleftrightarrow> disk_ok w \<and> writer_ok w \<and> fs_active w = Some (wr_file w)
     \<and> take HEADER_LEN (content w) = HEADER_MAGIC"

lemma wal_holds_opened: "wal_holds rs w \<Longrightarrow> opened w"
  by (simp add: wal_holds_def opened_def)

lemma accepts_opened:
  assumes "accepts [] w w'" and "opened w"
  shows "opened w'" and "content w' = content w"
  using assms accepts_facts [OF assms(1)] accepts_content [OF assms(1)] accepts_disk_ok [OF assms(1)]
  by (auto simp: opened_def)

definition last_of :: "wal_record list \<Rightarrow> lsn" where
  "last_of rs = (case max_lsn rs of None \<Rightarrow> 0 | Some l \<Rightarrow> l)"

lemma recover_ok:
  assumes "opened w" and "recover w = (Inr rs, w')"
  shows "decode_segment (content w) = (rs, length (segment rs))"
    and "wal_holds rs w'" and "wr_buf w' = []" and "wr_file w' = wr_file w"
    and "write_offset w' = length (segment rs)" and "last_lsn w' = last_of rs"
    and "wal_fsync w' = wal_fsync w"
    and "set (fs_after_crash w') \<subseteq> set (fs_after_crash w)"
    and "min (synced_of w (wr_file w)) (length (segment rs)) \<le> synced_of w' (wr_file w)"
proof -
  let ?n = "wr_file w"
  from assms(2) obtain u w1 bytes w2 where fl: "bw_flush w = (Inr u, w1)"
    and rd: "read_all w1 = (Inr bytes, w2)"
    and rest: "(let (records, good_end) = decode_segment bytes in
      try_io (\<lambda>w. if good_end < length bytes then cut_tail good_end w else (Inr (), w)) (\<lambda>_ w.
        (Inr records, w\<lparr>write_offset := good_end, last_lsn := last_of records\<rparr>))) w2 = (Inr rs, w')"
    by (auto simp: recover_def try_io_Inr last_of_def)
  have ok: "writer_ok w" using assms(1) by (simp add: opened_def)
  note acc = bw_flush_accepts(1) [OF ok fl]
  have buf: "wr_buf w1 = []" using bw_flush_accepts(2) [OF ok fl] by (cases u) simp
  note op1 = accepts_opened [OF acc assms(1)]
  have d1: "data_of w1 ?n = content w"
    using op1(2) buf accepts_facts(1) [OF acc] by (simp add: content_def)
  have act: "fs_active w1 = Some ?n" using op1(1) accepts_facts(1) [OF acc] by (simp add: opened_def)
  obtain ev where w2: "w2 = w1\<lparr>fs_events := ev\<rparr>" and bytes: "bytes = content w"
  proof -
    have "runs (\<lambda>w. \<exists>ev. w = w1\<lparr>fs_events := ev\<rparr>) read_all (\<lambda>bytes w. (\<exists>ev. w = w1\<lparr>fs_events := ev\<rparr>)
        \<and> (\<exists>n. fs_active w = Some n \<and> bytes = data_of w n)) (\<lambda>w. True)"
      by (rule runs_read_all) auto
    from runs_Inr [OF this _ rd] act d1 that show thesis
      by (metis (no_types, lifting) event_simps(1) option.inject wal.select_convs(2) wal.surjective wal.update_convs(5))
  qed
  from rest obtain g w3 v where ds: "decode_segment (content w) = (rs, g)"
    and cut: "(if g < length (content w) then cut_tail g w2 else (Inr (), w2)) = (Inr v, w3)"
    and w': "w' = w3\<lparr>write_offset := g, last_lsn := last_of rs\<rparr>"
    by (auto simp: bytes try_io_Inr split: prod.splits)
  have "take HEADER_LEN (content w) = HEADER_MAGIC" using assms(1) by (simp add: opened_def)
  note snd = decode_segment_sound [OF ds this]
  have op2: "opened w2" using op1(1) by (simp add: w2 opened_def writer_ok_def content_def)
  have d2: "data_of w2 ?n = content w" by (simp add: w2 d1)
  have f2: "wr_file w2 = ?n" "wr_buf w2 = []" "wal_fsync w2 = wal_fsync w"
    "synced_of w2 = synced_of w" "fs_after_crash w2 = fs_after_crash w" "fs_active w2 = Some ?n"
    using accepts_facts [OF acc] accepts_content(3) [OF acc ok] buf act by (simp_all add: w2)
  have res: "disk_ok w3 \<and> fs_active w3 = Some ?n \<and> ?n < length (fs_inodes w3)
      \<and> data_of w3 ?n = segment rs \<and> wr_file w3 = ?n \<and> wr_pos w3 = g \<and> wr_buf w3 = []
      \<and> wal_fsync w3 = wal_fsync w \<and> set (fs_after_crash w3) \<subseteq> set (fs_after_crash w)
      \<and> min (synced_of w ?n) g \<le> synced_of w3 ?n"
  proof (cases "g < length (content w)")
    case True
    have "g \<le> length (data_of w2 ?n)" using snd(4) by (simp add: d2)
    from runs_Inr [OF runs_cut_tail [OF this], of w2 v w3] cut True f2 op2
    have "cut_of ?n g w2 w3 \<and> data_of w3 ?n = take g (data_of w2 ?n) \<and> synced_of w3 ?n = g
        \<and> wr_file w3 = ?n \<and> wr_pos w3 = g \<and> wr_buf w3 = []"
      by (simp add: cut_of_refl opened_def)
    then show ?thesis using f2 snd(3) by (auto simp: cut_of_def d2)
  next
    case False
    then have "w3 = w2" "g = length (content w)" using cut snd(4) by simp_all
    then show ?thesis
      using f2 op2 snd(3) by (auto simp: opened_def writer_ok_def d2)
  qed
  have "synced_of w3 ?n \<le> length (data_of w3 ?n)"
    using res unfolding disk_ok_def by metis
  then show "wal_holds rs w'"
    using res snd(1,2) by (simp add: w' wal_holds_def writer_ok_def content_def)
  show "decode_segment (content w) = (rs, length (segment rs))" using ds snd(2) by simp
  show "wr_buf w' = []" "wr_file w' = wr_file w" "write_offset w' = length (segment rs)"
    "last_lsn w' = last_of rs" "wal_fsync w' = wal_fsync w"
    "set (fs_after_crash w') \<subseteq> set (fs_after_crash w)"
    "min (synced_of w ?n) (length (segment rs)) \<le> synced_of w' ?n"
    using res snd(2) by (simp_all add: w')
qed

text \<open>Recovery of a log that is not torn returns what it holds.\<close>

lemma recover_holds:
  assumes "wal_holds rs w" and "recover w = (Inr rs', w')"
  shows "rs' = rs" and "wal_holds rs w'"
proof -
  have "decode_segment (content w) = (rs, length (segment rs))"
    using decode_segment_image [of rs "[]"] assms(1) by (simp add: wal_holds_def torn_def)
  then show "rs' = rs" using recover_ok(1) [OF wal_holds_opened [OF assms(1)] assms(2)] by simp
  then show "wal_holds rs w'" using recover_ok(2) [OF wal_holds_opened [OF assms(1)] assms(2)] by simp
qed

section \<open>Opening\<close>

lemma overwrite_inside: "pos \<le> length d \<Longrightarrow> overwrite pos bs d = take pos d @ bs @ drop (pos + length bs) d"
  by (simp add: overwrite_def)

lemma overwrite_overwrite:
  "pos \<le> length d \<Longrightarrow> p = pos + length bs \<Longrightarrow>
    overwrite p bs' (overwrite pos bs d) = overwrite pos (bs @ bs') d"
  by (simp add: overwrite_inside min_absorb2 add.assoc)
    (simp add: overwrite_def min_absorb2 ac_simps)

text \<open>Some of the bytes of file \<open>n\<close> from \<open>pos\<close> on are now those of \<open>x\<close>.\<close>

definition patched :: "nat \<Rightarrow> nat \<Rightarrow> u8 list \<Rightarrow> wal \<Rightarrow> wal \<Rightarrow> bool" where
  "patched n pos x w w' \<longleftrightarrow> (\<exists>ev i. w' = w\<lparr>fs_events := ev, fs_inodes := (fs_inodes w)[n := i]\<rparr>
     \<and> ino_data i = overwrite pos x (data_of w n) \<and> ino_synced i \<le> synced_of w n)"

lemma patched_Nil:
  assumes "pos \<le> length (data_of w n)"
  shows "patched n pos [] w (w\<lparr>fs_events := ev\<rparr>)"
  unfolding patched_def using assms
  by (intro exI [of _ ev] exI [of _ "fs_inodes w ! n"])
    (simp add: overwrite_inside data_of_def synced_of_def)

lemma patched_put:
  assumes "pos \<le> length (data_of w n)"
  shows "patched n pos x w (put_bytes n pos x (w\<lparr>fs_events := ev\<rparr>))"
  unfolding patched_def
  by (intro exI [of _ ev]
      exI [of _ "\<lparr>ino_data = overwrite pos x (data_of w n), ino_synced = min (synced_of w n) pos\<rparr>"])
    (simp add: put_bytes_def upd_inode_def data_of_def synced_of_def)

lemma patched_data:
  assumes "patched n pos x w w'" and "n < length (fs_inodes w)"
  shows "data_of w' m = (if m = n then overwrite pos x (data_of w n) else data_of w m)"
    and "synced_of w' n \<le> synced_of w n" and "m \<noteq> n \<Longrightarrow> synced_of w' m = synced_of w m"
    and "length (fs_inodes w') = length (fs_inodes w)"
    and "fs_active w' = fs_active w" "fs_temp w' = fs_temp w" "fs_after_crash w' = fs_after_crash w"
  using assms by (auto simp: patched_def data_of_def synced_of_def)

lemma patched_trans:
  assumes "patched n pos x w w1" and "patched n p y w1 w2" and "p = pos + length x"
    and "n < length (fs_inodes w)" and "pos \<le> length (data_of w n)"
  shows "patched n pos (x @ y) w w2"
proof -
  obtain ev i where 1: "w1 = w\<lparr>fs_events := ev, fs_inodes := (fs_inodes w)[n := i]\<rparr>"
    "ino_data i = overwrite pos x (data_of w n)" "ino_synced i \<le> synced_of w n"
    using assms(1) by (auto simp: patched_def)
  obtain ev' i' where 2: "w2 = w1\<lparr>fs_events := ev', fs_inodes := (fs_inodes w1)[n := i']\<rparr>"
    "ino_data i' = overwrite p y (data_of w1 n)" "ino_synced i' \<le> synced_of w1 n"
    using assms(2) by (auto simp: patched_def)
  have "data_of w1 n = overwrite pos x (data_of w n)" "synced_of w1 n \<le> synced_of w n"
    using patched_data(1,2) [OF assms(1,4)] by simp_all
  then show ?thesis
    unfolding patched_def using 1 2 assms(3,5)
    by (intro exI [of _ ev'] exI [of _ i']) (simp add: overwrite_overwrite)
qed

lemma file_write_all_inside:
  "file_write_all n pos bs w = (r, pos', w') \<Longrightarrow> n < length (fs_inodes w) \<Longrightarrow>
    pos \<le> length (data_of w n) \<Longrightarrow>
    \<exists>k \<le> length bs. patched n pos (take k bs) w w' \<and> (r = Inr () \<longrightarrow> k = length bs)"
proof (induction n pos bs w rule: file_write_all.induct)
  case (1 n pos bs w)
  show ?case
  proof (cases "bs = []")
    case True
    have "patched n pos [] w (w\<lparr>fs_events := fs_events w\<rparr>)" using "1.prems"(3) by (rule patched_Nil)
    then show ?thesis using "1.prems"(1) True by (simp add: file_write_all.simps [of n pos "[]"])
  next
    case False
    obtain r1 w1 where s: "sys_write n pos bs w = (r1, w1)" by fastforce
    obtain event ev where ev: "next_event w = (event, w\<lparr>fs_events := ev\<rparr>)" by (rule next_event_events)
    have step: "\<exists>k \<le> length bs. patched n pos (take k bs) w w1 \<and> (\<forall>j. r1 = Inr j \<longrightarrow> j = k)"
    proof (cases event)
      case Good
      then show ?thesis using s ev patched_put [OF "1.prems"(3), of bs ev]
        by (intro exI [of _ "length bs"]) (auto simp: sys_write_def)
    next
      case (Short k)
      then show ?thesis using s ev patched_put [OF "1.prems"(3), of "take k bs" ev]
        by (intro exI [of _ "length (take k bs)"]) (auto simp: sys_write_def min_def)
    next
      case (Fail e)
      then show ?thesis using s ev patched_Nil [OF "1.prems"(3), of ev]
        by (intro exI [of _ 0]) (auto simp: sys_write_def)
    qed
    then obtain k where k: "k \<le> length bs" "patched n pos (take k bs) w w1" "\<And>j. r1 = Inr j \<Longrightarrow> j = k"
      by blast
    show ?thesis
    proof (cases "\<exists>j. r1 = Inr j \<and> j \<noteq> 0")
      case True
      then have r1: "r1 = Inr k" "k \<noteq> 0" using k(3) by auto
      have rec: "file_write_all n (pos + k) (drop k bs) w1 = (r, pos', w')"
        using "1.prems"(1) s False r1 by (simp add: file_write_all.simps [of n pos bs])
      note p1 = patched_data [OF k(2) "1.prems"(2)]
      have "pos + k \<le> length (data_of w1 n)"
        using k(1) "1.prems"(3) by (simp add: p1 overwrite_inside min_def)
      then obtain j where j: "j \<le> length (drop k bs)" "patched n (pos + k) (take j (drop k bs)) w1 w'"
        "r = Inr () \<longrightarrow> j = length (drop k bs)"
        using "1.IH" [OF False s [symmetric] r1 rec] "1.prems"(2) p1(4) by auto
      have "patched n pos (take k bs @ take j (drop k bs)) w w'"
        using k(1) by (intro patched_trans [OF k(2) j(2) _ "1.prems"(2,3)]) simp
      then show ?thesis using j k(1) by (intro exI [of _ "k + j"]) (auto simp: take_add)
    next
      case False
      then have "w' = w1 \<and> r \<noteq> Inr ()"
        using "1.prems"(1) s \<open>bs \<noteq> []\<close> by (auto simp: file_write_all.simps [of n pos bs] split: sum.splits)
      then show ?thesis using k by blast
    qed
  qed
qed

text \<open>The bytes under the active name, none when there is no such file.\<close>

definition active_data :: "wal \<Rightarrow> u8 list" where
  "active_data w = (case fs_active w of None \<Rightarrow> [] | Some n \<Rightarrow> data_of w n)"

lemma create_active_ok:
  assumes "create_active w = (Inr n, w')" and "disk_ok w"
  shows "disk_ok w'" and "fs_active w' = Some n" and "n < length (fs_inodes w')"
    and "data_of w' n = active_data w" and "synced_of w' n \<le> length (active_data w)"
    and "fs_active w = Some n \<Longrightarrow> synced_of w' n = synced_of w n"
    and "set (fs_after_crash w') = insert (Some n) (set (fs_after_crash w))"
proof -
  from assms(1) [unfolded create_active_def try_io_Inr] obtain u w1 where s: "sys_call w = (Inr u, w1)"
    and w': "(case fs_active w1 of
        Some n \<Rightarrow> (Inr n, w1)
      | None \<Rightarrow>
          (let n = length (fs_inodes w1) in
           (Inr n, w1\<lparr>fs_inodes := fs_inodes w1 @ [\<lparr>ino_data = [], ino_synced = 0\<rparr>],
                     fs_active := Some n,
                     fs_after_crash := Some n # fs_after_crash w1\<rparr>)))
       = (Inr n :: io_error + nat, w')" by blast
  obtain ev where w1: "w1 = w\<lparr>fs_events := ev\<rparr>" using sys_call_events [OF s] .
  have "disk_ok w' \<and> fs_active w' = Some n \<and> n < length (fs_inodes w')
    \<and> data_of w' n = active_data w \<and> synced_of w' n \<le> length (active_data w)
    \<and> (fs_active w = Some n \<longrightarrow> synced_of w' n = synced_of w n)
    \<and> set (fs_after_crash w') = insert (Some n) (set (fs_after_crash w))"
  proof (cases "fs_active w")
    case (Some m)
    then have "w' = w1" "n = m" using w' by (auto simp: w1)
    then show ?thesis using Some assms(2) by (auto simp: w1 active_data_def disk_ok_def)
  next
    case None
    then have n: "n = length (fs_inodes w)" "w' = w1\<lparr>fs_inodes := fs_inodes w1 @ [\<lparr>ino_data = [], ino_synced = 0\<rparr>],
                     fs_active := Some n, fs_after_crash := Some n # fs_after_crash w1\<rparr>"
      using w' by (auto simp: w1 Let_def)
    have "data_of w' m = data_of w m" "synced_of w' m = synced_of w m" if "m < length (fs_inodes w)" for m
      using that by (simp_all add: n w1 data_of_def synced_of_def nth_append)
    moreover have "data_of w' n = []" "synced_of w' n = 0"
      by (simp_all add: n w1 data_of_def synced_of_def nth_append)
    ultimately show ?thesis
      using None assms(2) unfolding disk_ok_def by (auto simp: n w1 active_data_def less_SucI)
  qed
  then show "disk_ok w'" "fs_active w' = Some n" "n < length (fs_inodes w')"
    "data_of w' n = active_data w" "synced_of w' n \<le> length (active_data w)"
    "fs_active w = Some n \<Longrightarrow> synced_of w' n = synced_of w n"
    "set (fs_after_crash w') = insert (Some n) (set (fs_after_crash w))" by auto
qed

lemma try_call_Inr:
  assumes "try_io sys_call k w = (Inr y, w')"
  obtains u ev where "k u (w\<lparr>fs_events := ev\<rparr>) = (Inr y, w')"
  using assms [unfolded try_io_Inr] by (metis sys_call_events)

lemma write_header_ok:
  assumes "write_header n w = (Inr u, w')" and "disk_ok w" and "n < length (fs_inodes w)"
    and "length (data_of w n) < HEADER_LEN"
  shows "disk_ok w'" and "data_of w' n = HEADER_MAGIC" and "fs_active w' = fs_active w"
    and "fs_after_crash w' = fs_after_crash w" and "n < length (fs_inodes w')"
    and "m \<noteq> n \<Longrightarrow> data_of w' m = data_of w m \<and> synced_of w' m = synced_of w m"
    and "synced_of w n \<le> length (data_of w n) \<Longrightarrow> synced_of w' n \<le> length (data_of w' n)"
    and "fs_temp w' = fs_temp w" and "length (fs_inodes w') = length (fs_inodes w)"
proof -
  obtain pos where f: "file_write_all n 0 HEADER_MAGIC w = (Inr u, pos, w')"
    using assms(1) by (auto simp: write_header_def split: prod.splits)
  have p: "patched n 0 HEADER_MAGIC w w'"
    using file_write_all_inside [OF f assms(3)] by (cases u) auto
  note d = patched_data [OF p assms(3)]
  show dn: "data_of w' n = HEADER_MAGIC" using assms(4) by (simp add: d overwrite_def)
  show "fs_active w' = fs_active w" "fs_after_crash w' = fs_after_crash w" "n < length (fs_inodes w')"
    "fs_temp w' = fs_temp w" "length (fs_inodes w') = length (fs_inodes w)"
    using assms(3) by (simp_all add: d)
  show other: "m \<noteq> n \<Longrightarrow> data_of w' m = data_of w m \<and> synced_of w' m = synced_of w m" for m
    by (simp add: d)
  show s: "synced_of w' n \<le> length (data_of w' n)" if "synced_of w n \<le> length (data_of w n)"
    using d(2) that assms(4) dn by simp
  have "synced_of w' i \<le> length (data_of w' i)" if "synced_of w i \<le> length (data_of w i)" for i
    using s other [of i] that by (cases "i = n") auto
  then show "disk_ok w'" using assms(2) by (auto simp: disk_ok_def d(4-7))
qed

lemma check_header_ok:
  assumes "check_header n w = (Inr offset, w')" and "disk_ok w" and "fs_active w = Some n"
    and "n < length (fs_inodes w)"
  shows "disk_ok w' \<and> fs_active w' = Some n \<and> fs_after_crash w' = fs_after_crash w
    \<and> n < length (fs_inodes w') \<and> take HEADER_LEN (data_of w' n) = HEADER_MAGIC
    \<and> data_of w' n = (if length (data_of w n) < HEADER_LEN then HEADER_MAGIC else data_of w n)
    \<and> synced_of w' n = (if length (data_of w n) < HEADER_LEN then HEADER_LEN else synced_of w n)
    \<and> offset = length (data_of w' n)"
proof (cases "length (data_of w n) < HEADER_LEN")
  case True
  then obtain ev where "try_io sys_call (\<lambda>_. try_io (write_header n) (\<lambda>_.
      try_io (sync_data n) (\<lambda>_ w. (Inr HEADER_LEN, w)))) (w\<lparr>fs_events := ev\<rparr>) = (Inr offset, w')"
    using assms(1) unfolding check_header_def Let_def by (elim try_call_Inr) simp
  then obtain ev' where "try_io (write_header n) (\<lambda>_.
      try_io (sync_data n) (\<lambda>_ w. (Inr HEADER_LEN, w))) (w\<lparr>fs_events := ev'\<rparr>) = (Inr offset, w')"
    by (elim try_call_Inr) simp
  from this [unfolded try_io_Inr] obtain u1 w1 where wh: "write_header n (w\<lparr>fs_events := ev'\<rparr>) = (Inr u1, w1)"
    and sy: "sync_data n w1 = (Inr (), w')" and off: "offset = HEADER_LEN" by auto
  note h = write_header_ok [OF wh]
  have n: "n < length (fs_inodes w1)" using h(5) assms(2,4) True by simp
  show ?thesis
    using h assms(2-4) True sync_data_effect [OF sy n] off
    by (auto simp: disk_ok_def)
next
  case False
  then obtain ev where "try_io sys_call (\<lambda>_. try_io sys_call (\<lambda>_ w2.
      if take HEADER_LEN (data_of w2 n) \<noteq> HEADER_MAGIC then (Inl InvalidData, w2)
      else (Inr (length (data_of w n)), w2))) (w\<lparr>fs_events := ev\<rparr>) = (Inr offset, w')"
    using assms(1) unfolding check_header_def Let_def by (elim try_call_Inr) (simp cong: if_cong)
  then obtain ev' where "w' = w\<lparr>fs_events := ev'\<rparr>" "take HEADER_LEN (data_of w n) = HEADER_MAGIC"
    "offset = length (data_of w n)"
    by (elim try_call_Inr) (auto elim!: try_call_Inr split: if_splits)
  then show ?thesis using assms(2-4) False by simp
qed

lemma wal_open_ok:
  assumes "wal_open fsync w = (Inr u, w')" and "disk_ok w"
  shows "opened w'" and "wr_buf w' = []" and "wal_fsync w' = fsync" and "last_lsn w' = 0"
    and "content w' = (if length (active_data w) < HEADER_LEN then HEADER_MAGIC else active_data w)"
    and "write_offset w' = length (content w')"
    and "set (fs_after_crash w') = insert (Some (wr_file w')) (set (fs_after_crash w))"
    and "synced_of w' (wr_file w') =
      (if length (active_data w) < HEADER_LEN then HEADER_LEN
       else synced_of w (wr_file w'))"
proof -
  obtain ev where "try_io create_active (\<lambda>n. try_io (check_header n) (\<lambda>offset.
      try_io sys_call (\<lambda>_ w. (Inr (), w\<lparr>wal_fsync := fsync, wr_file := n, wr_pos := offset, wr_buf := [],
                        write_offset := offset, last_lsn := 0\<rparr>)))) (w\<lparr>fs_events := ev\<rparr>) = (Inr u, w')"
    using assms(1) unfolding wal_open_def by (elim try_call_Inr) simp
  from this [unfolded try_io_Inr [of create_active] try_io_Inr [of "check_header _"]]
  obtain n w1 offset w2 where cr: "create_active (w\<lparr>fs_events := ev\<rparr>) = (Inr n, w1)"
    and ch: "check_header n w1 = (Inr offset, w2)"
    and rest: "try_io sys_call (\<lambda>_ w. (Inr (), w\<lparr>wal_fsync := fsync, wr_file := n, wr_pos := offset, wr_buf := [],
                        write_offset := offset, last_lsn := 0\<rparr>)) w2 = (Inr u, w')" by auto
  obtain ev' where w': "w' = w2\<lparr>fs_events := ev', wal_fsync := fsync, wr_file := n, wr_pos := offset, wr_buf := [],
                        write_offset := offset, last_lsn := 0\<rparr>"
    using rest by (elim try_call_Inr) auto
  have "disk_ok (w\<lparr>fs_events := ev\<rparr>)" using assms(2) by simp
  note c = create_active_ok [OF cr this]
  note h = check_header_ok [OF ch c(1,2,3)]
  have ad: "active_data (w\<lparr>fs_events := ev\<rparr>) = active_data w" by (simp add: active_data_def split: option.split)
  have fields: "data_of w' = data_of w2" "synced_of w' = synced_of w2" "disk_ok w' = disk_ok w2"
    by (simp_all add: w' data_of_def synced_of_def disk_ok_def fun_eq_iff)
  have le: "synced_of w2 n \<le> length (data_of w2 n)"
    using h unfolding disk_ok_def by metis
  show "opened w'" "wr_buf w' = []" "wal_fsync w' = fsync" "last_lsn w' = 0"
    "content w' = (if length (active_data w) < HEADER_LEN then HEADER_MAGIC else active_data w)"
    "write_offset w' = length (content w')"
    "set (fs_after_crash w') = insert (Some (wr_file w')) (set (fs_after_crash w))"
    using h c le unfolding opened_def writer_ok_def content_def fields
    by (cases "length (active_data w) < HEADER_LEN"; simp add: w' ad)+
  show "synced_of w' (wr_file w') =
      (if length (active_data w) < HEADER_LEN then HEADER_LEN else synced_of w (wr_file w'))"
  proof (cases "fs_active w")
    case None
    then show ?thesis using h c by (simp add: w' fields active_data_def HEADER_LEN_def)
  next
    case (Some m)
    then have "m = n" using cr by (auto simp: create_active_def elim!: try_call_Inr)
    then show ?thesis using h c Some by (simp add: w' fields ad)
  qed
qed

section \<open>Crashes\<close>

text \<open>The records that a crash leaves, under the name and the length it leaves.\<close>

definition crash_log :: "wal \<Rightarrow> nat option \<Rightarrow> nat \<Rightarrow> wal_record list" where
  "crash_log w a n =
     (case a of None \<Rightarrow> [] | Some i \<Rightarrow> fst (decode_segment (take n (data_of w i))))"

lemma crash_disk:
  assumes "disk_ok w" and "can_crash w a n"
  shows "disk_ok (crash a n ev w)"
    and "active_data (crash a n ev w) = (case a of None \<Rightarrow> [] | Some i \<Rightarrow> take n (data_of w i))"
proof -
  have i: "i < length (fs_inodes w)" "synced_of w i \<le> n" "n \<le> length (data_of w i)" if "a = Some i" for i
    using assms that by (auto simp: disk_ok_def can_crash_def)
  show "disk_ok (crash a n ev w)"
  proof (cases a)
    case None
    then show ?thesis by (simp add: crash_def disk_ok_def)
  next
    case (Some j)
    show ?thesis
      using i [OF Some] Some
      by (simp add: crash_def disk_ok_def upd_inode_def synced_of_def data_of_def)
  qed
  show "active_data (crash a n ev w) = (case a of None \<Rightarrow> [] | Some i \<Rightarrow> take n (data_of w i))"
    using i by (auto simp: crash_def active_data_def data_of_def upd_inode_def split: option.split)
qed

lemma restart_ok:
  assumes "disk_ok w" and "can_crash w a n"
    and "wal_open fsync (crash a n ev w) = (Inr u, w1)" and "recover w1 = (Inr rs, w2)"
  shows "rs = crash_log w a n" and "wal_holds rs w2"
proof -
  note o = wal_open_ok [OF assms(3) crash_disk(1) [OF assms(1,2)]]
  note r = recover_ok [OF o(1) assms(4)]
  show "wal_holds rs w2" by (rule r(2))
  let ?d = "case a of None \<Rightarrow> [] | Some i \<Rightarrow> take n (data_of w i)"
  have c: "content w1 = (if length ?d < HEADER_LEN then HEADER_MAGIC else ?d)"
    using o(5) by (simp add: crash_disk(2) [OF assms(1,2)])
  have "decode_segment HEADER_MAGIC = ([], HEADER_LEN)"
    using decode_segment_image [of "[]" "[]"] by (simp add: torn_def segment_def)
  moreover have "fst (decode_segment []) = []" by (simp add: decode_segment_def HEADER_LEN_def)
  moreover have "length d < HEADER_LEN \<Longrightarrow> fst (decode_segment d) = []" for d
    by (simp add: decode_segment_def)
  ultimately have "fst (decode_segment (content w1)) = crash_log w a n"
    unfolding c by (auto simp: crash_log_def split: option.split)
  then show "rs = crash_log w a n" by (simp add: r(1))
qed

lemma crash_log_prefix:
  assumes "data_of w i @ x = segment rs" and "all_fit rs" and "can_crash w (Some i) n"
    and "m \<le> length rs" and "length (segment (take m rs)) \<le> synced_of w i"
  shows "\<exists>k. m \<le> k \<and> k \<le> length rs \<and> crash_log w (Some i) n = take k rs"
proof -
  have n: "synced_of w i \<le> n" "n \<le> length (data_of w i)"
    using assms(3) by (simp_all add: can_crash_def)
  have d: "take n (data_of w i) = take n (segment rs)" using n(2) by (simp add: assms(1) [symmetric])
  have "HEADER_LEN \<le> n" using n(1) assms(5) segment_simps(2) [of "take m rs"] by linarith
  then obtain k where k: "k \<le> length rs" "fst (decode_segment (take n (segment rs))) = take k rs"
    "k < length rs \<longrightarrow> n < length (segment (take (Suc k) rs))"
    using decode_segment_cut [of rs n] assms(2) by fastforce
  have "m \<le> k"
  proof (rule ccontr)
    assume "\<not> m \<le> k"
    then have "Suc k \<le> m" "k < length rs" using assms(4) by auto
    then have "take m rs = take (Suc k) rs @ drop (Suc k) (take m rs)"
      by (metis append_take_drop_id min_absorb1 take_take)
    then have "length (segment (take (Suc k) rs)) \<le> length (segment (take m rs))"
      using length_segment_append by (metis le_add1)
    then show False using k(3) \<open>k < length rs\<close> n(1) assms(5) by simp
  qed
  then show ?thesis using k d by (auto simp: crash_log_def)
qed

end
