(* ===== verification/Checkpoint.thy ===== *)
theory Checkpoint
  imports Wal
begin

text \<open>
  The rotation of the log, \<open>checkpoint\<close> of \<open>src/wal.rs\<close>, followed call by call: what the
  disk holds before the new segment is renamed into place and after, whatever call fails,
  and hence what a crash at any point leaves.
\<close>

section \<open>Checkpointing\<close>

text \<open>
  The disk during a checkpoint that started in \<open>w0\<close> with the records \<open>rs\<close>.  \<open>before\<close>: the
  old segment is in place.  \<open>temp_is\<close>: what the temporary file holds.  \<open>after\<close>: the file
  \<open>t\<close> with the survivors is in place.
\<close>

definition keeps :: "wal \<Rightarrow> wal \<Rightarrow> bool" where
  "keeps w0 w \<longleftrightarrow> wal_fsync w = wal_fsync w0
     \<and> (\<forall>i. Some i \<in> set (fs_after_crash w0) \<longrightarrow> synced_of w0 i \<le> synced_of w i
          \<and> (i \<noteq> wr_file w0 \<longrightarrow> data_of w i = data_of w0 i))"

definition before :: "wal \<Rightarrow> wal_record list \<Rightarrow> wal \<Rightarrow> bool" where
  "before w0 rs w \<longleftrightarrow> wal_holds rs w \<and> wr_file w = wr_file w0
     \<and> fs_after_crash w = fs_after_crash w0 \<and> keeps w0 w"

definition temp_is :: "nat \<Rightarrow> u8 list \<Rightarrow> wal \<Rightarrow> bool" where
  "temp_is t x w \<longleftrightarrow> fs_temp w = Some t \<and> t < length (fs_inodes w) \<and> data_of w t = x
     \<and> synced_of w t \<le> length x"

definition after :: "wal \<Rightarrow> wal_record list \<Rightarrow> wal_record list \<Rightarrow> nat \<Rightarrow> wal \<Rightarrow> bool" where
  "after w0 rs rs' t w \<longleftrightarrow> disk_ok w \<and> fs_active w = Some t \<and> t < length (fs_inodes w)
     \<and> data_of w t = segment rs' \<and> synced_of w t = length (segment rs')
     \<and> Some t \<notin> set (fs_after_crash w0)
     \<and> set (fs_after_crash w) \<subseteq> insert (Some t) (set (fs_after_crash w0))
     \<and> (\<exists>x. data_of w (wr_file w0) @ x = segment rs) \<and> keeps w0 w"

lemma before_events [simp]: "before w0 rs (w\<lparr>fs_events := ev\<rparr>) = before w0 rs w"
  by (simp add: before_def keeps_def)

lemma temp_is_events [simp]: "temp_is t x (w\<lparr>fs_events := ev\<rparr>) = temp_is t x w"
  by (simp add: temp_is_def)

lemma after_events [simp]: "after w0 rs rs' t (w\<lparr>fs_events := ev\<rparr>) = after w0 rs rs' t w"
  by (simp add: after_def keeps_def)

lemma before_temp_other:
  assumes "before w0 rs w" and "fs_temp w = Some t" and "Some i \<in> set (fs_after_crash w0)"
  shows "i \<noteq> t"
  using assms by (auto simp: before_def wal_holds_def disk_ok_def)

lemma before_active: "before w0 rs w \<Longrightarrow> Some (wr_file w0) \<in> set (fs_after_crash w0)"
  by (auto simp: before_def wal_holds_def disk_ok_def)

text \<open>A change to a file that no crash can bring back keeps \<open>before\<close>.\<close>

lemma before_transfer:
  assumes "before w0 rs w"
    and "\<And>i. Some i \<in> set (fs_after_crash w0) \<Longrightarrow> data_of w' i = data_of w i \<and> synced_of w' i = synced_of w i"
    and "fs_active w' = fs_active w" "fs_after_crash w' = fs_after_crash w" "wal_fsync w' = wal_fsync w"
    and "wr_file w' = wr_file w" "wr_pos w' = wr_pos w" "wr_buf w' = wr_buf w"
    and "length (fs_inodes w) \<le> length (fs_inodes w')"
    and "\<And>t. fs_temp w' = Some t \<Longrightarrow> t < length (fs_inodes w') \<and> Some t \<notin> set (fs_after_crash w0)"
  shows "before w0 rs w'"
proof -
  have f: "data_of w' (wr_file w0) = data_of w (wr_file w0)"
    "synced_of w' (wr_file w0) = synced_of w (wr_file w0)"
    using assms(2) before_active [OF assms(1)] by auto
  have "disk_ok w'"
    using assms(1,2,9,10) unfolding before_def wal_holds_def disk_ok_def assms(3,4)
    by (metis (no_types, lifting) less_le_trans)
  then show ?thesis
    using assms(1) f assms(2,5-9) unfolding before_def wal_holds_def writer_ok_def content_def keeps_def assms(3,4)
    by auto
qed

lemma runs_flush_before:
  "runs (before w0 rs) bw_flush (\<lambda>_ w. before w0 rs w \<and> wr_buf w = []) (before w0 rs)"
proof (rule runsI)
  fix w r w' assume b: "before w0 rs w" and run: "bw_flush w = (r, w')"
  have ok: "writer_ok w" using b by (simp add: before_def wal_holds_def)
  note acc = bw_flush_accepts(1) [OF ok run]
  have "wal_holds (rs @ []) w'"
    using accepts_wal_holds [of rs w "[]" w'] acc b by (simp add: before_def)
  then have "before w0 rs w'"
    using b accepts_facts [OF acc] accepts_content [OF acc ok] by (auto simp: before_def keeps_def)
  then show "case r of Inr x \<Rightarrow> before w0 rs w' \<and> wr_buf w' = [] | Inl e \<Rightarrow> before w0 rs w'"
    using bw_flush_accepts(2) [OF ok run] by (cases r) auto
qed

lemma runs_create_temp:
  "runs (before w0 rs) create_temp (\<lambda>t w. before w0 rs w \<and> temp_is t [] w) (before w0 rs)"
  unfolding create_temp_def
proof (rule runs_try [OF runs_call], simp, simp, rule runsI)
  fix w and r :: "io_error + nat" and w'
  assume b: "before w0 rs w"
    and run: "(case fs_temp w of
        Some n \<Rightarrow> (Inr n, upd_inode n (\<lambda>i. \<lparr>ino_data = [], ino_synced = 0\<rparr>) w)
      | None \<Rightarrow>
          (let n = length (fs_inodes w) in
           (Inr n, w\<lparr>fs_inodes := fs_inodes w @ [\<lparr>ino_data = [], ino_synced = 0\<rparr>],
                     fs_temp := Some n\<rparr>))) = (r, w')"
  have ac: "\<And>i. Some i \<in> set (fs_after_crash w0) \<Longrightarrow> i < length (fs_inodes w)"
    using b by (auto simp: before_def wal_holds_def disk_ok_def)
  show "case r of Inr t \<Rightarrow> before w0 rs w' \<and> temp_is t [] w' | Inl e \<Rightarrow> before w0 rs w'"
  proof (cases "fs_temp w")
    case None
    let ?n = "length (fs_inodes w)"
    have w': "w' = w\<lparr>fs_inodes := fs_inodes w @ [\<lparr>ino_data = [], ino_synced = 0\<rparr>], fs_temp := Some ?n\<rparr>"
      and r: "r = Inr ?n" using run None by (simp_all add: Let_def)
    have "before w0 rs w'"
      by (rule before_transfer [OF b])
        (use ac in \<open>auto simp: w' data_of_def synced_of_def nth_append\<close>)
    then show ?thesis by (simp add: r w' temp_is_def data_of_def synced_of_def)
  next
    case (Some n)
    have n: "n < length (fs_inodes w)" using b Some by (auto simp: before_def wal_holds_def disk_ok_def)
    have w': "w' = upd_inode n (\<lambda>i. \<lparr>ino_data = [], ino_synced = 0\<rparr>) w" and r: "r = Inr n"
      using run Some by simp_all
    have "before w0 rs w'"
      by (rule before_transfer [OF b])
        (use before_temp_other [OF b Some] n Some b in
          \<open>auto simp: w' data_of_upd synced_of_upd before_def wal_holds_def disk_ok_def\<close>)
    then show ?thesis using n Some by (simp add: r w' temp_is_def data_of_upd synced_of_upd)
  qed
qed

text \<open>Writing to the temporary file.\<close>

lemma temp_write:
  assumes "file_write_all t (length x) bs w = (r, p, w')" and "before w0 rs w" and "temp_is t x w"
  shows "before w0 rs w'" and "r = Inr () \<Longrightarrow> temp_is t (x @ bs) w'"
proof -
  have t: "t < length (fs_inodes w)" "fs_temp w = Some t" "data_of w t = x" "synced_of w t \<le> length x"
    using assms(3) by (simp_all add: temp_is_def)
  obtain k ev where w': "w' = grow_file t (take k bs) ev w" and r: "r = Inr () \<longleftrightarrow> k = length bs"
    using file_write_all_end [OF assms(1) t(1)] t(3,4) by auto
  show "before w0 rs w'"
    by (rule before_transfer [OF assms(2)])
      (use before_temp_other [OF assms(2) t(2)] t assms(2) in
        \<open>auto simp: w' data_of_grow_file synced_of_grow_file before_def wal_holds_def disk_ok_def\<close>)
  show "r = Inr () \<Longrightarrow> temp_is t (x @ bs) w'"
    using t r by (simp add: w' temp_is_def data_of_grow_file synced_of_grow_file)
qed

lemma runs_write_header:
  "runs (\<lambda>w. before w0 rs w \<and> temp_is t [] w) (write_header t)
    (\<lambda>_ w. before w0 rs w \<and> temp_is t HEADER_MAGIC w) (before w0 rs)"
proof (rule runsI)
  fix w r w' assume b: "before w0 rs w \<and> temp_is t [] w" and run: "write_header t w = (r, w')"
  obtain p where f: "file_write_all t (length ([] :: u8 list)) HEADER_MAGIC w = (r, p, w')"
    using run by (auto simp: write_header_def split: prod.splits)
  from temp_write [OF f] b
  show "case r of Inr x \<Rightarrow> before w0 rs w' \<and> temp_is t HEADER_MAGIC w' | Inl e \<Rightarrow> before w0 rs w'"
    by (cases r) auto
qed

lemma runs_write_survivors:
  "runs (\<lambda>w. before w0 rs w \<and> temp_is t x w) (write_survivors t ss (length x))
    (\<lambda>offset w. before w0 rs w \<and> temp_is t (x @ frames ss) w \<and> offset = length (x @ frames ss))
    (before w0 rs)"
proof (induction ss arbitrary: x)
  case Nil
  then show ?case by (simp add: runs_def)
next
  case (Cons s ss)
  show ?case
  proof (rule runsI)
    fix w r w' assume b: "before w0 rs w \<and> temp_is t x w"
      and run: "write_survivors t (s # ss) (length x) w = (r, w')"
    obtain r1 p w1 where f: "file_write_all t (length x) (encode s) w = (r1, p, w1)"
      by (metis prod_cases3)
    note tw = temp_write [OF f conjunct1 [OF b] conjunct2 [OF b]]
    show "case r of
        Inr offset \<Rightarrow> before w0 rs w' \<and> temp_is t (x @ frames (s # ss)) w' \<and> offset = length (x @ frames (s # ss))
      | Inl e \<Rightarrow> before w0 rs w'"
    proof (cases r1)
      case (Inl e)
      then show ?thesis using run f tw(1) by auto
    next
      case (Inr u)
      then have b1: "before w0 rs w1 \<and> temp_is t (x @ encode s) w1" using tw by simp
      have run1: "write_survivors t ss (length (x @ encode s)) w1 = (r, w')" using run f Inr by simp
      show ?thesis
      proof (cases r)
        case (Inl e)
        then show ?thesis using runs_Inl [OF Cons.IH b1 run1 [unfolded Inl]] by simp
      next
        case (Inr offset)
        then show ?thesis using runs_Inr [OF Cons.IH b1 run1 [unfolded Inr]] by simp
      qed
    qed
  qed
qed

definition synced_temp :: "nat \<Rightarrow> u8 list \<Rightarrow> wal \<Rightarrow> bool" where
  "synced_temp t x w \<longleftrightarrow> temp_is t x w \<and> synced_of w t = length x"

lemma runs_sync_temp:
  "runs (\<lambda>w. before w0 rs w \<and> temp_is t x w) (sync_data t)
    (\<lambda>_ w. before w0 rs w \<and> synced_temp t x w) (before w0 rs)"
proof (rule runsI)
  fix w r w' assume b: "before w0 rs w \<and> temp_is t x w" and run: "sync_data t w = (r, w')"
  then have t: "t < length (fs_inodes w)" "fs_temp w = Some t" by (simp_all add: temp_is_def)
  note eff = sync_data_effect [OF run t(1)]
  have s: "i \<noteq> t \<Longrightarrow> synced_of w' i = synced_of w i" for i
    using eff(2,3) by (cases "r = Inr ()") auto
  have "before w0 rs w'"
    by (rule before_transfer [OF conjunct1 [OF b]])
      (use before_temp_other [OF conjunct1 [OF b] t(2)] b t eff s in
        \<open>auto simp: before_def wal_holds_def disk_ok_def\<close>)
  moreover have "synced_temp t x w'" if "r = Inr ()"
    using b t eff that by (simp add: synced_temp_def temp_is_def)
  ultimately show "case r of Inr y \<Rightarrow> before w0 rs w' \<and> synced_temp t x w' | Inl e \<Rightarrow> before w0 rs w'"
    by (cases r) auto
qed

lemma runs_write_temp:
  "runs (before w0 rs) (write_temp ss)
    (\<lambda>offset w. before w0 rs w \<and> (\<exists>t. synced_temp t (segment ss) w) \<and> offset = length (segment ss))
    (before w0 rs)"
proof -
  have last: "runs (\<lambda>w. before w0 rs w \<and> temp_is t (HEADER_MAGIC @ frames ss) w
        \<and> offset = length (HEADER_MAGIC @ frames ss))
      (try_io (sync_data t) (\<lambda>_ w. (Inr offset, w)))
      (\<lambda>offset w. before w0 rs w \<and> (\<exists>t. synced_temp t (segment ss) w) \<and> offset = length (segment ss))
      (before w0 rs)" for t offset
  proof (cases "offset = length (HEADER_MAGIC @ frames ss)")
    case True
    have pre: "runs (\<lambda>w. before w0 rs w \<and> temp_is t (HEADER_MAGIC @ frames ss) w)
      (try_io (sync_data t) (\<lambda>_ w. (Inr offset, w)))
      (\<lambda>offset w. before w0 rs w \<and> (\<exists>t. synced_temp t (segment ss) w) \<and> offset = length (segment ss))
      (before w0 rs)"
      by (rule runs_try [OF runs_sync_temp]) (auto simp: runs_def segment_def True)
    show ?thesis by (rule runs_weaken [OF pre]) simp_all
  qed (simp add: runs_def)
  show ?thesis
    unfolding write_temp_def
    by (intro runs_try [OF runs_create_temp] runs_try [OF runs_write_header]
        runs_try [OF runs_write_survivors [of w0 rs _ HEADER_MAGIC, unfolded length_HEADER_MAGIC]] last)
qed

lemma runs_rename:
  "runs (\<lambda>w. before w0 rs w \<and> wr_buf w = b \<and> (\<exists>t. synced_temp t (segment ss) w)) rename_temp
    (\<lambda>_ w. \<exists>t. after w0 rs ss t w) (before w0 rs)"
  unfolding rename_temp_def
proof (rule runs_try [OF runs_call], simp add: synced_temp_def, simp, rule runs_pure)
  fix w assume b: "before w0 rs w \<and> wr_buf w = b \<and> (\<exists>t. synced_temp t (segment ss) w)"
  then obtain t where t: "fs_temp w = Some t" "t < length (fs_inodes w)" "data_of w t = segment ss"
    "synced_of w t = length (segment ss)" by (auto simp: synced_temp_def temp_is_def)
  let ?w = "w\<lparr>fs_active := fs_temp w, fs_temp := None, fs_after_crash := fs_temp w # fs_after_crash w\<rparr>"
  have same: "data_of ?w = data_of w" "synced_of ?w = synced_of w"
    by (auto simp: data_of_def synced_of_def)
  have "after w0 rs ss t ?w"
    using b t before_temp_other [OF conjunct1 [OF b] t(1)]
    unfolding after_def same disk_ok_def keeps_def
    by (auto simp: before_def wal_holds_def disk_ok_def keeps_def content_def)
  then show "\<exists>t. after w0 rs ss t ?w" by blast
qed

section \<open>The whole checkpoint\<close>

definition survivors_of :: "lsn \<Rightarrow> wal_record list \<Rightarrow> wal_record list" where
  "survivors_of u rs = filter (\<lambda>r. u < wal_lsn r) rs"

definition mark_of :: "lsn \<Rightarrow> wal_record list \<Rightarrow> lsn" where
  "mark_of u ss = max (case max_lsn ss of None \<Rightarrow> u | Some l \<Rightarrow> l) u"

text \<open>Where a checkpoint can have stopped.\<close>

definition stopped :: "wal \<Rightarrow> wal_record list \<Rightarrow> wal_record list \<Rightarrow> wal \<Rightarrow> bool" where
  "stopped w0 rs ss w \<longleftrightarrow> before w0 rs w \<or> (\<exists>t. after w0 rs ss t w)"

lemma after_process [simp]:
  "after w0 rs ss t (w\<lparr>wr_file := n\<rparr>) = after w0 rs ss t w"
  "after w0 rs ss t (w\<lparr>wr_pos := p\<rparr>) = after w0 rs ss t w"
  "after w0 rs ss t (w\<lparr>wr_buf := b\<rparr>) = after w0 rs ss t w"
  "after w0 rs ss t (w\<lparr>write_offset := p\<rparr>) = after w0 rs ss t w"
  "after w0 rs ss t (w\<lparr>last_lsn := l\<rparr>) = after w0 rs ss t w"
  by (simp_all add: after_def keeps_def)

lemma runs_finish:
  assumes "all_fit ss"
  shows "runs (\<lambda>w. \<exists>t. after w0 rs ss t w)
    (try_io sync_dir (\<lambda>_. try_io open_active (\<lambda>n. try_io sys_call (\<lambda>_ w.
       (Inr (), w\<lparr>wr_file := n, wr_pos := length (segment ss), wr_buf := [],
                  write_offset := length (segment ss), last_lsn := l\<rparr>)))))
    (\<lambda>_ w. \<exists>t. after w0 rs ss t w \<and> wal_holds ss w \<and> wr_buf w = [] \<and> wr_file w = t
        \<and> write_offset w = length (segment ss) \<and> last_lsn w = l)
    (stopped w0 rs ss)"
proof -
  let ?A = "\<lambda>w. \<exists>t. after w0 rs ss t w"
  have dir: "runs ?A sync_dir (\<lambda>_. ?A) (stopped w0 rs ss)"
  proof (rule runs_weaken [OF runs_sync_dir [of ?A]])
    fix w assume "?A w"
    then obtain t where "after w0 rs ss t w" by blast
    then have "after w0 rs ss t (w\<lparr>fs_after_crash := [fs_active w]\<rparr>)"
      by (auto simp: after_def disk_ok_def keeps_def)
    then show "?A (w\<lparr>fs_after_crash := [fs_active w]\<rparr>)" by blast
  qed (auto simp: stopped_def)
  have last: "runs (\<lambda>w. ?A w \<and> fs_active w = Some n)
      (try_io sys_call (\<lambda>_ w. (Inr (), w\<lparr>wr_file := n, wr_pos := length (segment ss), wr_buf := [],
                  write_offset := length (segment ss), last_lsn := l\<rparr>)))
      (\<lambda>_ w. \<exists>t. after w0 rs ss t w \<and> wal_holds ss w \<and> wr_buf w = [] \<and> wr_file w = t
        \<and> write_offset w = length (segment ss) \<and> last_lsn w = l) (stopped w0 rs ss)" for n
  proof (rule runs_try [OF runs_call], simp, force simp: stopped_def, rule runs_pure)
    fix w assume "?A w \<and> fs_active w = Some n"
    then have a: "after w0 rs ss n w" by (auto simp: after_def)
    let ?w = "w\<lparr>wr_file := n, wr_pos := length (segment ss), wr_buf := [],
                  write_offset := length (segment ss), last_lsn := l\<rparr>"
    have "wal_holds ss ?w"
      using a assms by (simp add: after_def wal_holds_def writer_ok_def content_def)
    then show "\<exists>t. after w0 rs ss t ?w \<and> wal_holds ss ?w \<and> wr_buf ?w = [] \<and> wr_file ?w = t
        \<and> write_offset ?w = length (segment ss) \<and> last_lsn ?w = l" using a by simp
  qed
  show ?thesis
    by (intro runs_try [OF dir] runs_try [OF runs_open_active last]) (auto simp: stopped_def)
qed

lemma runs_checkpoint:
  assumes "ss = survivors_of u rs"
  shows "runs (before w0 rs) (checkpoint u)
    (\<lambda>_ w. \<exists>t. after w0 rs ss t w \<and> wal_holds ss w \<and> wr_buf w = [] \<and> wr_file w = t
        \<and> write_offset w = length (segment ss) \<and> last_lsn w = mark_of u ss)
    (stopped w0 rs ss)"
proof (cases "all_fit rs")
  case False
  then show ?thesis by (simp add: runs_def before_def wal_holds_def)
next
  case True
  let ?B = "\<lambda>w. before w0 rs w \<and> wr_buf w = []"
  let ?R = "\<lambda>w. \<exists>t. after w0 rs ss t w \<and> wal_holds ss w \<and> wr_buf w = [] \<and> wr_file w = t
        \<and> write_offset w = length (segment ss) \<and> last_lsn w = mark_of u ss"
  have fit: "all_fit ss" using True assms by (simp add: survivors_of_def list_all_iff)
  have fl: "runs (before w0 rs) bw_flush (\<lambda>_. ?B) (stopped w0 rs ss)"
    by (rule runs_weaken [OF runs_flush_before]) (auto simp: stopped_def)
  have rd: "runs ?B read_all (\<lambda>bytes w. before w0 rs w \<and> bytes = segment rs) (stopped w0 rs ss)"
  proof (rule runs_weaken [OF runs_read_all [of ?B "stopped w0 rs ss"]])
    fix bytes w assume "?B w \<and> (\<exists>n. fs_active w = Some n \<and> bytes = data_of w n)"
    then show "before w0 rs w \<and> bytes = segment rs"
      by (auto simp: before_def wal_holds_def content_def)
  qed (auto simp: stopped_def)
  have dec: "fst (decode_segment (segment rs)) = rs"
    using decode_segment_image [of rs "[]"] True by (simp add: torn_def)
  have wt: "runs (before w0 rs) (write_temp ss)
      (\<lambda>offset w. (before w0 rs w \<and> (\<exists>t. synced_temp t (segment ss) w)) \<and> offset = length (segment ss))
      (stopped w0 rs ss)"
    by (rule runs_weaken [OF runs_write_temp]) (auto simp: stopped_def)
  have rn: "runs (\<lambda>w. (before w0 rs w \<and> (\<exists>t. synced_temp t (segment ss) w)) \<and> P) rename_temp
      (\<lambda>_ w. (\<exists>t. after w0 rs ss t w) \<and> P) (stopped w0 rs ss)" for P
  proof (rule runsI)
    fix w r w'
    assume b: "(before w0 rs w \<and> (\<exists>t. synced_temp t (segment ss) w)) \<and> P"
      and run: "rename_temp w = (r, w')"
    then have pre: "before w0 rs w \<and> wr_buf w = wr_buf w \<and> (\<exists>t. synced_temp t (segment ss) w)" by simp
    show "case r of Inr x \<Rightarrow> (\<exists>t. after w0 rs ss t w') \<and> P | Inl e \<Rightarrow> stopped w0 rs ss w'"
    proof (cases r)
      case (Inl e)
      then show ?thesis
        using runs_Inl [OF runs_rename pre run [unfolded Inl]] by (simp add: stopped_def)
    next
      case (Inr x)
      then show ?thesis using runs_Inr [OF runs_rename pre run [unfolded Inr]] b by simp
    qed
  qed
  have fin: "runs (\<lambda>w. (\<exists>t. after w0 rs ss t w) \<and> offset = length (segment ss))
      (try_io sync_dir (\<lambda>_. try_io open_active (\<lambda>n. try_io sys_call (\<lambda>_ w.
       (Inr (), w\<lparr>wr_file := n, wr_pos := offset, wr_buf := [],
                  write_offset := offset, last_lsn := mark_of u ss\<rparr>)))))
      (\<lambda>_. ?R) (stopped w0 rs ss)" for offset
    using runs_finish [OF fit, of w0 rs "mark_of u ss"]
    by (cases "offset = length (segment ss)") (simp_all add: runs_def)
  have tail: "runs (before w0 rs) (try_io (write_temp ss) (\<lambda>offset. try_io rename_temp (\<lambda>_.
      try_io sync_dir (\<lambda>_. try_io open_active (\<lambda>n. try_io sys_call (\<lambda>_ w.
       (Inr (), w\<lparr>wr_file := n, wr_pos := offset, wr_buf := [],
                  write_offset := offset, last_lsn := mark_of u ss\<rparr>)))))))
      (\<lambda>_. ?R) (stopped w0 rs ss)"
    by (intro runs_try [OF wt] runs_try [OF rn] fin)
  show ?thesis
    unfolding checkpoint_def
  proof (rule runs_try [OF fl], rule runs_try [OF rd])
    fix bytes
    show "runs (\<lambda>w. before w0 rs w \<and> bytes = segment rs)
      (let survivors = filter (\<lambda>r. u < wal_lsn r) (fst (decode_segment bytes)) in
         try_io (write_temp survivors) (\<lambda>new_offset. try_io rename_temp (\<lambda>_. try_io sync_dir (\<lambda>_.
               try_io open_active (\<lambda>n. try_io sys_call (\<lambda>_ w.
                   (Inr (), w\<lparr>wr_file := n, wr_pos := new_offset, wr_buf := [],
                              write_offset := new_offset,
                              last_lsn := max (case max_lsn survivors of
                                                 None \<Rightarrow> u | Some l \<Rightarrow> l) u\<rparr>)))))))
      (\<lambda>_. ?R) (stopped w0 rs ss)"
      using tail dec assms
      by (cases "bytes = segment rs") (simp_all add: survivors_of_def mark_of_def runs_def Let_def)
  qed
qed

end
