(* ===== verification/Durability.thy ===== *)
theory Durability
  imports Checkpoint
begin

text \<open>
  What the write-ahead log promises and where the code falls short of it: the
  \<open>WriteAheadLog\<close> contract interpreted on \<open>append_batch\<close>, \<open>checkpoint\<close> and \<open>recover\<close>;
  durability across a crash after an append, during a checkpoint and with a torn tail;
  and three runs in which a record that was acknowledged is lost.
\<close>

section \<open>The contract\<close>

lemma checkpoint_holds:
  assumes "wal_holds rs w" and "checkpoint u w = (Inr x, w')"
  shows "wal_holds (filter (\<lambda>r. u < wal_lsn r) rs) w'"
    and "last_lsn w' = mark_of u (survivors_of u rs)" and "wr_buf w' = []"
    and "synced_of w' (wr_file w') = length (segment (survivors_of u rs))"
    and "write_offset w' = length (segment (survivors_of u rs))"
proof -
  have "before w rs w" using assms(1) by (simp add: before_def keeps_def)
  from runs_Inr [OF runs_checkpoint [OF refl] this assms(2)]
  show "wal_holds (filter (\<lambda>r. u < wal_lsn r) rs) w'"
    "last_lsn w' = mark_of u (survivors_of u rs)" "wr_buf w' = []"
    "synced_of w' (wr_file w') = length (segment (survivors_of u rs))"
    "write_offset w' = length (segment (survivors_of u rs))"
    by (auto simp: survivors_of_def after_def)
qed

lemma append_holds:
  assumes "wal_holds rs w" and "all_fit recs" and "append_batch recs w = (Inr l, w')"
  shows "wal_holds (rs @ recs) w'"
proof (cases "recs = []")
  case True
  then show ?thesis using assms by (simp add: append_batch_def)
next
  case False
  then show ?thesis using append_ok(1) [OF assms] by simp
qed

interpretation wal: wal_trait append_batch checkpoint recover wal_holds
  by unfold_locales (auto intro: append_holds checkpoint_holds(1) dest: recover_holds)

section \<open>A fresh log\<close>

lemma disk_ok_empty [simp]: "disk_ok (empty_dir ev)"
  by (simp add: disk_ok_def empty_dir_def)

lemma wal_open_empty:
  assumes "wal_open fsync (empty_dir ev) = (Inr u, w)"
  shows "wal_holds [] w" and "wr_buf w = []" and "wal_fsync w = fsync"
    and "synced_of w (wr_file w) = HEADER_LEN" and "set (fs_after_crash w) = {Some (wr_file w), None}"
proof -
  note o = wal_open_ok [OF assms disk_ok_empty]
  have c: "content w = HEADER_MAGIC"
    using o(5) by (simp add: active_data_def empty_dir_def HEADER_LEN_def)
  show "wal_holds [] w" using o(1) c by (simp add: opened_def wal_holds_def segment_def)
  show "wr_buf w = []" "wal_fsync w = fsync" using o by simp_all
  show "synced_of w (wr_file w) = HEADER_LEN"
    using o(8) by (simp add: active_data_def empty_dir_def HEADER_LEN_def)
  show "set (fs_after_crash w) = {Some (wr_file w), None}" using o(7) by (simp add: empty_dir_def)
qed

text \<open>With no failing call the operations succeed.\<close>

declare try_io_quiet [simp] sys_call_quiet [simp] put_bytes_events [simp] sync_data_quiet [simp]

lemma write_frames_quiet:
  "fs_events w = [] \<Longrightarrow> \<exists>x w'. write_frames rs b h w = (Inr x, w') \<and> fs_events w' = []"
proof (induction rs arbitrary: b h w)
  case Nil
  then show ?case by simp
next
  case (Cons r rs)
  obtain w1 where "bw_write_all (encode r) w = (Inr (), w1)" "fs_events w1 = []"
    using bw_write_all_quiet [OF Cons.prems, of "encode r"] by auto
  with Cons.IH [of w1] show ?case by simp
qed

lemma append_quiet:
  assumes "fs_events w = []"
  shows "\<exists>l w'. append_batch recs w = (Inr l, w') \<and> fs_events w' = []"
proof (cases "recs = []")
  case True
  then show ?thesis using assms by (simp add: append_batch_def)
next
  case False
  obtain b h w1 where 1: "write_frames recs 0 (last_lsn w) w = (Inr (b, h), w1)" "fs_events w1 = []"
    using write_frames_quiet [OF assms, of recs 0 "last_lsn w"] by auto
  obtain w2 where "bw_flush w1 = (Inr (), w2)" "fs_events w2 = []"
    using bw_flush_quiet [OF 1(2)] by blast
  then show ?thesis using 1 False by (simp add: append_batch_def) (simp add: try_io_def)
qed

lemma read_all_quiet:
  "fs_events w = [] \<Longrightarrow> fs_active w = Some n \<Longrightarrow> read_all w = (Inr (data_of w n), w)"
  by (simp add: read_all_def open_active_def)

lemma cut_tail_quiet:
  assumes "fs_events w = []" and "fs_active w = Some n"
  shows "\<exists>w'. cut_tail g w = (Inr (), w')"
  using assms
  by (simp add: cut_tail_def open_active_def set_len_def sync_dir_def benign_def)

lemma recover_quiet:
  assumes "fs_events w = []" and "fs_active w = Some n"
  shows "\<exists>rs w'. recover w = (Inr rs, w')"
proof -
  obtain w1 where 1: "bw_flush w = (Inr (), w1)" "fs_events w1 = []" "fs_active w1 = Some n"
    using bw_flush_quiet [OF assms(1)] assms(2) by auto
  obtain rs g where "decode_segment (data_of w1 n) = (rs, g)" by fastforce
  with 1 cut_tail_quiet [OF 1(2,3), of g] show ?thesis
    by (auto simp: recover_def read_all_quiet try_io_def)
qed

lemma wal_open_quiet:
  assumes "fs_events w = []" and "fs_active w = Some n"
    and "HEADER_LEN \<le> length (data_of w n)" and "take HEADER_LEN (data_of w n) = HEADER_MAGIC"
  shows "\<exists>w'. wal_open fsync w = (Inr (), w') \<and> fs_events w' = [] \<and> fs_active w' = Some n"
  using assms by (simp add: wal_open_def create_active_def check_header_def Let_def)

lemma restart_quiet:
  assumes "can_crash w (Some i) n" and "disk_ok w" and "take HEADER_LEN (take n (data_of w i)) = HEADER_MAGIC"
  shows "\<exists>w1 w2. wal_open fsync (crash (Some i) n [] w) = (Inr (), w1)
    \<and> recover w1 = (Inr (crash_log w (Some i) n), w2)"
proof -
  let ?w = "crash (Some i) n [] w"
  have d: "active_data ?w = take n (data_of w i)" using crash_disk(2) [OF assms(2,1)] by simp
  have a: "fs_active ?w = Some i" "fs_events ?w = []" by (simp_all add: crash_def Let_def)
  then have d': "data_of ?w i = take n (data_of w i)" using d by (simp add: active_data_def)
  have "length (take HEADER_LEN (take n (data_of w i))) = HEADER_LEN" using assms(3) by simp
  then have "HEADER_LEN \<le> length (data_of ?w i)" by (simp add: d' min_def split: if_splits)
  then obtain w1 where w1: "wal_open fsync ?w = (Inr (), w1)" "fs_events w1 = []" "fs_active w1 = Some i"
    using wal_open_quiet [OF a(2,1)] assms(3) d' by metis
  obtain rs w2 where "recover w1 = (Inr rs, w2)" using recover_quiet [OF w1(2,3)] by blast
  with restart_ok(1) [OF assms(2,1) w1(1) this] w1 show ?thesis by blast
qed

section \<open>Crash images\<close>

lemma image_header:
  assumes "data_of w i @ x = segment rs" and "can_crash w (Some i) n" and "HEADER_LEN \<le> synced_of w i"
  shows "take HEADER_LEN (take n (data_of w i)) = HEADER_MAGIC"
proof -
  have n: "HEADER_LEN \<le> n" "n \<le> length (data_of w i)"
    using assms(2,3) by (simp_all add: can_crash_def)
  then have "take HEADER_LEN (take n (data_of w i)) = take HEADER_LEN (data_of w i @ x)"
    by (simp add: min_absorb1)
  then show ?thesis by (simp add: assms(1))
qed

text \<open>The machine comes back: what a restart without further failures does.\<close>

definition restarts_with :: "wal \<Rightarrow> nat option \<Rightarrow> nat \<Rightarrow> wal_record list \<Rightarrow> bool" where
  "restarts_with w a n rs \<longleftrightarrow>
     (\<forall>fsync. \<exists>w1 w2. wal_open fsync (crash a n [] w) = (Inr (), w1) \<and> recover w1 = (Inr rs, w2)
        \<and> wal_holds rs w2)
   \<and> (\<forall>fsync ev u w1 rs' w2. wal_open fsync (crash a n ev w) = (Inr u, w1) \<longrightarrow>
        recover w1 = (Inr rs', w2) \<longrightarrow> rs' = rs)"

lemma restarts_with_log:
  assumes "disk_ok w" and "can_crash w (Some i) n"
    and "take HEADER_LEN (take n (data_of w i)) = HEADER_MAGIC"
  shows "restarts_with w (Some i) n (crash_log w (Some i) n)"
  using restart_quiet [OF assms(2,1,3)] restart_ok [OF assms(1,2)] unfolding restarts_with_def by metis

lemma restarts_prefix:
  assumes "data_of w i @ x = segment rs" and "all_fit rs" and "disk_ok w" and "can_crash w (Some i) n"
    and "m \<le> length rs" and "length (segment (take m rs)) \<le> synced_of w i"
  shows "\<exists>k. m \<le> k \<and> k \<le> length rs \<and> restarts_with w (Some i) n (take k rs)"
proof -
  have "HEADER_LEN \<le> synced_of w i" using assms(6) segment_simps(2) [of "take m rs"] by linarith
  from restarts_with_log [OF assms(3,4) image_header [OF assms(1,4) this]]
    crash_log_prefix [OF assms(1,2,4,5,6)] show ?thesis by metis
qed

text \<open>The log is on one file, and the first \<open>m\<close> records of it are stable.\<close>

definition settled :: "nat \<Rightarrow> wal_record list \<Rightarrow> wal \<Rightarrow> bool" where
  "settled m rs w \<longleftrightarrow> wal_holds rs w \<and> set (fs_after_crash w) = {Some (wr_file w)}
     \<and> m \<le> length rs \<and> length (segment (take m rs)) \<le> synced_of w (wr_file w)"

lemma settled_crash:
  assumes "settled m rs w" and "can_crash w a n"
  shows "\<exists>k. m \<le> k \<and> k \<le> length rs \<and> restarts_with w a n (take k rs)"
proof -
  have "a = Some (wr_file w)" using assms by (auto simp: settled_def can_crash_def)
  then show ?thesis
    using restarts_prefix [of w "wr_file w" "wr_buf w" rs n m] assms
    by (simp add: settled_def wal_holds_def content_def)
qed

lemma append_settled:
  assumes "settled m rs w" and "wal_fsync w" and "all_fit recs" and "recs \<noteq> []"
    and "append_batch recs w = (Inr l, w')"
  shows "settled (length (rs @ recs)) (rs @ recs) w'"
  using append_ok [of rs w recs l w'] assms by (simp add: settled_def same_log_def)

lemma same_log_settled:
  assumes "settled m rs w" and "same_log w w'" and "wal_holds (rs @ recs) w'"
  shows "settled m (rs @ recs) w'"
proof -
  have "synced_of w (wr_file w) \<le> length (data_of w (wr_file w))"
    using assms(1) by (auto simp: settled_def wal_holds_def writer_ok_def)
  then have "synced_of w (wr_file w) \<le> synced_of w' (wr_file w)" using assms(2) by (simp add: same_log_def)
  then show ?thesis using assms by (simp add: settled_def same_log_def)
qed

lemma stopped_crash:
  assumes "settled m rs w" and "stopped w rs ss w'" and "all_fit ss" and "can_crash w' a n"
  shows "(\<exists>k. m \<le> k \<and> k \<le> length rs \<and> restarts_with w' a n (take k rs)) \<or> restarts_with w' a n ss"
  using assms(2) unfolding stopped_def
proof (elim disjE exE)
  assume b: "before w rs w'"
  have "synced_of w (wr_file w) \<le> synced_of w' (wr_file w')"
    using b assms(1) by (simp add: before_def keeps_def settled_def)
  then have "settled m rs w'" using b assms(1) by (auto simp: before_def settled_def)
  from settled_crash [OF this assms(4)] show ?thesis ..
next
  fix t assume af: "after w rs ss t w'"
  have a: "a = Some t \<or> a = Some (wr_file w)"
    using af assms(1,4) by (auto simp: after_def settled_def can_crash_def)
  have dk: "disk_ok w'" using af by (simp add: after_def)
  show ?thesis
  proof (cases "a = Some t")
    case True
    have "length (segment (take (length ss) ss)) \<le> synced_of w' t" using af by (simp add: after_def)
    moreover have "data_of w' t @ [] = segment ss" using af by (simp add: after_def)
    ultimately have "restarts_with w' (Some t) n ss"
      using restarts_prefix [of w' t "[]" ss n "length ss"] dk assms(3,4) True by auto
    then show ?thesis using True by simp
  next
    case False
    then have aw: "a = Some (wr_file w)" using a by simp
    obtain x where "data_of w' (wr_file w) @ x = segment rs" using af by (auto simp: after_def)
    moreover have "synced_of w (wr_file w) \<le> synced_of w' (wr_file w)"
      using af assms(1) by (simp add: after_def keeps_def settled_def)
    ultimately show ?thesis
      using restarts_prefix [of w' "wr_file w" x rs n m] dk assms(1,4) aw
      by (auto simp: settled_def wal_holds_def)
  qed
qed

lemma checkpoint_stopped:
  assumes "wal_holds rs w" and "checkpoint u w = (r, w')"
  shows "stopped w rs (survivors_of u rs) w'"
proof -
  have b: "before w rs w" using assms(1) by (simp add: before_def keeps_def)
  show ?thesis
  proof (cases r)
    case (Inl e)
    then show ?thesis using runs_Inl [OF runs_checkpoint [OF refl] b] assms(2) by simp
  next
    case (Inr x)
    then show ?thesis
      using runs_Inr [OF runs_checkpoint [OF refl] b] assms(2) unfolding stopped_def by blast
  qed
qed

section \<open>Properties\<close>

text \<open>A log on one file with a stable header, as a restart leaves it.\<close>

definition sample_log :: wal where
  "sample_log =
     \<lparr>fs_inodes = [\<lparr>ino_data = HEADER_MAGIC, ino_synced = 8\<rparr>], fs_active = Some 0, fs_temp = None,
      fs_after_crash = [Some 0], fs_events = [], wal_fsync = True, wr_file = 0, wr_pos = 8,
      wr_buf = [], write_offset = 8, last_lsn = 0\<rparr>"

lemma sample_log_holds: "wal_holds [] sample_log" "settled 0 [] sample_log"
  by (simp_all add: sample_log_def wal_holds_def settled_def disk_ok_def writer_ok_def content_def
      segment_def data_of_def synced_of_def HEADER_LEN_def HEADER_MAGIC_def)

text \<open>
  C15: The log refines a list of records: through any sequence of appends, checkpoints and
  recoveries that all succeed, short writes included, each recovery returns exactly the
  records appended before it that no checkpoint has discarded, in order.
\<close>

theorem wal_refines_record_list:
  assumes "wal_holds rs w" and "list_all op_fits ops"
    and "log_run append_batch checkpoint recover ops w = Some (outs, w')"
  shows "outs = fst (ref_run ops rs) \<and> wal_holds (snd (ref_run ops rs)) w'"
  using wal.log_refines [OF assms] by simp

theorem wal_refines_record_list_witness:
  "\<exists>outs w'. log_run append_batch checkpoint recover [L_Append [sample_record], L_Recover] sample_log
      = Some (outs, w') \<and> outs = [[sample_record]]"
proof -
  obtain l w1 where 1: "append_batch [sample_record] sample_log = (Inr l, w1)" "fs_events w1 = []"
    using append_quiet [of sample_log "[sample_record]"] by (auto simp: sample_log_def)
  have fit: "all_fit [sample_record]" by (simp add: fits_sample)
  have "fs_active w1 = Some (wr_file w1)"
    using append_holds [OF sample_log_holds(1) fit 1(1)] by (simp add: wal_holds_def)
  from recover_quiet [OF 1(2) this] obtain rs2 w2 where 2: "recover w1 = (Inr rs2, w2)" by blast
  have run: "log_run append_batch checkpoint recover [L_Append [sample_record], L_Recover] sample_log
      = Some ([rs2], w2)" by (simp add: 1(1) 2)
  from wal_refines_record_list [OF sample_log_holds(1) _ run] have "[rs2] = [[sample_record]]"
    by (simp add: fits_sample)
  then show ?thesis using run by blast
qed

text \<open>
  C9: An acknowledged batch survives a crash. On a well-formed log whose directory entry is
  stable and whose appends are synced, and for a non-empty batch whose frames fit their length
  fields: after a successful \<open>append_batch\<close>, every crash before a further operation
  on the log is followed by a restart that returns the whole log, the new batch included.
\<close>

theorem acked_append_survives_crash:
  assumes "settled m rs w" and "wal_fsync w" and "all_fit recs" and "recs \<noteq> []"
    and "append_batch recs w = (Inr l, w')" and "can_crash w' a n"
  shows "restarts_with w' a n (rs @ recs)"
  using settled_crash [OF append_settled [OF assms(1-5)] assms(6)] by auto

theorem acked_append_survives_crash_witness:
  "\<exists>l w' n. append_batch [sample_record] sample_log = (Inr l, w') \<and> can_crash w' (Some 0) n
    \<and> restarts_with w' (Some 0) n [sample_record]"
proof -
  obtain l w1 where 1: "append_batch [sample_record] sample_log = (Inr l, w1)"
    using append_quiet [of sample_log "[sample_record]"] by (auto simp: sample_log_def)
  have fs: "wal_fsync sample_log" by (simp add: sample_log_def)
  have fit: "all_fit [sample_record]" by (simp add: fits_sample)
  have "settled 1 [sample_record] w1"
    using append_settled [OF sample_log_holds(2) fs fit _ 1] by simp
  moreover have "wr_file w1 = 0"
    using append_ok(3) [OF sample_log_holds(1) fit 1] by (simp add: same_log_def) (simp add: sample_log_def)
  ultimately have c: "can_crash w1 (Some 0) (length (data_of w1 0))"
    by (auto simp: settled_def can_crash_def wal_holds_def writer_ok_def)
  from acked_append_survives_crash [OF sample_log_holds(2) fs fit _ 1 c] show ?thesis
    using 1 c by (intro exI conjI) auto
qed

text \<open>
  C32: A torn tail costs only what was not stable.  On a settled log, wherever a crash cuts the segment, the
  restart returns a prefix of the log that has at least the records synced before, and the
  log then holds exactly that prefix.
\<close>

theorem crash_recovers_prefix:
  assumes "settled m rs w" and "can_crash w a n"
  shows "\<exists>k. m \<le> k \<and> k \<le> length rs \<and> restarts_with w a n (take k rs)"
  using assms by (rule settled_crash)

theorem crash_recovers_prefix_witness: "restarts_with sample_log (Some 0) 8 []"
proof -
  have "can_crash sample_log (Some 0) 8"
    by (simp add: can_crash_def sample_log_def synced_of_def data_of_def HEADER_LEN_def)
  from crash_recovers_prefix [OF sample_log_holds(2) this] show ?thesis by simp
qed

text \<open>
  C8: A checkpoint of a settled log is safe at every point.  Whatever call of \<open>checkpoint\<close> fails or is the last
  before a crash, the restart returns either the survivors or a prefix of the old log with
  every record that was stable, so no stable record above the watermark is lost.
\<close>

theorem checkpoint_crash_safe:
  assumes "settled m rs w" and "checkpoint u w = (r, w')" and "can_crash w' a n"
  shows "\<exists>rs'. restarts_with w' a n rs'
    \<and> (rs' = survivors_of u rs \<or> (\<exists>k \<ge> m. rs' = take k rs))
    \<and> set (survivors_of u (take m rs)) \<subseteq> set rs'"
proof -
  have h: "wal_holds rs w" using assms(1) by (simp add: settled_def)
  have fit: "all_fit (survivors_of u rs)"
    using h by (simp add: wal_holds_def survivors_of_def list_all_iff)
  have sub: "set (survivors_of u (take m rs)) \<subseteq> set (take k rs)" if "m \<le> k" for k
    using that set_take_subset_set_take [of m k rs] by (auto simp: survivors_of_def)
  have "set (survivors_of u (take m rs)) \<subseteq> set (survivors_of u rs)"
    by (auto simp: survivors_of_def dest: in_set_takeD)
  then show ?thesis
    using stopped_crash [OF assms(1) checkpoint_stopped [OF h assms(2)] fit assms(3)] sub by blast
qed

theorem checkpoint_crash_safe_witness:
  "\<exists>r w' rs'. checkpoint 5 sample_log = (r, w') \<and> restarts_with w' (fs_active w') 8 rs'
    \<and> (rs' = survivors_of 5 [] \<or> (\<exists>k \<ge> 0. rs' = take k []))"
proof -
  obtain r w' where c: "checkpoint 5 sample_log = (r, w')" by fastforce
  have st: "stopped sample_log [] [] w'"
    using checkpoint_stopped [OF sample_log_holds(1) c] by (simp add: survivors_of_def)
  have len: "8 = length (segment [])" by (simp add: segment_def HEADER_LEN_def)
  have s0: "8 \<le> synced_of w' 0" if "keeps sample_log w'"
    using that by (simp add: keeps_def sample_log_def synced_of_def)
  have "can_crash w' (fs_active w') 8"
    using st unfolding stopped_def
  proof (elim disjE exE)
    assume b: "before sample_log [] w'"
    then have "data_of w' 0 @ wr_buf w' = segment []" "wr_file w' = 0"
      by (auto simp: before_def wal_holds_def content_def sample_log_def)
    then have "length (data_of w' 0) \<le> 8" by (metis len le_add1 length_append)
    then show ?thesis
      using b s0 by (auto simp: before_def wal_holds_def writer_ok_def disk_ok_def can_crash_def
          \<open>wr_file w' = 0\<close>)
  next
    fix t assume "after sample_log [] [] t w'"
    then show ?thesis using len by (auto simp: after_def can_crash_def disk_ok_def)
  qed
  from checkpoint_crash_safe [OF sample_log_holds(2) c this] c show ?thesis by blast
qed

text \<open>
  C33: A failed append does not damage a settled log as long as its frames are smaller than the write
  buffer: the log then holds the old records and the first \<open>k\<close> of the new ones, nothing
  that was stable is lost, and later operations work on that log.
\<close>

theorem failed_append_keeps_log:
  assumes "settled m rs w" and "all_fit recs" and "list_all small recs"
    and "append_batch recs w = (Inl e, w')"
  shows "\<exists>k \<le> length recs. settled m (rs @ take k recs) w'"
proof -
  have "wal_holds rs w" using assms(1) by (simp add: settled_def)
  from append_err [OF this assms(2-4)] same_log_settled [OF assms(1)] show ?thesis by blast
qed

theorem failed_append_keeps_log_witness:
  "\<exists>w' k. append_batch [sample_record] (sample_log\<lparr>fs_events := [Short 3, Fail OtherIo]\<rparr>) = (Inl OtherIo, w')
    \<and> settled 0 (take k [sample_record]) w'"
proof -
  let ?w = "sample_log\<lparr>fs_events := [Short 3, Fail OtherIo]\<rparr>"
  have s: "settled 0 [] ?w" using sample_log_holds by (simp add: settled_def)
  have fit: "all_fit [sample_record]" by (simp add: fits_sample)
  have sm: "list_all small [sample_record]"
    by (simp add: small_def length_encode sample_record_def BUF_CAPACITY_def)
  obtain w' where run: "append_batch [sample_record] ?w = (Inl OtherIo, w')"
    by (simp add: append_batch_def try_io_def bw_write_all_def Let_def sample_log_def BUF_CAPACITY_def
        length_encode sample_record_def bw_flush_def file_write_all.simps sys_write_def next_event_def
        put_bytes_def upd_inode_def)
  from failed_append_keeps_log [OF s fit sm run] run show ?thesis by auto
qed

text \<open>
  Recovery is exact and idempotent.  On an opened log, whatever bytes follow the header,
  \<open>recover\<close> returns the records of the longest prefix that decodes, cuts the file to
  exactly that prefix, and sets the append position and the highest LSN to match; a second
  \<open>recover\<close> returns the same.
\<close>

theorem recover_truncates_and_repeats:
  assumes "opened w" and "recover w = (Inr rs, w')"
  shows "fst (decode_segment (content w)) = rs
    \<and> data_of w' (wr_file w') = take (length (segment rs)) (content w)
    \<and> data_of w' (wr_file w') = segment rs
    \<and> write_offset w' = length (segment rs) \<and> last_lsn w' = last_of rs
    \<and> (\<forall>rs2 w2. recover w' = (Inr rs2, w2) \<longrightarrow> rs2 = rs)"
proof -
  note r = recover_ok [OF assms]
  have d: "data_of w' (wr_file w') = segment rs"
    using r(2,3) by (simp add: wal_holds_def content_def)
  have "take (length (segment rs)) (content w) = segment rs"
    using decode_segment_sound(3) [OF r(1)] assms(1) by (simp add: opened_def)
  then show ?thesis using r d recover_holds(1) [OF r(2)] by auto
qed

theorem recover_truncates_and_repeats_witness:
  "\<exists>rs w'. recover (sample_log\<lparr>fs_inodes := [\<lparr>ino_data = HEADER_MAGIC @ [1, 2, 3], ino_synced = 8\<rparr>],
      wr_pos := 11\<rparr>) = (Inr rs, w') \<and> data_of w' (wr_file w') = HEADER_MAGIC"
proof -
  let ?w = "sample_log\<lparr>fs_inodes := [\<lparr>ino_data = HEADER_MAGIC @ [1, 2, 3], ino_synced = 8\<rparr>], wr_pos := 11\<rparr>"
  have c: "content ?w = segment [] @ [1, 2, 3]"
    by (simp add: sample_log_def content_def data_of_def segment_def)
  have o: "opened ?w"
    by (simp add: opened_def c) (simp add: sample_log_def disk_ok_def writer_ok_def data_of_def
        synced_of_def HEADER_LEN_def HEADER_MAGIC_def segment_def)
  obtain rs w' where r: "recover ?w = (Inr rs, w')"
    using recover_quiet [of ?w 0] by (auto simp: sample_log_def)
  have "torn [1, 2, 3]" by (simp add: torn_def decode_def WAL_HEADER_LEN_def)
  then have "decode_segment (content ?w) = ([], length (segment []))"
    unfolding c by (intro decode_segment_image) simp_all
  then have "rs = []" using recover_truncates_and_repeats [OF o r] by simp
  with recover_truncates_and_repeats [OF o r] r show ?thesis by (auto simp: segment_def)
qed

text \<open>
  The highest LSN is kept: a successful append returns and records the maximum of the old
  high-water mark and the LSNs of the batch, and moves the append position by the size of
  the frames.
\<close>

theorem append_returns_highest_lsn:
  assumes "wal_holds rs w" and "all_fit recs" and "append_batch recs w = (Inr l, w')"
  shows "l = fold max (map wal_lsn recs) (last_lsn w) \<and> last_lsn w' = l
    \<and> write_offset w' = write_offset w + length (frames recs)"
proof (cases "recs = []")
  case True
  then show ?thesis using assms(3) by (auto simp: append_batch_def)
next
  case False
  show ?thesis using append_ok(4-6) [OF assms False] by simp
qed

theorem append_returns_highest_lsn_witness:
  "\<exists>w'. append_batch [sample_record] sample_log = (Inr 42, w') \<and> last_lsn w' = 42"
proof -
  obtain l w' where 1: "append_batch [sample_record] sample_log = (Inr l, w')"
    using append_quiet [of sample_log "[sample_record]"] by (auto simp: sample_log_def)
  have "all_fit [sample_record]" by (simp add: fits_sample)
  from append_returns_highest_lsn [OF sample_log_holds(1) this 1] 1 show ?thesis
    by (auto simp: sample_record_def sample_log_def)
qed

section \<open>Acknowledged records that are lost\<close>

lemma accepts_orphan:
  assumes "append_batch recs w = (Inr l, w')" and "writer_ok w" and "m \<noteq> wr_file w"
  shows "data_of w' m = data_of w m" and "synced_of w' m = synced_of w m"
    and "fs_active w' = fs_active w" and "fs_after_crash w' = fs_after_crash w"
    and "length (fs_inodes w') = length (fs_inodes w)" and "fs_temp w' = fs_temp w"
    and "disk_ok w \<Longrightarrow> disk_ok w'"
proof -
  have "data_of w' m = data_of w m \<and> synced_of w' m = synced_of w m \<and> fs_active w' = fs_active w
      \<and> fs_after_crash w' = fs_after_crash w \<and> length (fs_inodes w') = length (fs_inodes w)
      \<and> fs_temp w' = fs_temp w \<and> (disk_ok w \<longrightarrow> disk_ok w')"
  proof (cases "recs = []")
    case True
    then show ?thesis using assms(1) by (auto simp: append_batch_def)
  next
    case False
    obtain w1 w2 where acc: "accepts (frames recs) w w1"
      and sy: "if wal_fsync w then sync_data (wr_file w) w1 = (Inr (), w2) else w2 = w1"
      and w': "w' = w2\<lparr>write_offset := write_offset w2 + length (frames recs), last_lsn := l\<rparr>"
      using assms(1) False assms(2) by (auto elim: append_batch_cases)
    have n: "wr_file w < length (fs_inodes w1)"
      using accepts_facts [OF acc] assms(2) by (simp add: writer_ok_def)
    have "disk_ok w2" if "disk_ok w"
      using sy accepts_disk_ok [OF acc assms(2) that] sync_data_effect [OF _ n, of "Inr ()" w2]
      by (cases "wal_fsync w") (simp_all add: disk_ok_def)
    then show ?thesis
      using sy sync_data_effect [OF _ n, of "Inr ()" w2] accepts_facts [OF acc]
        accepts_content [OF acc assms(2)] assms(3)
      by (cases "wal_fsync w") (simp_all add: w')
  qed
  then show "data_of w' m = data_of w m" "synced_of w' m = synced_of w m"
    "fs_active w' = fs_active w" "fs_after_crash w' = fs_after_crash w"
    "length (fs_inodes w') = length (fs_inodes w)" "fs_temp w' = fs_temp w"
    "disk_ok w \<Longrightarrow> disk_ok w'" by simp_all
qed

text \<open>
  C39: A checkpoint that fails after its rename loses what is appended later.  When the
  directory sync fails, \<open>checkpoint\<close> returns before it reopens the segment; the writer is
  left on the unlinked file, the next \<open>append_batch\<close> still returns success, and a restart
  finds none of its records.
\<close>

theorem failed_checkpoint_orphans_writer:
  "\<exists>w1 l w2. checkpoint 0 (sample_log\<lparr>fs_events := replicate 6 Good @ [Fail OtherIo]\<rparr>) = (Inl OtherIo, w1)
    \<and> append_batch [r] w1 = (Inr l, w2) \<and> can_crash w2 (fs_active w2) 8
    \<and> restarts_with w2 (fs_active w2) 8 []"
proof -
  let ?w = "sample_log\<lparr>fs_events := replicate 6 Good @ [Fail OtherIo]\<rparr>"
  define w1 where "w1 = sample_log\<lparr>fs_inodes := [\<lparr>ino_data = HEADER_MAGIC, ino_synced = 8\<rparr>,
      \<lparr>ino_data = HEADER_MAGIC, ino_synced = 8\<rparr>], fs_active := Some 1, fs_temp := None,
      fs_after_crash := [Some 1, Some 0]\<rparr>"
  have d: "decode_segment HEADER_MAGIC = ([], HEADER_LEN)"
    using decode_segment_image [of "[]" "[]"] by (simp add: torn_def segment_def)
  have h: "HEADER_MAGIC \<noteq> []" "length HEADER_MAGIC = 8" by (simp_all add: HEADER_MAGIC_def)
  have c: "checkpoint 0 ?w = (Inl OtherIo, w1)"
    by (simp add: checkpoint_def try_io_def bw_flush_def sample_log_def file_write_all.simps h
        read_all_def open_active_def sys_call_def next_event_def data_of_def d write_temp_def
        create_temp_def write_header_def sys_write_def put_bytes_def upd_inode_def overwrite_def
        sync_data_def rename_temp_def sync_dir_def benign_def w1_def numeral_eq_Suc HEADER_LEN_def)
  have ev: "fs_events w1 = []" by (simp add: w1_def sample_log_def)
  obtain l w2 where a: "append_batch [r] w1 = (Inr l, w2)" using append_quiet [OF ev] by blast
  have ok: "writer_ok w1"
    by (simp add: writer_ok_def w1_def sample_log_def data_of_def synced_of_def HEADER_LEN_def)
  have "(1::nat) \<noteq> wr_file w1" by (simp add: w1_def sample_log_def)
  note o = accepts_orphan [OF a ok this]
  have h8: "HEADER_LEN = 8" by (simp add: HEADER_LEN_def)
  have o2: "data_of w2 1 = HEADER_MAGIC" "synced_of w2 1 = 8" "fs_active w2 = Some 1"
    "fs_after_crash w2 = [Some 1, Some 0]" "fs_temp w2 = None"
    unfolding o by (simp_all add: w1_def sample_log_def data_of_def synced_of_def)
  have "disk_ok w1" by (simp add: disk_ok_def w1_def sample_log_def data_of_def synced_of_def HEADER_LEN_def less_Suc_eq)
  then have dk: "disk_ok w2" by (rule o(7))
  have cr: "can_crash w2 (Some 1) 8" by (simp add: can_crash_def o2 [unfolded One_nat_def] h8)
  have "restarts_with w2 (Some 1) 8 []"
    using restarts_prefix [of w2 1 "[]" "[]" 8 0] dk cr
    by (simp add: o2 [unfolded One_nat_def] segment_def h8)
  then show ?thesis using c a cr o2 by auto
qed

lemma decode_shifted: "decode (x # encode r) = Inl BadMagic"
proof -
  let ?buf = "x # encode r"
  have "take 3 (encode r) = take 3 (u32_to_le_bytes WAL_MAGIC)"
    by (simp add: encode_split frame_body_def Let_def)
  moreover have "u32_to_le_bytes WAL_MAGIC = [0x52, 0x58, 0x4C, 0x46]"
  proof -
    have "unat WAL_MAGIC = 0x464C5852" by (simp add: WAL_MAGIC_def)
    moreover have "(4::nat) = Suc (Suc (Suc (Suc 0)))" by simp
    ultimately show ?thesis by (simp only: u32_to_le_bytes_def le_bytes.simps) simp
  qed
  ultimately have "slice 0 4 ?buf = [x, 0x52, 0x58, 0x4C]"
    by (simp add: slice_def numeral_eq_Suc)
  moreover have "u32_from_le_bytes [x, 0x52, 0x58, 0x4C] \<noteq> WAL_MAGIC"
  proof
    assume "u32_from_le_bytes [x, 0x52, 0x58, 0x4C] = WAL_MAGIC"
    then have "unat (u32_from_le_bytes [x, 0x52, 0x58, 0x4C]) = 0x464C5852"
      by (simp add: WAL_MAGIC_def)
    moreover have "unat (u32_from_le_bytes [x, 0x52, 0x58, 0x4C]) = unat x + 0x4C585200"
      using unat_u8_bound [of x] by (simp add: u32_from_le_bytes_def unat_word_of_nat_u32 del: of_nat_add of_nat_mult)
    ultimately show False by simp
  qed
  moreover have "\<not> length ?buf < WAL_HEADER_LEN" by (simp add: length_encode WAL_HEADER_LEN_def)
  ultimately show ?thesis by (simp add: decode_def)
qed

text \<open>
  A failed append of a large frame hides what is appended later.  A frame of at least the
  write buffer's size bypasses the buffer; when the file takes one byte of it and then
  fails, \<open>append_batch\<close> reports the error, but the byte stays, the next \<open>append_batch\<close>
  writes after it and succeeds, and a restart stops at the byte.
\<close>

theorem failed_large_append_hides_later:
  assumes "fits r" and "BUF_CAPACITY \<le> length (encode r)"
  shows "\<exists>w1 l w2. append_batch [r] (sample_log\<lparr>fs_events := [Short 1, Fail OtherIo]\<rparr>) = (Inl OtherIo, w1)
    \<and> append_batch [r'] w1 = (Inr l, w2) \<and> can_crash w2 (Some 0) (length (data_of w2 0))
    \<and> restarts_with w2 (Some 0) (length (data_of w2 0)) []"
proof -
  let ?w = "sample_log\<lparr>fs_events := [Short 1, Fail OtherIo]\<rparr>"
  obtain x xs where enc: "encode r = x # xs" by (cases "encode r") simp_all
  define w1 where "w1 = sample_log\<lparr>fs_inodes := [\<lparr>ino_data = HEADER_MAGIC @ [x], ino_synced = 8\<rparr>],
      wr_pos := 9\<rparr>"
  have h8: "length HEADER_MAGIC = 8" by (simp add: HEADER_MAGIC_def)
  have long: "8192 \<le> Suc (length xs)" "xs \<noteq> []" using assms(2) by (auto simp: enc BUF_CAPACITY_def)
  have f: "file_write_all 0 8 (x # xs) ?w = (Inl OtherIo, 9, w1\<lparr>wr_pos := 8\<rparr>)"
    using long by (simp add: file_write_all.simps sys_write_def next_event_def put_bytes_def upd_inode_def
        sample_log_def overwrite_def h8 w1_def del: length_HEADER_MAGIC)
  have b: "bw_flush ?w = (Inr (), ?w)"
    by (simp add: bw_flush_def sample_log_def file_write_all.simps)
  have "bw_write_all (encode r) ?w = (Inl OtherIo, w1)"
    using long f b
    by (simp add: bw_write_all_def Let_def BUF_CAPACITY_def enc try_io_def)
       (simp add: sample_log_def w1_def)
  then have c: "append_batch [r] ?w = (Inl OtherIo, w1)"
    by (simp add: append_batch_def try_io_def)
  have ev: "fs_events w1 = []" by (simp add: w1_def sample_log_def)
  obtain l w2 where a: "append_batch [r'] w1 = (Inr l, w2)" using append_quiet [OF ev] by blast
  have "fs_active w1 = Some 0" "wr_file w1 = 0" by (simp_all add: w1_def sample_log_def)
  have dk1: "disk_ok w1" and ok1: "writer_ok w1"
    by (simp_all add: w1_def sample_log_def disk_ok_def writer_ok_def data_of_def synced_of_def h8
        del: length_HEADER_MAGIC)
  have cont: "content w1 = HEADER_MAGIC @ [x]"
    by (simp add: content_def w1_def sample_log_def data_of_def)
  obtain v1 v2 where acc: "accepts (frames [r']) w1 v1" and buf: "wr_buf v1 = []"
    and sy: "if wal_fsync w1 then sync_data (wr_file w1) v1 = (Inr (), v2) else v2 = v1"
    and w2: "w2 = v2\<lparr>write_offset := write_offset v2 + length (frames [r']), last_lsn := l\<rparr>"
    using a ok1 by (elim append_batch_cases) auto
  have fsync: "wal_fsync w1" by (simp add: w1_def sample_log_def)
  have n: "0 < length (fs_inodes v1)"
    using accepts_facts [OF acc] by (simp add: w1_def sample_log_def)
  have sy0: "sync_data 0 v1 = (Inr (), v2)" using sy fsync by (simp add: w1_def sample_log_def)
  have d2: "data_of w2 0 = HEADER_MAGIC @ x # encode r'"
    using sync_data_effect(1) [OF sy0 n] accepts_content(1) [OF acc ok1] accepts_facts(1) [OF acc] buf cont
    by (simp add: w2 content_def) (simp add: w1_def sample_log_def)
  have s2: "synced_of w2 0 = length (data_of w2 0)"
    using sync_data_effect(1,2) [OF sy0 n] by (simp add: w2)
  have "(1::nat) \<noteq> wr_file w1" by (simp add: w1_def sample_log_def)
  note o = accepts_orphan [OF a ok1 this]
  have dk2: "disk_ok w2" by (rule o(7) [OF dk1])
  have "fs_after_crash w2 = [Some 0]" by (simp add: o) (simp add: w1_def sample_log_def)
  then have cr: "can_crash w2 (Some 0) (length (data_of w2 0))" by (simp add: can_crash_def s2)
  have "torn (x # encode r')" using decode_shifted by (simp add: torn_def)
  then have "crash_log w2 (Some 0) (length (data_of w2 0)) = []"
    using decode_segment_image [of "[]" "x # encode r'"] by (simp add: crash_log_def d2 segment_def)
  moreover have "take HEADER_LEN (take (length (data_of w2 0)) (data_of w2 0)) = HEADER_MAGIC"
    by (simp add: d2)
  ultimately have "restarts_with w2 (Some 0) (length (data_of w2 0)) []"
    using restarts_with_log [OF dk2 cr] by simp
  then show ?thesis using c a cr by blast
qed

definition large_record :: wal_record where
  "large_record = \<lparr>wal_lsn = 1, wal_id = 7, wal_version = 1, wal_blob = replicate 8152 0\<rparr>"

theorem failed_large_append_hides_later_witness:
  "\<exists>w1 l w2. append_batch [large_record] (sample_log\<lparr>fs_events := [Short 1, Fail OtherIo]\<rparr>) = (Inl OtherIo, w1)
    \<and> append_batch [sample_record] w1 = (Inr l, w2)
    \<and> restarts_with w2 (Some 0) (length (data_of w2 0)) []"
proof -
  have "fits large_record" by (simp add: fits_def layout_defs large_record_def)
  moreover have "BUF_CAPACITY \<le> length (encode large_record)"
    by (simp add: length_encode large_record_def BUF_CAPACITY_def)
  ultimately show ?thesis using failed_large_append_hides_later [of large_record sample_record] by blast
qed

text \<open>
  The name of a new segment is not stable.  \<open>open\<close> creates the segment and syncs its header
  but never the directory, so after the first successful append to a fresh log a crash can
  leave the directory without the segment, and the restart finds an empty log.
\<close>

theorem fresh_log_can_vanish:
  "\<exists>w l w'. wal_open True (empty_dir []) = (Inr (), w) \<and> append_batch [r] w = (Inr l, w')
    \<and> can_crash w' None n
    \<and> (\<forall>ev u w1 rs w2. wal_open True (crash None n ev w') = (Inr u, w1) \<longrightarrow>
        recover w1 = (Inr rs, w2) \<longrightarrow> rs = [])"
proof -
  obtain w where o: "wal_open True (empty_dir []) = (Inr (), w)" and ev: "fs_events w = []"
    by (simp add: wal_open_def create_active_def empty_dir_def check_header_def Let_def write_header_def
        data_of_def file_write_all_quiet HEADER_LEN_def HEADER_MAGIC_def)
  note w = wal_open_empty [OF o]
  obtain l w' where a: "append_batch [r] w = (Inr l, w')" using append_quiet [OF ev] by blast
  have ok: "writer_ok w" and dk: "disk_ok w" using w(1) by (simp_all add: wal_holds_def)
  have "Suc (wr_file w) \<noteq> wr_file w" by simp
  note orph = accepts_orphan [OF a ok this]
  have dk': "disk_ok w'" by (rule orph(7) [OF dk])
  have "None \<in> set (fs_after_crash w')" using w(5) orph(4) by simp
  then have cr: "can_crash w' None n" by (simp add: can_crash_def)
  have "rs = []" if "wal_open True (crash None n ev' w') = (Inr u, w1)" "recover w1 = (Inr rs, w2)"
    for ev' u w1 rs w2
    using restart_ok(1) [OF dk' cr that] by (simp add: crash_log_def)
  then show ?thesis using o a cr by blast
qed

theorem fresh_log_can_vanish_witness:
  "\<exists>w l w'. wal_open True (empty_dir []) = (Inr (), w) \<and> append_batch [sample_record] w = (Inr l, w')
    \<and> can_crash w' None 0"
  using fresh_log_can_vanish [of sample_record 0] by blast

text \<open>
  \<open>open\<close> never destroys a log.  It starts an empty segment only when the file is shorter
  than the header, leaves every other file as it is, positions the writer at its end, and
  refuses a file that does not start with the header.
\<close>

theorem open_keeps_existing_log:
  assumes "disk_ok w" and "wal_open fsync w = (r, w')"
  shows "(\<forall>u. r = Inr u \<longrightarrow> opened w' \<and> wr_buf w' = [] \<and> write_offset w' = length (content w')
      \<and> content w' = (if length (active_data w) < HEADER_LEN then HEADER_MAGIC else active_data w))
    \<and> (HEADER_LEN \<le> length (active_data w) \<longrightarrow> take HEADER_LEN (active_data w) \<noteq> HEADER_MAGIC \<longrightarrow>
        (\<exists>e. r = Inl e))"
proof (cases r)
  case (Inl e)
  then show ?thesis by simp
next
  case (Inr u)
  note o = wal_open_ok [OF assms(2) [unfolded Inr] assms(1)]
  show ?thesis using o(1,2,5,6) Inr by (auto simp: opened_def)
qed

theorem open_keeps_existing_log_witness:
  "\<exists>w'. wal_open True sample_log = (Inr (), w') \<and> content w' = HEADER_MAGIC"
proof -
  obtain w' where o: "wal_open True sample_log = (Inr (), w')"
    using wal_open_quiet [of sample_log 0 True]
    by (auto simp: sample_log_def data_of_def HEADER_LEN_def HEADER_MAGIC_def)
  have "disk_ok sample_log" using sample_log_holds(1) by (simp add: wal_holds_def)
  from open_keeps_existing_log [OF this o] o show ?thesis
    by (simp add: active_data_def sample_log_def data_of_def)
qed

end
