(* ===== verification/Config.thy ===== *)
theory Config
  imports Domain
begin

text \<open>
  \<open>src/config.rs\<close> and \<open>src/metrics.rs\<close>: the tuning knobs with the checks of \<open>validate\<close>,
  and the counters.  Durations are numbers of nanoseconds, sizes are natural numbers below
  \<open>2 ^ 64\<close>.  The counters are atomic words that wrap; an operation on them is one step
  here, and \<open>fetch_max\<close> is its compare-exchange loop without interference.
\<close>

section \<open>Configuration\<close>

record flux_config =
  cfg_ring_capacity :: nat
  cfg_flush_max_batch :: nat
  cfg_flush_interval :: nat
  cfg_worker_idle_sleep :: nat
  cfg_wal_dir :: string
  cfg_wal_fsync :: bool
  cfg_store_retry_limit :: u32
  cfg_store_retry_backoff :: nat

definition default_config :: flux_config where
  "default_config =
     \<lparr>cfg_ring_capacity = 65536, cfg_flush_max_batch = 4096, cfg_flush_interval = 50000000,
      cfg_worker_idle_sleep = 1000000, cfg_wal_dir = ''./flux-wal'', cfg_wal_fsync = True,
      cfg_store_retry_limit = 5, cfg_store_retry_backoff = 2000000\<rparr>"

definition with_wal_dir :: "string \<Rightarrow> flux_config \<Rightarrow> flux_config" where
  "with_wal_dir dir c = c\<lparr>cfg_wal_dir := dir\<rparr>"

definition validate :: "flux_config \<Rightarrow> string + unit" where
  "validate c =
     (if cfg_ring_capacity c = 0 then Inl ''ring_capacity must be >= 1''
      else if cfg_flush_max_batch c = 0 then Inl ''flush_max_batch must be >= 1''
      else if cfg_flush_interval c = 0 then Inl ''flush_interval must be > 0''
      else if cfg_store_retry_limit c = 0 then Inl ''store_retry_limit must be >= 1''
      else Inr ())"

lemma validate_ok:
  "validate c = Inr u \<longleftrightarrow> 0 < cfg_ring_capacity c \<and> 0 < cfg_flush_max_batch c
     \<and> 0 < cfg_flush_interval c \<and> cfg_store_retry_limit c \<noteq> 0"
  by (auto simp: validate_def)

section \<open>Metrics\<close>

record metrics =
  m_submits_enqueued :: u64
  m_submits_dropped :: u64
  m_max_submit_nanos :: u64
  m_sum_submit_nanos :: u64
  m_flushes :: u64
  m_records_flushed :: u64
  m_max_flush_nanos :: u64
  m_wal_appends :: u64
  m_wal_records :: u64
  m_store_errors :: u64
  m_store_retries :: u64

definition metrics_new :: metrics where
  "metrics_new =
     \<lparr>m_submits_enqueued = 0, m_submits_dropped = 0, m_max_submit_nanos = 0, m_sum_submit_nanos = 0,
      m_flushes = 0, m_records_flushed = 0, m_max_flush_nanos = 0, m_wal_appends = 0,
      m_wal_records = 0, m_store_errors = 0, m_store_retries = 0\<rparr>"

definition fetch_max :: "u64 \<Rightarrow> u64 \<Rightarrow> u64" where
  "fetch_max current v = (if current < v then v else current)"

definition record_submit_enqueued :: "u64 \<Rightarrow> metrics \<Rightarrow> metrics" where
  "record_submit_enqueued nanos m =
     m\<lparr>m_submits_enqueued := m_submits_enqueued m + 1,
       m_sum_submit_nanos := m_sum_submit_nanos m + nanos,
       m_max_submit_nanos := fetch_max (m_max_submit_nanos m) nanos\<rparr>"

definition record_submit_dropped :: "metrics \<Rightarrow> metrics" where
  "record_submit_dropped m = m\<lparr>m_submits_dropped := m_submits_dropped m + 1\<rparr>"

definition record_flush :: "nat \<Rightarrow> u64 \<Rightarrow> metrics \<Rightarrow> metrics" where
  "record_flush batch_len nanos m =
     m\<lparr>m_flushes := m_flushes m + 1,
       m_records_flushed := m_records_flushed m + word_of_nat batch_len,
       m_max_flush_nanos := fetch_max (m_max_flush_nanos m) nanos\<rparr>"

definition record_wal_append :: "nat \<Rightarrow> u64 \<Rightarrow> metrics \<Rightarrow> metrics" where
  "record_wal_append records nanos m =
     m\<lparr>m_wal_appends := m_wal_appends m + 1, m_wal_records := m_wal_records m + word_of_nat records\<rparr>"

definition record_store_error :: "metrics \<Rightarrow> metrics" where
  "record_store_error m = m\<lparr>m_store_errors := m_store_errors m + 1\<rparr>"

definition record_store_retry :: "metrics \<Rightarrow> metrics" where
  "record_store_retry m = m\<lparr>m_store_retries := m_store_retries m + 1\<rparr>"

text \<open>\<open>snapshot\<close> reads every counter; the plain copy has the same fields.\<close>

definition snapshot :: "metrics \<Rightarrow> metrics" where
  "snapshot m =
     \<lparr>m_submits_enqueued = m_submits_enqueued m, m_submits_dropped = m_submits_dropped m,
      m_max_submit_nanos = m_max_submit_nanos m, m_sum_submit_nanos = m_sum_submit_nanos m,
      m_flushes = m_flushes m, m_records_flushed = m_records_flushed m,
      m_max_flush_nanos = m_max_flush_nanos m, m_wal_appends = m_wal_appends m,
      m_wal_records = m_wal_records m, m_store_errors = m_store_errors m,
      m_store_retries = m_store_retries m\<rparr>"

lemma fetch_max_is_max: "fetch_max a b = max a b"
  by (auto simp: fetch_max_def max_def)

end
