(* ===== verification/Engine.thy ===== *)
theory Engine
  imports Config Cache Ring Durability
begin

text \<open>
  \<open>src/worker.rs\<close> and \<open>src/api.rs\<close> as state transformers: the flush worker (drain, flush,
  retry, the final drain of a shutdown) and the engine's own methods.  Each method runs
  alone here.  The store is a parameter, the function \<open>persist\<close> for its \<open>persist_batch\<close>;
  the loops whose end depends on it or on the ring are partial functions, \<open>None\<close> meaning
  that they do not return.

  Three inputs come from outside: the iteration order of the dirty set at each call of
  \<open>take_dirty\<close>, the readings of the clock that only the metrics record, and, in the worker's
  loop, whether the flush interval has elapsed.  Sleeping has no effect on the state.
\<close>

section \<open>State\<close>

record 'd engine =
  en_ring :: ring
  en_cache :: cache
  en_wal :: wal
  en_store :: 'd
  en_metrics :: metrics
  en_lsn :: lsn_state
  en_config :: flux_config
  en_order :: "nat \<Rightarrow> hash_order"     \<comment> \<open>the order of the \<open>n\<close>-th \<open>take_dirty\<close>\<close>
  en_takes :: nat
  en_clock :: "u64 list"             \<comment> \<open>what the next \<open>elapsed()\<close> calls read\<close>

type_synonym 'd persist = "player_state list \<Rightarrow> 'd \<Rightarrow> (store_error + unit) \<times> 'd"

datatype flux_error = Io io_error | Store store_error

definition elapsed :: "'d engine \<Rightarrow> u64 \<times> 'd engine" where
  "elapsed e = (case en_clock e of [] \<Rightarrow> (0, e) | t # ts \<Rightarrow> (t, e\<lparr>en_clock := ts\<rparr>))"

definition bump :: "(metrics \<Rightarrow> metrics) \<Rightarrow> 'd engine \<Rightarrow> 'd engine" where
  "bump f e = e\<lparr>en_metrics := f (en_metrics e)\<rparr>"

section \<open>Draining the ring\<close>

definition DRAIN_MULTIPLE :: nat where "DRAIN_MULTIPLE = 4"

definition saturating_mul :: "nat \<Rightarrow> nat \<Rightarrow> nat" where
  "saturating_mul a b = min (a * b) (2 ^ 64 - 1)"

text \<open>The body of the loop over the drained requests.\<close>

definition apply_drained :: "write_request \<Rightarrow> 'd engine \<Rightarrow> 'd engine" where
  "apply_drained req e =
     e\<lparr>en_lsn := note_drained (wr_seq req) (en_lsn e), en_cache := cache_apply req (en_cache e)\<rparr>"

definition drain_up_to :: "nat \<Rightarrow> 'd engine \<Rightarrow> nat \<times> 'd engine" where
  "drain_up_to max_n e =
     (let (scratch, ring') = drain_into max_n (en_ring e) in
      (length scratch, fold apply_drained scratch (e\<lparr>en_ring := ring'\<rparr>)))"

definition drain_ring_into_cache :: "'d engine \<Rightarrow> nat \<times> 'd engine" where
  "drain_ring_into_cache e =
     drain_up_to (saturating_mul (cfg_flush_max_batch (en_config e)) DRAIN_MULTIPLE) e"

section \<open>Persisting a batch\<close>

datatype persist_result = Persisted | Failed

text \<open>The loop of \<open>persist_with_retry\<close> after \<open>attempt\<close> failed attempts.\<close>

function persist_loop :: "'d persist \<Rightarrow> player_state list \<Rightarrow> nat \<Rightarrow> 'd engine \<Rightarrow> persist_result \<times> 'd engine" where
  "persist_loop persist states attempt e =
     (let limit = unat (cfg_store_retry_limit (en_config e));
          (r, d) = persist states (en_store e);
          e1 = e\<lparr>en_store := d\<rparr> in
      case r of
        Inr u \<Rightarrow> (Persisted, e1)
      | Inl err \<Rightarrow>
          (if \<not> is_retryable err then (Failed, e1)
           else if limit \<le> Suc attempt then (Failed, e1)
           else persist_loop persist states (Suc attempt) (bump record_store_retry e1)))"
  by pat_completeness auto
termination
  by (relation "measure (\<lambda>(p, s, attempt, e). unat (cfg_store_retry_limit (en_config e)) - attempt)")
     (auto simp: bump_def)

declare persist_loop.simps [simp del]

definition persist_with_retry :: "'d persist \<Rightarrow> player_state list \<Rightarrow> 'd engine \<Rightarrow> persist_result \<times> 'd engine" where
  "persist_with_retry persist states e = persist_loop persist states 0 e"

section \<open>Flushing\<close>

text \<open>The records of a batch, stamped with consecutive LSNs.\<close>

definition stamp :: "lsn \<Rightarrow> player_state list \<Rightarrow> wal_record list" where
  "stamp first states =
     map (\<lambda>(i, st). \<lparr>wal_lsn = first + word_of_nat i, wal_id = ps_id st, wal_version = ps_version st,
                       wal_blob = ps_blob st\<rparr>) (enumerate 0 states)"

definition flush_batch :: "'d persist \<Rightarrow> player_state list \<Rightarrow> 'd engine \<Rightarrow> bool \<times> 'd engine" where
  "flush_batch persist states e =
     (let (first_lsn, lsn') = alloc_block (word_of_nat (length states)) (en_lsn e);
          records = stamp first_lsn states;
          highest_lsn = (if states = [] then 0 else wal_lsn (last records)) in
      case append_batch records (en_wal e) of
        (Inl err, w) \<Rightarrow>
          (False, bump record_store_error
             (e\<lparr>en_lsn := lsn', en_wal := w, en_cache := requeue_dirty states (en_cache e)\<rparr>))
      | (Inr confirmed_lsn, w) \<Rightarrow>
          (let (wal_nanos, e1) = elapsed (e\<lparr>en_lsn := lsn', en_wal := w\<rparr>);
               e2 = bump (record_wal_append (length records) wal_nanos) e1;
               checkpoint_lsn = (if confirmed_lsn \<noteq> 0 then confirmed_lsn else highest_lsn) in
           case persist_with_retry persist states e2 of
             (Persisted, e3) \<Rightarrow>
               (let e4 = (case checkpoint_watermark (en_lsn e3) checkpoint_lsn of
                            Some safe_lsn \<Rightarrow> e3\<lparr>en_wal := snd (checkpoint safe_lsn (en_wal e3))\<rparr>
                          | None \<Rightarrow> e3);
                    (flush_nanos, e5) = elapsed e4
                in (True, bump (record_flush (length states) flush_nanos) e5))
           | (Failed, e3) \<Rightarrow>
               (False, bump record_store_error
                  (e3\<lparr>en_cache := requeue_dirty states (en_cache e3)\<rparr>))))"

definition take_batch :: "'d engine \<Rightarrow> player_state list \<times> 'd engine" where
  "take_batch e =
     (let (states, c) = take_dirty (en_order e (en_takes e)) (cfg_flush_max_batch (en_config e)) (en_cache e)
      in (states, e\<lparr>en_cache := c, en_takes := Suc (en_takes e)\<rparr>))"

partial_function (option) flush :: "'d persist \<Rightarrow> 'd engine \<Rightarrow> 'd engine option" where
  "flush persist e =
     (let (states, e1) = take_batch e in
      if states = [] then Some e1
      else let (ok, e2) = flush_batch persist states e1 in
           if ok then flush persist e2 else Some e2)"

section \<open>The worker's loop and the final drain\<close>

definition SHUTDOWN_MAX_STALLED_ATTEMPTS :: nat where "SHUTDOWN_MAX_STALLED_ATTEMPTS = 64"

partial_function (option) final_drain :: "'d persist \<Rightarrow> nat \<Rightarrow> 'd engine \<Rightarrow> 'd engine option" where
  "final_drain persist stalled e =
     (let (drained, e1) = drain_ring_into_cache e;
          ring_empty = ring_is_empty (en_ring e1);
          dirty_before = dirty_len (en_cache e1) in
      if ring_empty \<and> dirty_before = 0 then Some e1
      else Option.bind (if 0 < dirty_before then flush persist e1 else Some e1) (\<lambda>e2.
        let dirty_after = dirty_len (en_cache e2) in
        if 0 < drained \<or> dirty_after < dirty_before then final_drain persist 0 e2
        else if SHUTDOWN_MAX_STALLED_ATTEMPTS \<le> Suc stalled then Some e2
        else final_drain persist (Suc stalled) e2))"

definition worker_step :: "'d persist \<Rightarrow> bool \<Rightarrow> 'd engine \<Rightarrow> 'd engine option" where
  "worker_step persist time_ready e =
     (let (drained, e1) = drain_ring_into_cache e;
          dirty = dirty_len (en_cache e1);
          volume_ready = cfg_flush_max_batch (en_config e1) \<le> dirty in
      if 0 < dirty \<and> (volume_ready \<or> time_ready) then flush persist e1 else Some e1)"

text \<open>The loop until the stop flag is seen, one element per iteration, then the final drain.\<close>

fun run :: "'d persist \<Rightarrow> bool list \<Rightarrow> 'd engine \<Rightarrow> 'd engine option" where
  "run persist [] e = final_drain persist 0 e"
| "run persist (time_ready # ts) e = Option.bind (worker_step persist time_ready e) (run persist ts)"

section \<open>The engine's methods\<close>

definition saturating_succ :: "u64 \<Rightarrow> u64" where
  "saturating_succ x = (if x = - 1 then - 1 else x + 1)"

definition replay_request :: "nat \<Rightarrow> wal_record \<Rightarrow> write_request" where
  "replay_request i r =
     \<lparr>wr_id = wal_id r, wr_version = wal_version r, wr_blob = wal_blob r, wr_seq = word_of_nat i\<rparr>"

definition start :: "flux_config \<Rightarrow> 'd \<Rightarrow> (nat \<Rightarrow> hash_order) \<Rightarrow> u64 list \<Rightarrow> wal \<Rightarrow>
    (io_error + 'd engine) \<times> wal" where
  "start config store order clock disk =
     (case validate config of
        Inl msg \<Rightarrow> (Inl InvalidInput, disk)
      | Inr u \<Rightarrow>
          (let ring = ring_new (cfg_ring_capacity config) in
           case wal_open (cfg_wal_fsync config) disk of
             (Inl err, w1) \<Rightarrow> (Inl err, w1)
           | (Inr u, w1) \<Rightarrow>
               (case recover w1 of
                  (Inl err, w2) \<Rightarrow> (Inl err, w2)
                | (Inr recovered, w2) \<Rightarrow>
                    (let highest_lsn = fold (\<lambda>r h. max h (wal_lsn r)) recovered 0;
                         cache = fold (\<lambda>(i, r). cache_apply (replay_request i r))
                                   (enumerate 0 recovered) cache_new
                     in (Inr \<lparr>en_ring = ring, en_cache = cache, en_wal = w2, en_store = store,
                              en_metrics = metrics_new, en_lsn = lsn_new (saturating_succ highest_lsn),
                              en_config = config, en_order = order, en_takes = 0, en_clock = clock\<rparr>,
                         w2)))))"

datatype submit_outcome = Enqueued | Dropped

definition submit :: "player_id \<Rightarrow> u64 \<Rightarrow> u8 list \<Rightarrow> 'd engine \<Rightarrow> submit_outcome \<times> 'd engine" where
  "submit player version blob e =
     (let (seq, lsn') = alloc (en_lsn e);
          req = \<lparr>wr_id = player, wr_version = version, wr_blob = blob, wr_seq = seq\<rparr>;
          e1 = e\<lparr>en_lsn := lsn'\<rparr> in
      case try_enqueue req (en_ring e1) of
        (Inr u, ring') \<Rightarrow>
          (let (nanos, e2) = elapsed (e1\<lparr>en_ring := ring'\<rparr>)
           in (Enqueued, bump (record_submit_enqueued nanos) e2))
      | (Inl shed, ring') \<Rightarrow> (Dropped, bump record_submit_dropped (e1\<lparr>en_ring := ring'\<rparr>)))"

definition submit_durable :: "player_id \<Rightarrow> u64 \<Rightarrow> u8 list \<Rightarrow> 'd engine \<Rightarrow> (io_error + unit) \<times> 'd engine" where
  "submit_durable player version blob e =
     (let (l, lsn1) = alloc (en_lsn e);
          lsn2 = note_pending l lsn1;
          rec = \<lparr>wal_lsn = l, wal_id = player, wal_version = version, wal_blob = blob\<rparr> in
      case append_batch [rec] (en_wal e) of
        (Inl err, w) \<Rightarrow> (Inl err, e\<lparr>en_wal := w, en_lsn := note_drained l lsn2\<rparr>)
      | (Inr confirmed, w) \<Rightarrow>
          (let req = \<lparr>wr_id = player, wr_version = version, wr_blob = blob, wr_seq = l\<rparr>;
               (accepted, ring') = try_enqueue req (en_ring e)
           in (Inr (), e\<lparr>en_wal := w, en_lsn := lsn2, en_ring := ring'\<rparr>)))"

text \<open>The retry loop of \<open>flush_states\<close>.\<close>

function flush_states_loop :: "'d persist \<Rightarrow> player_state list \<Rightarrow> lsn \<Rightarrow> nat \<Rightarrow> 'd engine \<Rightarrow>
    (flux_error + nat) \<times> 'd engine" where
  "flush_states_loop persist states last_l attempt e =
     (let (r, d) = persist states (en_store e);
          e1 = e\<lparr>en_store := d\<rparr> in
      case r of
        Inr u \<Rightarrow>
          (case checkpoint_watermark (en_lsn e1) last_l of
             Some safe_lsn \<Rightarrow>
               (case checkpoint safe_lsn (en_wal e1) of
                  (Inl err, w) \<Rightarrow> (Inl (Io err), e1\<lparr>en_wal := w\<rparr>)
                | (Inr x, w) \<Rightarrow>
                    (let (nanos, e2) = elapsed (e1\<lparr>en_wal := w\<rparr>)
                     in (Inr (length states), bump (record_flush (length states) nanos) e2)))
           | None \<Rightarrow>
               (let (nanos, e2) = elapsed e1
                in (Inr (length states), bump (record_flush (length states) nanos) e2)))
      | Inl err \<Rightarrow>
          (if \<not> is_retryable err \<or> unat (cfg_store_retry_limit (en_config e)) \<le> Suc attempt
           then (Inl (Store err), bump record_store_error
                   (e1\<lparr>en_cache := requeue_dirty states (en_cache e1)\<rparr>))
           else flush_states_loop persist states last_l (Suc attempt) (bump record_store_retry e1)))"
  by pat_completeness auto
termination
  by (relation "measure (\<lambda>(p, s, l, attempt, e). unat (cfg_store_retry_limit (en_config e)) - attempt)")
     (auto simp: bump_def)

declare flush_states_loop.simps [simp del]

definition flush_states :: "'d persist \<Rightarrow> player_state list \<Rightarrow> 'd engine \<Rightarrow> (flux_error + nat) \<times> 'd engine" where
  "flush_states persist states e =
     (let (first_lsn, lsn') = alloc_block (word_of_nat (length states)) (en_lsn e);
          records = stamp first_lsn states in
      case append_batch records (en_wal e) of
        (Inl err, w) \<Rightarrow>
          (Inl (Io err), e\<lparr>en_lsn := lsn', en_wal := w, en_cache := requeue_dirty states (en_cache e)\<rparr>)
      | (Inr last_l, w) \<Rightarrow>
          (let (wal_nanos, e1) = elapsed (e\<lparr>en_lsn := lsn', en_wal := w\<rparr>)
           in flush_states_loop persist states last_l 0
                (bump (record_wal_append (length records) wal_nanos) e1)))"

partial_function (option) api_drain :: "'d engine \<Rightarrow> 'd engine option" where
  "api_drain e =
     (let (moved, e1) = drain_up_to (cfg_flush_max_batch (en_config e)) e in
      if moved = 0 then Some e1
      else if moved < cfg_flush_max_batch (en_config e) then Some e1
      else api_drain e1)"

partial_function (option) flush_now_loop :: "'d persist \<Rightarrow> nat \<Rightarrow> 'd engine \<Rightarrow>
    ((flux_error + nat) \<times> 'd engine) option" where
  "flush_now_loop persist total_persisted e =
     (if dirty_len (en_cache e) = 0 then Some (Inr total_persisted, e)
      else Option.bind (api_drain e) (\<lambda>e1.
        let (states, e2) = take_batch e1 in
        if states = [] then Some (Inr total_persisted, e2)
        else case flush_states persist states e2 of
               (Inl err, e3) \<Rightarrow> Some (Inl err, e3)
             | (Inr persisted, e3) \<Rightarrow> flush_now_loop persist (total_persisted + persisted) e3))"

definition flush_now :: "'d persist \<Rightarrow> 'd engine \<Rightarrow> ((flux_error + nat) \<times> 'd engine) option" where
  "flush_now persist e = Option.bind (api_drain e) (flush_now_loop persist 0)"

definition pending :: "'d engine \<Rightarrow> nat" where
  "pending e = ring_len (en_ring e) + dirty_len (en_cache e)"

text \<open>\<open>shutdown\<close>, given what the worker still does before it sees the flag.\<close>

definition shutdown :: "'d persist \<Rightarrow> bool list \<Rightarrow> 'd engine \<Rightarrow> ((flux_error + unit) \<times> 'd engine) option" where
  "shutdown persist ts e =
     Option.bind (run persist ts e) (\<lambda>e1.
       case wal_flush (en_wal e1) of
         (Inl err, w) \<Rightarrow> Some (Inl (Io err), e1\<lparr>en_wal := w\<rparr>)
       | (Inr u, w) \<Rightarrow> Some (Inr (), e1\<lparr>en_wal := w\<rparr>))"

end
