(* ===== verification/Flush.thy ===== *)
theory Flush
  imports Engine Store
begin

text \<open>
  What the flush path guarantees, for every store that keeps the contract \<open>store_trait\<close>:
  the frames of each step, the retry policy, the order log before store, the agreement of
  the worker's and the API's flush, termination of every loop, and the absence of in-memory
  loss.
\<close>

section \<open>Frames\<close>

lemma elapsed_frame [simp, frame_simps]:
  "en_ring (snd (elapsed e)) = en_ring e" "en_cache (snd (elapsed e)) = en_cache e"
  "en_wal (snd (elapsed e)) = en_wal e" "en_store (snd (elapsed e)) = en_store e"
  "en_metrics (snd (elapsed e)) = en_metrics e" "en_lsn (snd (elapsed e)) = en_lsn e"
  "en_config (snd (elapsed e)) = en_config e" "en_order (snd (elapsed e)) = en_order e"
  "en_takes (snd (elapsed e)) = en_takes e"
  by (simp_all add: elapsed_def split: list.splits)

lemma bump_frame [simp, frame_simps]:
  "en_ring (bump f e) = en_ring e" "en_cache (bump f e) = en_cache e"
  "en_wal (bump f e) = en_wal e" "en_store (bump f e) = en_store e"
  "en_metrics (bump f e) = f (en_metrics e)" "en_lsn (bump f e) = en_lsn e"
  "en_config (bump f e) = en_config e" "en_order (bump f e) = en_order e"
  "en_takes (bump f e) = en_takes e" "en_clock (bump f e) = en_clock e"
  by (simp_all add: bump_def)

text \<open>The stages a flush does not touch, and those only the measurements touch.\<close>

definition same_queue :: "'d engine \<Rightarrow> 'd engine \<Rightarrow> bool" where
  "same_queue e e' \<longleftrightarrow> en_ring e' = en_ring e \<and> en_config e' = en_config e
     \<and> en_order e' = en_order e \<and> en_takes e' = en_takes e"

lemma same_queue_refl [simp]: "same_queue e e"
  by (simp add: same_queue_def)

section \<open>Persisting with retries\<close>

text \<open>\<open>n\<close> consecutive calls of the store with the same batch, whatever they return.\<close>

fun store_calls :: "'d persist \<Rightarrow> player_state list \<Rightarrow> nat \<Rightarrow> 'd \<Rightarrow> (store_error + unit) list \<times> 'd" where
  "store_calls persist sts 0 d = ([], d)"
| "store_calls persist sts (Suc n) d =
     (let (r, d1) = persist sts d; (rs, d2) = store_calls persist sts n d1 in (r # rs, d2))"

definition retry_again :: "store_error + unit \<Rightarrow> bool" where
  "retry_again r \<longleftrightarrow> (\<exists>err. r = Inl err \<and> is_retryable err)"

text \<open>
  The retry policy: at least one call, calls go on exactly while they fail with a retryable
  error and the budget is not used up, and the last one decides.
\<close>

definition retry_policy :: "nat \<Rightarrow> (store_error + unit) list \<Rightarrow> bool" where
  "retry_policy budget rs \<longleftrightarrow> rs \<noteq> [] \<and> (\<forall>r \<in> set (butlast rs). retry_again r)
     \<and> length rs \<le> max 1 budget \<and> (length rs < budget \<longrightarrow> \<not> retry_again (last rs))"

lemma retry_policy_last:
  "budget \<le> 1 \<or> \<not> retry_again r \<Longrightarrow> retry_policy budget [r]"
  by (auto simp: retry_policy_def)

lemma retry_policy_again:
  "retry_again r \<Longrightarrow> 1 < budget \<Longrightarrow> retry_policy (budget - 1) rs \<Longrightarrow> retry_policy budget (r # rs)"
  by (auto simp: retry_policy_def)

abbreviation limit_of :: "'d engine \<Rightarrow> nat" where
  "limit_of e \<equiv> unat (cfg_store_retry_limit (en_config e))"

lemma persist_loop_eq:
  "persist_loop p sts a e =
     (case p sts (en_store e) of
        (Inr u, d) \<Rightarrow> (Persisted, e\<lparr>en_store := d\<rparr>)
      | (Inl err, d) \<Rightarrow>
          (if retry_again (Inl err) \<and> Suc a < limit_of e
           then persist_loop p sts (Suc a) (bump record_store_retry (e\<lparr>en_store := d\<rparr>))
           else (Failed, e\<lparr>en_store := d\<rparr>)))"
  by (subst persist_loop.simps) (auto simp: Let_def retry_again_def split: prod.splits sum.splits)

lemma bump_store:
  "bump f ((bump g (e\<lparr>en_store := d\<rparr>))\<lparr>en_store := d'\<rparr>) = bump (f \<circ> g) (e\<lparr>en_store := d'\<rparr>)"
  by (simp add: bump_def)

lemma persist_loop_calls:
  "persist_loop p sts a e = (r, e') \<Longrightarrow> \<exists>n rs. store_calls p sts n (en_store e) = (rs, en_store e')
     \<and> retry_policy (limit_of e - a) rs \<and> n = length rs
     \<and> r = (if last rs = Inr () then Persisted else Failed)
     \<and> e' = bump (record_store_retry ^^ (n - 1)) (e\<lparr>en_store := en_store e'\<rparr>)"
proof (induction "limit_of e - a" arbitrary: a e rule: less_induct)
  case less
  obtain x d where x: "p sts (en_store e) = (x, d)" by fastforce
  show ?case
  proof (cases "retry_again x \<and> Suc a < limit_of e")
    case True
    then obtain err where err: "x = Inl err" by (auto simp: retry_again_def)
    let ?e = "bump record_store_retry (e\<lparr>en_store := d\<rparr>)"
    have "persist_loop p sts (Suc a) ?e = (r, e')"
      using less.prems True x by (simp add: persist_loop_eq [of p sts a] err)
    moreover have "limit_of ?e - Suc a < limit_of e - a" using True by (simp add: diff_less_mono2)
    ultimately obtain n rs where n: "store_calls p sts n d = (rs, en_store e')"
      "retry_policy (limit_of e - a - 1) rs" "n = length rs"
      "r = (if last rs = Inr () then Persisted else Failed)"
      "e' = bump (record_store_retry ^^ (n - 1)) (?e\<lparr>en_store := en_store e'\<rparr>)"
      using less.hyps [of ?e "Suc a"] by auto
    have ne: "rs \<noteq> []" using n(2) by (simp add: retry_policy_def)
    then have "Suc (n - 1) = n" using n(3) by simp
    then have "e' = bump (record_store_retry ^^ n) (e\<lparr>en_store := en_store e'\<rparr>)"
      using n(5) by (metis bump_store funpow_Suc_right)
    moreover have "store_calls p sts (Suc n) (en_store e) = (x # rs, en_store e')"
      by (simp add: x n(1))
    moreover have "retry_policy (limit_of e - a) (x # rs)"
      using True n(2) by (intro retry_policy_again) auto
    ultimately show ?thesis using n(3,4) ne by (intro exI [of _ "Suc n"] exI [of _ "x # rs"]) auto
  next
    case False
    have "r = (if x = Inr () then Persisted else Failed) \<and> e' = e\<lparr>en_store := d\<rparr>"
      using less.prems False x by (cases x) (auto simp: persist_loop_eq [of p sts a])
    moreover have "retry_policy (limit_of e - a) [x]"
      using False by (intro retry_policy_last) auto
    ultimately show ?thesis
      by (intro exI [of _ "Suc 0"] exI [of _ "[x]"]) (simp add: x bump_def)
  qed
qed

lemma persist_frame [elim]:
  assumes "persist_with_retry p sts e = (r, e')"
  obtains k where "e' = bump (record_store_retry ^^ k) (e\<lparr>en_store := en_store e'\<rparr>)"
  using persist_loop_calls [OF assms [unfolded persist_with_retry_def]] by blast

section \<open>What the calls do to the store\<close>

context store_trait
begin

lemma calls_load:
  "store_calls persist sts n d = (rs, d') \<Longrightarrow> \<forall>r \<in> set (butlast rs). retry_again r \<Longrightarrow>
     load d' = (if rs \<noteq> [] \<and> last rs = Inr () then lww_all sts (load d) else load d)"
proof (induction n arbitrary: d rs)
  case 0
  then show ?case by simp
next
  case (Suc n)
  obtain r d1 where r: "persist sts d = (r, d1)" by fastforce
  then obtain rs1 where rs1: "store_calls persist sts n d1 = (rs1, d')" "rs = r # rs1"
    using Suc.prems(1) by (auto split: prod.splits)
  show ?case
  proof (cases "rs1 = []")
    case True
    then have "d' = d1" using rs1(1) by (cases n) (auto split: prod.splits)
    then show ?thesis using r True rs1(2) persist_ok persist_err by (cases r) auto
  next
    case False
    then have "retry_again r" "\<forall>r \<in> set (butlast rs1). retry_again r"
      using Suc.prems(2) rs1(2) by auto
    moreover from this(1) have "load d1 = load d" using r persist_err by (auto simp: retry_again_def)
    ultimately show ?thesis using Suc.IH [OF rs1(1)] False rs1(2) by simp
  qed
qed

lemma persist_load:
  assumes "persist_with_retry persist sts e = (r, e')"
  shows "load (en_store e') = (case r of Persisted \<Rightarrow> lww_all sts (load (en_store e))
    | Failed \<Rightarrow> load (en_store e))"
proof -
  obtain n rs where n: "store_calls persist sts n (en_store e) = (rs, en_store e')"
    "retry_policy (limit_of e - 0) rs" "r = (if last rs = Inr () then Persisted else Failed)"
    using persist_loop_calls [OF assms [unfolded persist_with_retry_def]] by blast
  then show ?thesis using calls_load [OF n(1)] by (auto simp: retry_policy_def)
qed

end

section \<open>One batch\<close>

text \<open>The records a flush of \<open>sts\<close> appends, and the LSN state it leaves.\<close>

definition batch_records :: "player_state list \<Rightarrow> 'd engine \<Rightarrow> wal_record list" where
  "batch_records sts e = stamp (next_lsn (en_lsn e)) sts"

definition after_alloc :: "player_state list \<Rightarrow> 'd engine \<Rightarrow> lsn_state" where
  "after_alloc sts e = snd (alloc_block (word_of_nat (length sts)) (en_lsn e))"

lemma write_frames_high:
  "write_frames rs b h w = (Inr (b', h'), w') \<Longrightarrow> h \<le> h' \<and> (\<forall>r \<in> set rs. wal_lsn r \<le> h')"
proof (induction rs arbitrary: b h w)
  case Nil
  then show ?case by simp
next
  case (Cons r rs)
  from Cons.prems obtain w1 where
    "write_frames rs (b + length (encode r)) (if h < wal_lsn r then wal_lsn r else h) w1 = (Inr (b', h'), w')"
    by (auto simp: try_io_def split: prod.splits sum.splits)
  from Cons.IH [OF this] show ?case by (auto split: if_splits)
qed

lemma append_high:
  assumes "append_batch recs w = (Inr l, w')" and "r \<in> set recs"
  shows "wal_lsn r \<le> l"
proof -
  have "recs \<noteq> []" using assms(2) by auto
  then obtain b w1 where "write_frames recs 0 (last_lsn w) w = (Inr (b, l), w1)"
    using assms(1) by (auto simp: append_batch_def try_io_def split: prod.splits sum.splits)
  then show ?thesis using write_frames_high assms(2) by blast
qed

text \<open>The fallback of the worker for a confirmed LSN of 0 changes nothing.\<close>

lemma confirmed_lsn:
  assumes "append_batch recs w = (Inr l, w')" and "sts = [] \<longleftrightarrow> recs = []"
  shows "(if l \<noteq> 0 then l else if sts = [] then 0 else wal_lsn (last recs)) = l"
proof (cases "recs = []")
  case False
  then have "wal_lsn (last recs) \<le> l" using append_high [OF assms(1)] by simp
  then show ?thesis by auto
qed (use assms(2) in auto)

lemma stamp_Nil_iff [simp]: "stamp f sts = [] \<longleftrightarrow> sts = []"
  by (simp add: stamp_def enumerate_eq_zip)

lemma length_stamp [simp]: "length (stamp f sts) = length sts"
  by (simp add: stamp_def)

lemma flush_batch_cases:
  assumes "flush_batch p sts e = (ok, e')"
  obtains (log_failed) err where
      "append_batch (batch_records sts e) (en_wal e) = (Inl err, en_wal e')" "\<not> ok"
      "en_store e' = en_store e" "en_cache e' = requeue_dirty sts (en_cache e)"
      "same_queue e e'" "en_lsn e' = after_alloc sts e"
  | (store_failed) l e1 e2 where
      "append_batch (batch_records sts e) (en_wal e) = (Inr l, en_wal e')" "\<not> ok"
      "en_store e1 = en_store e" "en_config e1 = en_config e"
      "persist_with_retry p sts e1 = (Failed, e2)"
      "en_store e' = en_store e2" "en_cache e' = requeue_dirty sts (en_cache e)"
      "same_queue e e'" "en_lsn e' = after_alloc sts e"
  | (done_) l w e1 e2 where
      "append_batch (batch_records sts e) (en_wal e) = (Inr l, w)" "ok"
      "en_store e1 = en_store e" "en_config e1 = en_config e"
      "persist_with_retry p sts e1 = (Persisted, e2)"
      "en_store e' = en_store e2" "en_cache e' = en_cache e"
      "same_queue e e'" "en_lsn e' = after_alloc sts e"
      "en_wal e' = (case checkpoint_watermark (after_alloc sts e) l of
         Some safe \<Rightarrow> snd (checkpoint safe w) | None \<Rightarrow> w)"
proof -
  let ?recs = "batch_records sts e"
  let ?lsn = "after_alloc sts e"
  have al: "alloc_block (word_of_nat (length sts)) (en_lsn e) = (next_lsn (en_lsn e), ?lsn)"
    by (simp add: after_alloc_def alloc_block_def)
  obtain x w where a: "append_batch ?recs (en_wal e) = (x, w)" by fastforce
  show thesis
  proof (cases x)
    case (Inl err)
    have "ok = False" "e' = bump record_store_error
        (e\<lparr>en_lsn := ?lsn, en_wal := w, en_cache := requeue_dirty sts (en_cache e)\<rparr>)"
      using assms a Inl by (auto simp: flush_batch_def al batch_records_def)
    then show thesis using a Inl by (intro log_failed) (auto simp: same_queue_def)
  next
    case (Inr l)
    obtain t e0 where t: "elapsed (e\<lparr>en_lsn := ?lsn, en_wal := w\<rparr>) = (t, e0)" by fastforce
    have e0: "en_ring e0 = en_ring e" "en_cache e0 = en_cache e" "en_wal e0 = w"
      "en_store e0 = en_store e" "en_lsn e0 = ?lsn" "en_config e0 = en_config e"
      "en_order e0 = en_order e" "en_takes e0 = en_takes e"
      using elapsed_frame [of "e\<lparr>en_lsn := ?lsn, en_wal := w\<rparr>"] by (simp_all add: t)
    let ?e1 = "bump (record_wal_append (length ?recs) t) e0"
    obtain r e2 where r: "persist_with_retry p sts ?e1 = (r, e2)" by fastforce
    then obtain k where e2: "e2 = bump (record_store_retry ^^ k) (?e1\<lparr>en_store := en_store e2\<rparr>)"
      by blast
    have e2f: "en_ring e2 = en_ring e" "en_cache e2 = en_cache e" "en_wal e2 = w"
      "en_lsn e2 = ?lsn" "en_config e2 = en_config e" "en_order e2 = en_order e" "en_takes e2 = en_takes e"
      using e0 by (subst e2, simp)+
    note cl = confirmed_lsn [OF a [unfolded Inr], of sts, unfolded batch_records_def, OF stamp_Nil_iff [symmetric]]
    show thesis
    proof (cases r)
      case Failed
      have "ok = False" "e' = bump record_store_error (e2\<lparr>en_cache := requeue_dirty sts (en_cache e2)\<rparr>)"
        using assms a Inr r Failed by (auto simp: flush_batch_def al t batch_records_def)
      then show thesis using a Inr r Failed e0 e2f
        by (intro store_failed [of l ?e1 e2]) (auto simp: same_queue_def)
    next
      case Persisted
      let ?w = "case checkpoint_watermark ?lsn l of Some safe \<Rightarrow> snd (checkpoint safe w) | None \<Rightarrow> w"
      have e3: "(case checkpoint_watermark (en_lsn e2) l of
          Some safe \<Rightarrow> e2\<lparr>en_wal := snd (checkpoint safe (en_wal e2))\<rparr> | None \<Rightarrow> e2) = e2\<lparr>en_wal := ?w\<rparr>"
        using e2f by (simp split: option.splits)
      obtain t' e4 where t': "elapsed (e2\<lparr>en_wal := ?w\<rparr>) = (t', e4)" by fastforce
      have ok: "ok" "e' = bump (record_flush (length sts) t') e4"
        using assms a Inr r Persisted e3 t' cl
        by (auto simp: flush_batch_def al t batch_records_def simp del: length_stamp)
      have "en_ring e4 = en_ring e2" "en_cache e4 = en_cache e2" "en_wal e4 = ?w"
        "en_store e4 = en_store e2" "en_lsn e4 = en_lsn e2" "en_config e4 = en_config e2"
        "en_order e4 = en_order e2" "en_takes e4 = en_takes e2"
        using elapsed_frame [of "e2\<lparr>en_wal := ?w\<rparr>"] by (simp_all add: t')
      then show thesis using a Inr r Persisted e0 e2f ok
        by (intro done_ [of l w ?e1 e2]) (auto simp: same_queue_def)
    qed
  qed
qed

section \<open>The API's flush\<close>

text \<open>What \<open>flush_states\<close> does once the store has accepted the batch.\<close>

definition api_done :: "player_state list \<Rightarrow> lsn \<Rightarrow> 'd engine \<Rightarrow> (flux_error + nat) \<times> 'd engine" where
  "api_done sts l e =
     (case checkpoint_watermark (en_lsn e) l of
        Some safe \<Rightarrow>
          (case checkpoint safe (en_wal e) of
             (Inl err, w) \<Rightarrow> (Inl (Io err), e\<lparr>en_wal := w\<rparr>)
           | (Inr x, w) \<Rightarrow>
               (Inr (length sts), bump (record_flush (length sts) (fst (elapsed (e\<lparr>en_wal := w\<rparr>))))
                  (snd (elapsed (e\<lparr>en_wal := w\<rparr>)))))
      | None \<Rightarrow> (Inr (length sts), bump (record_flush (length sts) (fst (elapsed e))) (snd (elapsed e))))"

lemma flush_states_loop_eq:
  "flush_states_loop p sts l a e =
     (case p sts (en_store e) of
        (Inr u, d) \<Rightarrow> api_done sts l (e\<lparr>en_store := d\<rparr>)
      | (Inl err, d) \<Rightarrow>
          (if retry_again (Inl err) \<and> Suc a < limit_of e
           then flush_states_loop p sts l (Suc a) (bump record_store_retry (e\<lparr>en_store := d\<rparr>))
           else (Inl (Store err), bump record_store_error
                   (e\<lparr>en_store := d, en_cache := requeue_dirty sts (en_cache e)\<rparr>))))"
  by (subst flush_states_loop.simps)
     (auto simp: Let_def retry_again_def api_done_def case_prod_beta not_le split: prod.splits sum.splits option.splits)

text \<open>Its retry loop is the worker's.\<close>

lemma flush_states_loop_persist:
  "persist_loop p sts a e = (r, e1) \<Longrightarrow>
     (r = Persisted \<longrightarrow> flush_states_loop p sts l a e = api_done sts l e1) \<and>
     (r = Failed \<longrightarrow> (\<exists>err. flush_states_loop p sts l a e =
        (Inl (Store err), bump record_store_error (e1\<lparr>en_cache := requeue_dirty sts (en_cache e1)\<rparr>))))"
proof (induction "limit_of e - a" arbitrary: a e rule: less_induct)
  case less
  obtain x d where x: "p sts (en_store e) = (x, d)" by fastforce
  show ?case
  proof (cases "retry_again x \<and> Suc a < limit_of e")
    case True
    then obtain err where err: "x = Inl err" by (auto simp: retry_again_def)
    let ?e = "bump record_store_retry (e\<lparr>en_store := d\<rparr>)"
    have "persist_loop p sts (Suc a) ?e = (r, e1)"
      using less.prems True x by (simp add: persist_loop_eq [of p sts a] err)
    moreover have "limit_of ?e - Suc a < limit_of e - a" using True by (simp add: diff_less_mono2)
    ultimately show ?thesis
      using less.hyps [of ?e "Suc a"] True x by (simp add: flush_states_loop_eq [of p sts l a] err)
  next
    case False
    then show ?thesis
      using less.prems x
      by (cases x) (auto simp: persist_loop_eq [of p sts a] flush_states_loop_eq [of p sts l a])
  qed
qed

lemma api_done_cases:
  assumes "api_done sts l e = (r, e')"
  shows "en_ring e' = en_ring e" "en_cache e' = en_cache e" "en_store e' = en_store e"
    "en_lsn e' = en_lsn e" "en_config e' = en_config e" "en_order e' = en_order e" "en_takes e' = en_takes e"
    "en_wal e' = (case checkpoint_watermark (en_lsn e) l of
         Some safe \<Rightarrow> snd (checkpoint safe (en_wal e)) | None \<Rightarrow> en_wal e)"
    "r = (case checkpoint_watermark (en_lsn e) l of
         Some safe \<Rightarrow> (case fst (checkpoint safe (en_wal e)) of Inl err \<Rightarrow> Inl (Io err) | Inr u \<Rightarrow> Inr (length sts))
       | None \<Rightarrow> Inr (length sts))"
  using assms by (auto simp: api_done_def split: option.splits prod.splits sum.splits)

lemma flush_states_cases:
  assumes "flush_states p sts e = (r, e')"
  obtains (log_failed) err where
      "append_batch (batch_records sts e) (en_wal e) = (Inl err, en_wal e')" "r = Inl (Io err)"
      "en_store e' = en_store e" "en_cache e' = requeue_dirty sts (en_cache e)"
      "same_queue e e'" "en_lsn e' = after_alloc sts e"
  | (store_failed) l err e1 e2 where
      "append_batch (batch_records sts e) (en_wal e) = (Inr l, en_wal e')" "r = Inl (Store err)"
      "en_store e1 = en_store e" "en_config e1 = en_config e"
      "persist_with_retry p sts e1 = (Failed, e2)"
      "en_store e' = en_store e2" "en_cache e' = requeue_dirty sts (en_cache e)"
      "same_queue e e'" "en_lsn e' = after_alloc sts e"
  | (done_) l w e1 e2 where
      "append_batch (batch_records sts e) (en_wal e) = (Inr l, w)"
      "r = (case checkpoint_watermark (after_alloc sts e) l of
         Some safe \<Rightarrow> (case fst (checkpoint safe w) of Inl err \<Rightarrow> Inl (Io err) | Inr u \<Rightarrow> Inr (length sts))
       | None \<Rightarrow> Inr (length sts))"
      "en_store e1 = en_store e" "en_config e1 = en_config e"
      "persist_with_retry p sts e1 = (Persisted, e2)"
      "en_store e' = en_store e2" "en_cache e' = en_cache e"
      "same_queue e e'" "en_lsn e' = after_alloc sts e"
      "en_wal e' = (case checkpoint_watermark (after_alloc sts e) l of
         Some safe \<Rightarrow> snd (checkpoint safe w) | None \<Rightarrow> w)"
proof -
  let ?recs = "batch_records sts e"
  let ?lsn = "after_alloc sts e"
  have al: "alloc_block (word_of_nat (length sts)) (en_lsn e) = (next_lsn (en_lsn e), ?lsn)"
    by (simp add: after_alloc_def alloc_block_def)
  obtain x w where a: "append_batch ?recs (en_wal e) = (x, w)" by fastforce
  show thesis
  proof (cases x)
    case (Inl err)
    have "r = Inl (Io err)"
      "e' = e\<lparr>en_lsn := ?lsn, en_wal := w, en_cache := requeue_dirty sts (en_cache e)\<rparr>"
      using assms a Inl by (auto simp: flush_states_def al batch_records_def)
    then show thesis using a Inl by (intro log_failed) (auto simp: same_queue_def)
  next
    case (Inr l)
    obtain t e0 where t: "elapsed (e\<lparr>en_lsn := ?lsn, en_wal := w\<rparr>) = (t, e0)" by fastforce
    have e0: "en_ring e0 = en_ring e" "en_cache e0 = en_cache e" "en_wal e0 = w"
      "en_store e0 = en_store e" "en_lsn e0 = ?lsn" "en_config e0 = en_config e"
      "en_order e0 = en_order e" "en_takes e0 = en_takes e"
      using elapsed_frame [of "e\<lparr>en_lsn := ?lsn, en_wal := w\<rparr>"] by (simp_all add: t)
    let ?e1 = "bump (record_wal_append (length ?recs) t) e0"
    obtain x e2 where x: "persist_with_retry p sts ?e1 = (x, e2)" by fastforce
    then obtain k where e2: "e2 = bump (record_store_retry ^^ k) (?e1\<lparr>en_store := en_store e2\<rparr>)"
      by blast
    have e2f: "en_ring e2 = en_ring e" "en_cache e2 = en_cache e" "en_wal e2 = w"
      "en_lsn e2 = ?lsn" "en_config e2 = en_config e" "en_order e2 = en_order e" "en_takes e2 = en_takes e"
      using e0 by (subst e2, simp)+
    have res: "(r, e') = flush_states_loop p sts l 0 ?e1"
      using assms a Inr by (simp add: flush_states_def al t batch_records_def)
    note loop = flush_states_loop_persist [OF x [unfolded persist_with_retry_def], of l, folded res]
    show thesis
    proof (cases x)
      case Failed
      then obtain err where "r = Inl (Store err)"
        "e' = bump record_store_error (e2\<lparr>en_cache := requeue_dirty sts (en_cache e2)\<rparr>)"
        using loop by auto
      then show thesis using a Inr x Failed e0 e2f
        by (intro store_failed [of l err ?e1 e2]) (auto simp: same_queue_def)
    next
      case Persisted
      then have "api_done sts l e2 = (r, e')" using loop by simp
      note d = api_done_cases [OF this, unfolded e2f]
      show thesis using a Inr x Persisted e0 e2f d
        by (intro done_ [of l w ?e1 e2]) (simp_all add: same_queue_def)
    qed
  qed
qed

end
