(* ===== verification/Lossless.thy ===== *)
theory Lossless
  imports Flush
begin

text \<open>
  Nothing accepted is lost in memory: a state is held when the store covers it, or the cache
  covers it and its player is dirty.  Every step of the worker and of the API keeps what is
  held, for every store that keeps its contract, and every loop of theirs returns.
\<close>

section \<open>Held states\<close>

definition kept :: "cache \<Rightarrow> table \<Rightarrow> player_state \<Rightarrow> bool" where
  "kept c m st \<longleftrightarrow> covers m st \<or> (ps_id st \<in> c_dirty c \<and> covers (live c) st)"

definition held :: "('d \<Rightarrow> table) \<Rightarrow> 'd engine \<Rightarrow> player_state \<Rightarrow> bool" where
  "held load e st \<longleftrightarrow> kept (en_cache e) (load (en_store e)) st"

text \<open>Every cached entry is held: what is not dirty has reached the store.\<close>

definition backed :: "cache \<Rightarrow> table \<Rightarrow> bool" where
  "backed c m \<longleftrightarrow> (\<forall>i st. live c i = Some st \<longrightarrow> kept c m st)"

lemma kept_older: "kept c m s \<Longrightarrow> ps_id st = ps_id s \<Longrightarrow> ps_version st \<le> ps_version s \<Longrightarrow> kept c m st"
  unfolding kept_def using covers_trans_entry by metis

lemma kept_clean: "kept c m st \<Longrightarrow> c_dirty c = {} \<Longrightarrow> covers m st"
  by (simp add: kept_def)

lemma kept_store_mono: "kept c m st \<Longrightarrow> grows m m' \<Longrightarrow> kept c m' st"
  by (auto simp: kept_def grows_def)

lemma kept_apply: "kept c m st \<Longrightarrow> kept (cache_apply r c) m st"
  by (auto simp: kept_def live_apply dirty_apply covers_lww_put_mono)

lemma apply_kept:
  assumes "backed c m" and "cache_inv c"
  shows "kept (cache_apply r c) m (to_state r)"
proof (cases "\<exists>e. live c (wr_id r) = Some e \<and> wr_version r < ps_version e")
  case True
  then obtain e where e: "live c (wr_id r) = Some e" "wr_version r < ps_version e" by blast
  then have "kept c m e" using assms(1) by (auto simp: backed_def)
  moreover have "ps_id e = wr_id r" using e(1) cache_inv_keyed [OF assms(2)] by (auto simp: keyed_def)
  ultimately have "kept c m (to_state r)" using e(2) by (auto intro: kept_older)
  then show ?thesis by (rule kept_apply)
next
  case False
  then show ?thesis by (auto simp: kept_def live_apply dirty_apply)
qed

lemma backed_apply: "backed c m \<Longrightarrow> cache_inv c \<Longrightarrow> backed (cache_apply r c) m"
  unfolding backed_def
proof (intro allI impI)
  fix i st
  assume b: "\<forall>i st. live c i = Some st \<longrightarrow> kept c m st" and inv: "cache_inv c"
    and st: "live (cache_apply r c) i = Some st"
  then have "st = to_state r \<or> live c i = Some st"
    by (auto simp: live_apply lww_put_def split: option.splits if_splits)
  then show "kept (cache_apply r c) m st"
    using b inv by (auto intro: kept_apply apply_kept simp: backed_def)
qed

lemma taken_state:
  assumes "cache_inv c" and "take_dirty h n c = (sts, c1)" and "ps_id st \<in> ps_id ` set sts"
    and "covers (live c) st"
  obtains s where "s \<in> set sts" "ps_id s = ps_id st" "ps_version st \<le> ps_version s"
  using assms(3,4) take_dirty_spec(3) [OF assms(1,2)] by (force simp: covers_def)

text \<open>A batch that reached the store, and one that came back.\<close>

lemma kept_persisted:
  assumes "cache_inv c" and "take_dirty h n c = (sts, c1)" and "kept c m st"
  shows "kept c1 (lww_all sts m) st"
proof (cases "covers m st")
  case True
  then show ?thesis by (simp add: kept_def covers_lww_all_mono)
next
  case False
  then have st: "ps_id st \<in> c_dirty c" "covers (live c) st" using assms(3) by (simp_all add: kept_def)
  note t = take_dirty_spec [OF assms(1,2)]
  show ?thesis
  proof (cases "ps_id st \<in> ps_id ` set sts")
    case True
    then obtain s where "s \<in> set sts" "ps_id s = ps_id st" "ps_version st \<le> ps_version s"
      using taken_state [OF assms(1,2) _ st(2)] by blast
    then have "covers (lww_all sts m) st" by (metis covers_lww_all covers_trans_entry)
    then show ?thesis by (simp add: kept_def)
  next
    case False
    then show ?thesis using st t(1,2) by (simp add: kept_def)
  qed
qed

lemma kept_requeued:
  assumes "cache_inv c" and "take_dirty h n c = (sts, c1)" and "kept c m st"
  shows "kept (requeue_dirty sts (fold cache_apply rs c1)) m st"
proof (cases "covers m st")
  case True
  then show ?thesis by (simp add: kept_def)
next
  case False
  then have st: "ps_id st \<in> c_dirty c" "covers (live c) st" using assms(3) by (simp_all add: kept_def)
  note t = take_dirty_spec [OF assms(1,2)]
  let ?c = "fold cache_apply rs c1"
  have "ps_id st \<in> c_dirty (requeue_dirty sts ?c) \<and> covers (live (requeue_dirty sts ?c)) st"
  proof (cases "ps_id st \<in> ps_id ` set sts")
    case True
    then obtain s where s: "s \<in> set sts" "ps_id s = ps_id st" "ps_version st \<le> ps_version s"
      using taken_state [OF assms(1,2) _ st(2)] by blast
    then show ?thesis
      using wb.failed_flush_lossless [OF assms(1,2) s(1), of rs] covers_trans_entry s(2,3) by metis
  next
    case False
    then have "ps_id st \<in> c_dirty c1" "covers (live c1) st" using st t(1,2) by simp_all
    moreover have "c_dirty c1 \<subseteq> c_dirty (requeue_dirty sts ?c)"
      using wb.apply_all_dirty_mono [OF t(6), of rs] dirty_requeue_mono [of ?c sts] by blast
    moreover have "live ?c = lww_all (map to_state rs) (live c1)"
      by (rule wb.apply_all_view [OF t(6)])
    ultimately show ?thesis by (auto simp: live_requeue covers_lww_all_mono)
  qed
  then show ?thesis by (simp add: kept_def)
qed

lemma dirty_requeue_within: "c_dirty (requeue_dirty sts c) \<subseteq> c_dirty c \<union> ps_id ` set sts"
proof (induction sts arbitrary: c)
  case Nil
  then show ?case by simp
next
  case (Cons st sts)
  have "c_dirty (requeue_one st c) \<subseteq> insert (ps_id st) (c_dirty c)" by (auto simp: dirty_requeue_one)
  with Cons [of "requeue_one st c"] show ?case by auto
qed

lemma dirty_requeued:
  assumes "cache_inv c" and "take_dirty h n c = (sts, c1)"
  shows "c_dirty (requeue_dirty sts c1) = c_dirty c"
proof
  note t = take_dirty_spec [OF assms]
  show "c_dirty (requeue_dirty sts c1) \<subseteq> c_dirty c"
    using dirty_requeue_within [of sts c1] t(2,3) by blast
  show "c_dirty c \<subseteq> c_dirty (requeue_dirty sts c1)"
  proof
    fix i assume i: "i \<in> c_dirty c"
    show "i \<in> c_dirty (requeue_dirty sts c1)"
    proof (cases "i \<in> ps_id ` set sts")
      case True
      then show ?thesis using wb.failed_flush_lossless [OF assms, of _ "[]"] by force
    next
      case False
      then show ?thesis using i t(2) dirty_requeue_mono [of c1 sts] by auto
    qed
  qed
qed

lemma live_requeued:
  assumes "cache_inv c" and "take_dirty h n c = (sts, c1)"
  shows "live (requeue_dirty sts c1) = live c"
proof -
  note t = take_dirty_spec [OF assms]
  have "lww_all xs (live c) = live c" if "set xs \<subseteq> set sts" for xs
    using that
  proof (induction xs)
    case Nil
    then show ?case by simp
  next
    case (Cons s xs)
    then have "live c (ps_id s) = Some s" using t(3) by auto
    then have "lww_put s (live c) = live c" by (auto simp: lww_put_def)
    with Cons show ?case by simp
  qed
  then show ?thesis by (simp add: live_requeue t(1))
qed

section \<open>The engine's invariant\<close>

definition engine_ok :: "'d engine \<Rightarrow> bool" where
  "engine_ok e \<longleftrightarrow> cache_inv (en_cache e) \<and> ring_inv (en_ring e) \<and> lsn_inv (en_lsn e)
     \<and> 0 < cfg_flush_max_batch (en_config e)"

abbreviation queued :: "'d engine \<Rightarrow> write_request list" where
  "queued e \<equiv> ring_contents (en_ring e)"

abbreviation dirty_set :: "'d engine \<Rightarrow> player_id set" where
  "dirty_set e \<equiv> c_dirty (en_cache e)"

lemma take_batch_takes:
  assumes "take_batch e = (sts, e1)"
  shows "take_dirty (en_order e (en_takes e)) (cfg_flush_max_batch (en_config e)) (en_cache e)
      = (sts, en_cache e1)"
    and "e1 = e\<lparr>en_cache := en_cache e1, en_takes := Suc (en_takes e)\<rparr>"
  using assms by (auto simp: take_batch_def split: prod.splits)

lemma take_batch_frame:
  assumes "take_batch e = (sts, e1)"
  shows "en_ring e1 = en_ring e" "en_wal e1 = en_wal e" "en_store e1 = en_store e"
    "en_metrics e1 = en_metrics e" "en_lsn e1 = en_lsn e" "en_config e1 = en_config e"
    "en_order e1 = en_order e" "en_clock e1 = en_clock e"
  by (subst take_batch_takes(2) [OF assms], simp)+

lemma take_batch_ok:
  assumes "engine_ok e" and "take_batch e = (sts, e1)"
  shows "engine_ok e1" and "sts = [] \<longleftrightarrow> dirty_set e = {}"
    and "dirty_set e1 = dirty_set e - ps_id ` set sts" and "live (en_cache e1) = live (en_cache e)"
    and "sts \<noteq> [] \<Longrightarrow> dirty_len (en_cache e1) < dirty_len (en_cache e)"
proof -
  have inv: "cache_inv (en_cache e)" using assms(1) by (simp add: engine_ok_def)
  note t = take_dirty_spec [OF inv take_batch_takes(1) [OF assms(2)]]
  show "engine_ok e1" using assms(1) t(6) by (simp add: engine_ok_def take_batch_frame [OF assms(2)])
  have "length sts = 0 \<longleftrightarrow> card (dirty_set e) = 0"
    using t(5) assms(1) by (auto simp: engine_ok_def dirty_len_def min_def)
  then show "sts = [] \<longleftrightarrow> dirty_set e = {}" using cache_inv_finite_dirty [OF inv] by simp
  show d: "dirty_set e1 = dirty_set e - ps_id ` set sts" by (rule t(2))
  show "live (en_cache e1) = live (en_cache e)" by (rule t(1))
  assume "sts \<noteq> []"
  then have "dirty_set e1 \<subset> dirty_set e" using t(3) d by (auto simp: neq_Nil_conv)
  then show "dirty_len (en_cache e1) < dirty_len (en_cache e)"
    unfolding dirty_len_def by (intro psubset_card_mono cache_inv_finite_dirty [OF inv])
qed

lemma same_queue_ok:
  assumes "same_queue e e'" and "en_lsn e' = after_alloc sts e" and "engine_ok e"
    and "en_cache e' = requeue_dirty sts (en_cache e) \<or> en_cache e' = en_cache e"
  shows "engine_ok e'"
  using assms by (auto simp: engine_ok_def same_queue_def after_alloc_def)

lemma flush_batch_ok:
  assumes "engine_ok e" and "flush_batch p sts e = (ok, e')"
  shows "engine_ok e'" and "same_queue e e'" and "ok \<Longrightarrow> en_cache e' = en_cache e"
    and "\<not> ok \<Longrightarrow> en_cache e' = requeue_dirty sts (en_cache e)"
proof -
  have f: "same_queue e e' \<and> en_lsn e' = after_alloc sts e \<and> (ok \<longrightarrow> en_cache e' = en_cache e)
      \<and> (\<not> ok \<longrightarrow> en_cache e' = requeue_dirty sts (en_cache e))"
    using assms(2) by (cases rule: flush_batch_cases) simp_all
  then show "engine_ok e'" using same_queue_ok [OF _ _ assms(1)] by blast
  show "same_queue e e'" "ok \<Longrightarrow> en_cache e' = en_cache e"
    "\<not> ok \<Longrightarrow> en_cache e' = requeue_dirty sts (en_cache e)" using f by blast+
qed

lemma flush_states_ok:
  assumes "engine_ok e" and "flush_states p sts e = (r, e')"
  shows "engine_ok e'" and "same_queue e e'"
    and "en_cache e' = en_cache e \<or> en_cache e' = requeue_dirty sts (en_cache e)"
    and "r = Inr n \<Longrightarrow> en_cache e' = en_cache e \<and> n = length sts"
proof -
  have f: "same_queue e e' \<and> en_lsn e' = after_alloc sts e
      \<and> (en_cache e' = requeue_dirty sts (en_cache e) \<or> en_cache e' = en_cache e)"
    using assms(2) by (cases rule: flush_states_cases) simp_all
  then show "engine_ok e'" using same_queue_ok [OF _ _ assms(1)] by blast
  show "same_queue e e'" "en_cache e' = en_cache e \<or> en_cache e' = requeue_dirty sts (en_cache e)"
    using f by blast+
  show "en_cache e' = en_cache e \<and> n = length sts" if "r = Inr n"
    using assms(2)
  proof (cases rule: flush_states_cases)
    case (done_ l w e1 e2)
    then show ?thesis using that by (auto split: option.splits sum.splits)
  qed (use that in simp_all)
qed

section \<open>A flush returns\<close>

text \<open>Induction over the batches of one flush; it yields that the flush returns.\<close>

lemma flush_induct [consumes 1, case_names clean failed persisted]:
  assumes "engine_ok e"
    and clean: "\<And>e e1. engine_ok e \<Longrightarrow> take_batch e = ([], e1) \<Longrightarrow> Q e e1"
    and failed: "\<And>e sts e1 e2. engine_ok e \<Longrightarrow> take_batch e = (sts, e1) \<Longrightarrow> sts \<noteq> [] \<Longrightarrow>
      flush_batch p sts e1 = (False, e2) \<Longrightarrow> Q e e2"
    and persisted: "\<And>e sts e1 e2 e3. engine_ok e \<Longrightarrow> take_batch e = (sts, e1) \<Longrightarrow> sts \<noteq> [] \<Longrightarrow>
      flush_batch p sts e1 = (True, e2) \<Longrightarrow> engine_ok e2 \<Longrightarrow> flush p e2 = Some e3 \<Longrightarrow> Q e2 e3 \<Longrightarrow> Q e e3"
  shows "\<exists>e'. flush p e = Some e' \<and> Q e e'"
  using assms(1)
proof (induction "dirty_len (en_cache e)" arbitrary: e rule: less_induct)
  case less
  obtain sts e1 where t: "take_batch e = (sts, e1)" by fastforce
  note ok = take_batch_ok [OF less.prems t]
  show ?case
  proof (cases "sts = []")
    case True
    then have "flush p e = Some e1" using t by (simp add: flush.simps [of p e])
    then show ?thesis using clean [OF less.prems] t True by blast
  next
    case False
    obtain b e2 where b: "flush_batch p sts e1 = (b, e2)" by fastforce
    note fb = flush_batch_ok [OF ok(1) b]
    show ?thesis
    proof (cases b)
      case True
      then have step: "flush p e = flush p e2" using t False b by (simp add: flush.simps [of p e])
      have "dirty_len (en_cache e2) < dirty_len (en_cache e)" using ok(5) [OF False] fb(3) True by simp
      from less.hyps [OF this fb(1)] obtain e3 where "flush p e2 = Some e3" "Q e2 e3" by blast
      then show ?thesis using persisted [OF less.prems t False _ fb(1)] b True step by auto
    next
      case False
      with \<open>sts \<noteq> []\<close> have "flush p e = Some e2" using t b by (simp add: flush.simps [of p e])
      then show ?thesis using failed [OF less.prems t \<open>sts \<noteq> []\<close>] b False by auto
    qed
  qed
qed

lemma flush_ok:
  assumes "engine_ok e"
  shows "\<exists>e'. flush p e = Some e' \<and> engine_ok e' \<and> en_ring e' = en_ring e
    \<and> en_config e' = en_config e \<and> en_order e' = en_order e
    \<and> dirty_set e' \<subseteq> dirty_set e \<and> live (en_cache e') = live (en_cache e)"
  using assms
proof (induction rule: flush_induct)
  case (clean e e1)
  then show ?case using take_batch_ok [OF clean] by (simp add: take_batch_frame [OF clean(2)])
next
  case (failed e sts e1 e2)
  note t = take_batch_ok [OF failed(1,2)]
  note b = flush_batch_ok [OF t(1) failed(4)]
  have inv: "cache_inv (en_cache e)" using failed(1) by (simp add: engine_ok_def)
  show ?case
    using b dirty_requeued [OF inv take_batch_takes(1) [OF failed(2)]]
      live_requeued [OF inv take_batch_takes(1) [OF failed(2)]]
    by (simp add: same_queue_def take_batch_frame [OF failed(2)])
next
  case (persisted e sts e1 e2 e3)
  note t = take_batch_ok [OF persisted(1,2)]
  note b = flush_batch_ok [OF t(1) persisted(4)]
  show ?case using persisted(7) b t by (auto simp: same_queue_def take_batch_frame [OF persisted(2)])
qed

section \<open>Draining\<close>

lemma fold_apply_drained:
  "fold apply_drained rs e = e\<lparr>en_lsn := fold (\<lambda>r. note_drained (wr_seq r)) rs (en_lsn e),
     en_cache := fold cache_apply rs (en_cache e)\<rparr>"
  by (induction rs arbitrary: e) (simp_all add: apply_drained_def)

lemma lsn_inv_drained: "lsn_inv s \<Longrightarrow> lsn_inv (fold (\<lambda>r. note_drained (wr_seq r)) rs s)"
  by (induction rs arbitrary: s) auto

lemma pending_drained:
  "pending_lsns (fold (\<lambda>r. note_drained (wr_seq r)) rs s) = pending_lsns s - wr_seq ` set rs"
  by (induction rs arbitrary: s) auto

lemma next_drained: "next_lsn (fold (\<lambda>r. note_drained (wr_seq r)) rs s) = next_lsn s"
  by (induction rs arbitrary: s) auto

lemma drain_up_to_effect:
  assumes "engine_ok e" and "drain_up_to n e = (k, e')"
  shows "k = min n (length (queued e))" and "queued e' = drop n (queued e)"
    and "en_cache e' = fold cache_apply (take n (queued e)) (en_cache e)"
    and "en_lsn e' = fold (\<lambda>r. note_drained (wr_seq r)) (take n (queued e)) (en_lsn e)"
    and "engine_ok e'" and "en_wal e' = en_wal e" and "en_store e' = en_store e"
    and "en_config e' = en_config e" and "en_order e' = en_order e" and "en_takes e' = en_takes e"
    and "en_ring e' = snd (drain_into n (en_ring e))"
proof -
  obtain rs m where d: "drain_into n (en_ring e) = (rs, m)" by fastforce
  have "rs = take n (queued e) \<and> ring_contents m = drop n (queued e) \<and> ring_inv m"
    using drain_into_takes [of "en_ring e" n] assms(1) by (simp add: d engine_ok_def)
  moreover have "k = length rs" "e' = fold apply_drained rs (e\<lparr>en_ring := m\<rparr>)"
    using assms(2) by (auto simp: drain_up_to_def d)
  ultimately show "k = min n (length (queued e))" "queued e' = drop n (queued e)"
    "en_cache e' = fold cache_apply (take n (queued e)) (en_cache e)"
    "en_lsn e' = fold (\<lambda>r. note_drained (wr_seq r)) (take n (queued e)) (en_lsn e)"
    "engine_ok e'" "en_wal e' = en_wal e" "en_store e' = en_store e"
    "en_config e' = en_config e" "en_order e' = en_order e" "en_takes e' = en_takes e"
    "en_ring e' = snd (drain_into n (en_ring e))"
    using assms(1) wb.apply_all_inv
    by (simp_all add: fold_apply_drained engine_ok_def d lsn_inv_drained)
qed

definition drain_size :: "'d engine \<Rightarrow> nat" where
  "drain_size e = saturating_mul (cfg_flush_max_batch (en_config e)) DRAIN_MULTIPLE"

lemma drain_size_pos: "engine_ok e \<Longrightarrow> 0 < drain_size e"
  by (simp add: drain_size_def saturating_mul_def DRAIN_MULTIPLE_def engine_ok_def)

lemma drain_ring_is: "drain_ring_into_cache e = drain_up_to (drain_size e) e"
  by (simp add: drain_ring_into_cache_def drain_size_def)

section \<open>Every loop returns\<close>

text \<open>
  The rule for the final drain: it returns, it keeps what its drains and flushes keep, and
  it ends either with nothing left or after a flush that made no progress.
\<close>

lemma final_drain_rule:
  assumes "I e" and ok: "\<And>e. I e \<Longrightarrow> engine_ok e"
    and drain: "\<And>e k e1. I e \<Longrightarrow> drain_ring_into_cache e = (k, e1) \<Longrightarrow> I e1 \<and> Q e e1"
    and flush: "\<And>e e1. I e \<Longrightarrow> flush p e = Some e1 \<Longrightarrow> I e1 \<and> Q e e1"
    and trans: "\<And>a b c. Q a b \<Longrightarrow> Q b c \<Longrightarrow> Q a c"
  shows "\<exists>e'. final_drain p stalled e = Some e' \<and> I e' \<and> Q e e' \<and>
    (ring_is_empty (en_ring e') \<and> dirty_set e' = {}
     \<or> (\<exists>e1. I e1 \<and> flush p e1 = Some e' \<and> dirty_set e1 \<noteq> {} \<and> dirty_len (en_cache e1) \<le> dirty_len (en_cache e')))"
  using assms(1)
proof (induction "(length (queued e), dirty_len (en_cache e), SHUTDOWN_MAX_STALLED_ATTEMPTS - stalled)"
    arbitrary: e stalled rule: wf_induct_rule [OF wf_lex_prod [OF wf_less_than wf_lex_prod [OF wf_less_than wf_less_than]]])
  case (1 e stalled)
  note ok_e = ok [OF "1.prems"]
  obtain k e1 where d: "drain_ring_into_cache e = (k, e1)" by fastforce
  note dr = drain_up_to_effect [OF ok_e d [unfolded drain_ring_is]]
  note I1 = drain [OF "1.prems" d]
  obtain f where f: "flush p e1 = Some f" "engine_ok f" "en_ring f = en_ring e1"
    "dirty_set f \<subseteq> dirty_set e1" using flush_ok [OF dr(5), of p] by blast
  note If = flush [OF conjunct1 [OF I1] f(1)]
  define e2 where "e2 = (if 0 < dirty_len (en_cache e1) then f else e1)"
  have e2: "I e2" "Q e e2" "en_ring e2 = en_ring e1" "dirty_set e2 \<subseteq> dirty_set e1"
    using f dr(5) I1 If trans by (auto simp: e2_def)
  have step: "final_drain p stalled e =
      (if ring_is_empty (en_ring e1) \<and> dirty_len (en_cache e1) = 0 then Some e1
       else if 0 < k \<or> dirty_len (en_cache e2) < dirty_len (en_cache e1) then final_drain p 0 e2
       else if SHUTDOWN_MAX_STALLED_ATTEMPTS \<le> Suc stalled then Some e2
       else final_drain p (Suc stalled) e2)"
    by (subst final_drain.simps) (simp add: d f(1) e2_def Let_def)
  have q: "length (queued e2) = length (queued e) - drain_size e"
    using dr(2) e2(3) by simp
  have fin: "finite (dirty_set e1)" using dr(5) by (simp add: engine_ok_def cache_inv_finite_dirty)
  then have dl: "dirty_len (en_cache e2) \<le> dirty_len (en_cache e1)"
    unfolding dirty_len_def using e2(4) by (intro card_mono)
  let ?goal = "\<lambda>e e'. I e' \<and> Q e e' \<and> (ring_is_empty (en_ring e') \<and> dirty_set e' = {}
     \<or> (\<exists>e1. I e1 \<and> flush p e1 = Some e' \<and> dirty_set e1 \<noteq> {} \<and> dirty_len (en_cache e1) \<le> dirty_len (en_cache e')))"
  have onwards: "\<exists>e'. final_drain p s e2 = Some e' \<and> ?goal e e'"
    if "\<exists>e'. final_drain p s e2 = Some e' \<and> ?goal e2 e'" for s
    using that e2(2) trans by blast
  consider (finished) "ring_is_empty (en_ring e1) \<and> dirty_len (en_cache e1) = 0"
    | (drained) "\<not> (ring_is_empty (en_ring e1) \<and> dirty_len (en_cache e1) = 0)" "0 < k"
    | (idle) "\<not> (ring_is_empty (en_ring e1) \<and> dirty_len (en_cache e1) = 0)" "k = 0" by blast
  then show ?case
  proof cases
    case finished
    then show ?thesis using I1 fin by (simp add: step) (simp add: dirty_len_def)
  next
    case drained
    then have "length (queued e2) < length (queued e)"
      using dr(1) q drain_size_pos [OF ok_e] by simp
    then have "\<exists>e'. final_drain p 0 e2 = Some e' \<and> ?goal e2 e'"
      using e2(1) by (intro "1.hyps") auto
    moreover have "final_drain p stalled e = final_drain p 0 e2" using drained by (auto simp: step)
    ultimately show ?thesis using onwards [of 0] by simp
  next
    case idle
    then have size: "ring_size (en_ring e) = 0" using dr(1) drain_size_pos [OF ok_e] by simp
    then have emp: "queued e = []" by (simp add: ring_contents_def)
    then have same: "length (queued e2) = length (queued e)" "en_cache e1 = en_cache e"
      using q dr(3) size by simp_all
    have "ring_is_empty (en_ring e1)"
      using ring_len_eq [of "en_ring e1"] dr(2,5) emp
      by (simp add: ring_is_empty_def engine_ok_def del: length_contents)
    then have pos: "0 < dirty_len (en_cache e1)" using idle by simp
    then have f_is: "e2 = f" "dirty_set e1 \<noteq> {}" by (auto simp: e2_def dirty_len_def)
    show ?thesis
    proof (cases "dirty_len (en_cache e2) < dirty_len (en_cache e1)")
      case True
      then have "\<exists>e'. final_drain p 0 e2 = Some e' \<and> ?goal e2 e'"
        using e2(1) same by (intro "1.hyps") auto
      moreover have "final_drain p stalled e = final_drain p 0 e2" using True idle by (auto simp: step)
      ultimately show ?thesis using onwards [of 0] by simp
    next
      case stay: False
      show ?thesis
      proof (cases "SHUTDOWN_MAX_STALLED_ATTEMPTS \<le> Suc stalled")
        case True
        then have "final_drain p stalled e = Some e2" using stay idle by (auto simp: step)
        then show ?thesis using e2(1,2) f(1) f_is stay I1 by auto
      next
        case False
        then have "\<exists>e'. final_drain p (Suc stalled) e2 = Some e' \<and> ?goal e2 e'"
          using e2(1) same stay dl by (intro "1.hyps") auto
        moreover have "final_drain p stalled e = final_drain p (Suc stalled) e2"
          using stay idle False by (auto simp: step)
        ultimately show ?thesis using onwards [of "Suc stalled"] by simp
      qed
    qed
  qed
qed

lemma drain_ok: "engine_ok e \<Longrightarrow> drain_ring_into_cache e = (k, e1) \<Longrightarrow> engine_ok e1"
  using drain_up_to_effect(5) by (simp add: drain_ring_is)

lemma final_drain_total:
  assumes "engine_ok e"
  shows "\<exists>e'. final_drain p stalled e = Some e' \<and> engine_ok e'"
proof -
  have "flush p e = Some e1 \<Longrightarrow> engine_ok e1" if "engine_ok e" for e e1
    using flush_ok [OF that, of p] by auto
  from final_drain_rule [where I = engine_ok and Q = "\<lambda>_ _. True", OF assms, of p stalled] this drain_ok
  show ?thesis by blast
qed

lemma worker_step_total:
  assumes "engine_ok e"
  shows "\<exists>e'. worker_step p t e = Some e' \<and> engine_ok e'"
proof -
  obtain k e1 where d: "drain_ring_into_cache e = (k, e1)" by fastforce
  note ok = drain_up_to_effect(5) [OF assms d [unfolded drain_ring_is]]
  show ?thesis using flush_ok [OF ok, of p] ok by (auto simp: worker_step_def d Let_def)
qed

lemma run_total: "engine_ok e \<Longrightarrow> \<exists>e'. run p ts e = Some e'"
proof (induction ts arbitrary: e)
  case Nil
  then show ?case using final_drain_total [of e p 0] by auto
next
  case (Cons t ts)
  then show ?case using worker_step_total [of e p t] by auto
qed

lemma fold_split: "fold f (drop n xs) (fold f (take n xs) x) = fold f xs x"
  by (metis append_take_drop_id fold_append comp_apply)

lemma drain_nothing: "engine_ok e \<Longrightarrow> queued e = [] \<Longrightarrow> drain_up_to n e = (0, e)"
proof -
  assume e: "engine_ok e" "queued e = []"
  then have "try_dequeue (en_ring e) = (None, en_ring e)"
    by (simp add: engine_ok_def ringq.dequeue_none)
  then have "drain_into n (en_ring e) = ([], en_ring e)" by (cases n) simp_all
  then show ?thesis by (simp add: drain_up_to_def)
qed

lemma api_drain_empty: "engine_ok e \<Longrightarrow> queued e = [] \<Longrightarrow> api_drain e = Some e"
  by (subst api_drain.simps) (simp add: drain_nothing)

lemma api_drain_effect:
  "engine_ok e \<Longrightarrow> \<exists>e'. api_drain e = Some e' \<and> engine_ok e' \<and> queued e' = []
    \<and> en_cache e' = fold cache_apply (queued e) (en_cache e)
    \<and> en_lsn e' = fold (\<lambda>r. note_drained (wr_seq r)) (queued e) (en_lsn e)
    \<and> en_wal e' = en_wal e \<and> en_store e' = en_store e \<and> en_config e' = en_config e
    \<and> en_order e' = en_order e \<and> en_takes e' = en_takes e"
proof (induction "length (queued e)" arbitrary: e rule: less_induct)
  case less
  let ?n = "cfg_flush_max_batch (en_config e)"
  obtain k e1 where d: "drain_up_to ?n e = (k, e1)" by fastforce
  note dr = drain_up_to_effect [OF less.prems d]
  have n: "0 < ?n" using less.prems by (simp add: engine_ok_def)
  show ?case
  proof (cases "k < ?n")
    case True
    then have "length (queued e) \<le> ?n" using dr(1) by (simp add: min_def split: if_splits)
    then have "take ?n (queued e) = queued e" "drop ?n (queued e) = []" by simp_all
    moreover have "api_drain e = Some e1" using True by (subst api_drain.simps) (simp add: d)
    ultimately show ?thesis using dr by (auto simp del: length_contents)
  next
    case False
    then have k: "k = ?n" "?n \<le> length (queued e)" using dr(1) by (simp_all add: min_def split: if_splits)
    have step: "api_drain e = api_drain e1" using k n by (subst api_drain.simps) (simp add: d)
    have "length (queued e1) < length (queued e)" using dr(2) k n by (simp del: length_contents)
    from less.hyps [OF this dr(5)] obtain e' where e': "api_drain e1 = Some e'" "engine_ok e'" "queued e' = []"
      "en_cache e' = fold cache_apply (queued e1) (en_cache e1)"
      "en_lsn e' = fold (\<lambda>r. note_drained (wr_seq r)) (queued e1) (en_lsn e1)"
      "en_wal e' = en_wal e1" "en_store e' = en_store e1" "en_config e' = en_config e1"
      "en_order e' = en_order e1" "en_takes e' = en_takes e1" by blast
    show ?thesis using step e' dr by (simp add: fold_split)
  qed
qed

lemma flush_now_loop_rule:
  assumes "I e" and "queued e = []" and ok: "\<And>e. I e \<Longrightarrow> engine_ok e"
    and round: "\<And>e sts e1 r e2. I e \<Longrightarrow> take_batch e = (sts, e1) \<Longrightarrow> sts \<noteq> [] \<Longrightarrow>
      flush_states p sts e1 = (r, e2) \<Longrightarrow> I e2 \<and> Q e e2"
    and refl: "\<And>e sts e1. I e \<Longrightarrow> take_batch e = ([], e1) \<Longrightarrow> I e1 \<and> Q e e1" "\<And>e. Q e e"
    and trans: "\<And>a b c. Q a b \<Longrightarrow> Q b c \<Longrightarrow> Q a c"
  shows "\<exists>r e'. flush_now_loop p n e = Some (r, e') \<and> I e' \<and> Q e e' \<and> queued e' = []
    \<and> ((\<exists>m. r = Inr m) \<longrightarrow> dirty_set e' = {})"
  using assms(1,2)
proof (induction "dirty_len (en_cache e)" arbitrary: e n rule: less_induct)
  case less
  note ok_e = ok [OF less.prems(1)]
  obtain sts e1 where t: "take_batch e = (sts, e1)" by fastforce
  note tb = take_batch_ok [OF ok_e t]
  obtain r e2 where f: "flush_states p sts e1 = (r, e2)" by fastforce
  note fs = flush_states_ok [OF tb(1) f]
  have step: "flush_now_loop p n e =
      (if dirty_len (en_cache e) = 0 then Some (Inr n, e)
       else if sts = [] then Some (Inr n, e1)
       else case r of Inl err \<Rightarrow> Some (Inl err, e2) | Inr m \<Rightarrow> flush_now_loop p (n + m) e2)"
    by (subst flush_now_loop.simps) (simp add: api_drain_empty [OF ok_e less.prems(2)] t f split: sum.splits)
  have "finite (dirty_set e)" using ok_e by (simp add: engine_ok_def cache_inv_finite_dirty)
  then have len: "dirty_len (en_cache e) = 0 \<longleftrightarrow> dirty_set e = {}" by (simp add: dirty_len_def)
  show ?case
  proof (cases "dirty_set e = {}")
    case True
    then show ?thesis using less.prems refl(2) by (simp add: step len)
  next
    case False
    then have ne: "sts \<noteq> []" using tb(2) by simp
    have q: "queued e2 = []" using fs(2) less.prems(2) by (simp add: same_queue_def take_batch_frame [OF t])
    note I2 = round [OF less.prems(1) t ne f]
    show ?thesis
    proof (cases r)
      case (Inl err)
      then show ?thesis using False ne I2 q by (simp add: step len)
    next
      case (Inr m)
      have "dirty_len (en_cache e2) < dirty_len (en_cache e)" using fs(4) [OF Inr] tb(5) [OF ne] by simp
      from less.hyps [OF this conjunct1 [OF I2] q, of "n + m"] obtain x e' where
        "flush_now_loop p (n + m) e2 = Some (x, e')" "I e'" "Q e2 e'" "queued e' = []"
        "(\<exists>m. x = Inr m) \<longrightarrow> dirty_set e' = {}" by blast
      then show ?thesis using False ne Inr I2 trans by (auto simp: step len)
    qed
  qed
qed

section \<open>Nothing is lost in memory\<close>

text \<open>A state is accounted for when it is held, or still queued.\<close>

definition accounted :: "('d \<Rightarrow> table) \<Rightarrow> 'd engine \<Rightarrow> player_state \<Rightarrow> bool" where
  "accounted load e st \<longleftrightarrow> held load e st \<or> st \<in> to_state ` set (queued e)"

definition pipeline_ok :: "('d \<Rightarrow> table) \<Rightarrow> 'd engine \<Rightarrow> bool" where
  "pipeline_ok load e \<longleftrightarrow> engine_ok e \<and> backed (en_cache e) (load (en_store e))"

definition no_loss :: "('d \<Rightarrow> table) \<Rightarrow> 'd engine \<Rightarrow> 'd engine \<Rightarrow> bool" where
  "no_loss load e e' \<longleftrightarrow> (\<forall>st. accounted load e st \<longrightarrow> accounted load e' st)"

lemma no_loss_refl [simp]: "no_loss load e e"
  by (simp add: no_loss_def)

lemma no_loss_trans: "no_loss load a b \<Longrightarrow> no_loss load b c \<Longrightarrow> no_loss load a c"
  by (simp add: no_loss_def)

lemma pipeline_engine_ok: "pipeline_ok load e \<Longrightarrow> engine_ok e"
  by (simp add: pipeline_ok_def)

text \<open>Requests applied to the cache, in any number.\<close>

lemma kept_apply_all: "kept c m st \<Longrightarrow> kept (fold cache_apply rs c) m st"
  by (induction rs arbitrary: c) (auto intro: kept_apply)

lemma apply_all_kept:
  "backed c m \<Longrightarrow> cache_inv c \<Longrightarrow>
    backed (fold cache_apply rs c) m \<and> (\<forall>r \<in> set rs. kept (fold cache_apply rs c) m (to_state r))"
proof (induction rs arbitrary: c)
  case Nil
  then show ?case by simp
next
  case (Cons r rs)
  have "kept (cache_apply r c) m (to_state r)" using Cons.prems by (rule apply_kept)
  then have "kept (fold cache_apply rs (cache_apply r c)) m (to_state r)" by (rule kept_apply_all)
  moreover have "backed (cache_apply r c) m" "cache_inv (cache_apply r c)"
    using Cons.prems by (auto intro: backed_apply)
  ultimately show ?case using Cons.IH [of "cache_apply r c"] by simp
qed

lemma drained_no_loss:
  assumes "pipeline_ok load e" and "engine_ok e'"
    and "en_cache e' = fold cache_apply rs (en_cache e)" and "queued e = rs @ queued e'"
    and "en_store e' = en_store e"
  shows "pipeline_ok load e' \<and> no_loss load e e'"
proof -
  let ?m = "load (en_store e)"
  have b: "backed (en_cache e) ?m" "cache_inv (en_cache e)"
    using assms(1) by (simp_all add: pipeline_ok_def engine_ok_def)
  note all = apply_all_kept [OF b, of rs]
  have "accounted load e' st" if "accounted load e st" for st
  proof -
    from that assms(4) consider "kept (en_cache e) ?m st" | "st \<in> to_state ` set rs"
      | "st \<in> to_state ` set (queued e')" by (auto simp: accounted_def held_def)
    then show ?thesis
      using all kept_apply_all [of "en_cache e" ?m st rs]
      by cases (auto simp: accounted_def held_def assms(3,5))
  qed
  then show ?thesis using all assms by (simp add: pipeline_ok_def no_loss_def)
qed

lemma drain_no_loss:
  assumes "pipeline_ok load e" and "drain_up_to n e = (k, e')"
  shows "pipeline_ok load e' \<and> no_loss load e e'"
proof -
  note d = drain_up_to_effect [OF pipeline_engine_ok [OF assms(1)] assms(2)]
  show ?thesis
    by (rule drained_no_loss [OF assms(1) d(5,3) _ d(7)]) (simp add: d(2))
qed

lemma api_drain_no_loss:
  assumes "pipeline_ok load e" and "api_drain e = Some e'"
  shows "pipeline_ok load e' \<and> no_loss load e e'"
proof -
  from api_drain_effect [OF pipeline_engine_ok [OF assms(1)]] assms(2)
  have "engine_ok e'" "en_cache e' = fold cache_apply (queued e) (en_cache e)"
    "queued e = queued e @ queued e'" "en_store e' = en_store e" by auto
  then show ?thesis by (rule drained_no_loss [OF assms(1)])
qed

text \<open>Both flushes end in one of two ways: the store merged the batch, or it came back.\<close>

definition merged :: "('d \<Rightarrow> table) \<Rightarrow> player_state list \<Rightarrow> 'd engine \<Rightarrow> 'd engine \<Rightarrow> bool" where
  "merged load sts e e' \<longleftrightarrow> en_cache e' = en_cache e
     \<and> load (en_store e') = lww_all sts (load (en_store e))"

definition came_back :: "('d \<Rightarrow> table) \<Rightarrow> player_state list \<Rightarrow> 'd engine \<Rightarrow> 'd engine \<Rightarrow> bool" where
  "came_back load sts e e' \<longleftrightarrow> en_cache e' = requeue_dirty sts (en_cache e)
     \<and> load (en_store e') = load (en_store e)"

lemma round_no_loss:
  assumes "pipeline_ok load e" and "take_batch e = (sts, e1)" and "engine_ok e'" and "same_queue e1 e'"
    and "merged load sts e1 e' \<or> came_back load sts e1 e'"
  shows "pipeline_ok load e' \<and> no_loss load e e'"
proof -
  have inv: "cache_inv (en_cache e)" using assms(1) by (simp add: pipeline_ok_def engine_ok_def)
  note t = take_batch_takes(1) [OF assms(2)]
  note tf = take_batch_frame [OF assms(2)]
  have keep: "kept (en_cache e') (load (en_store e')) st" if "kept (en_cache e) (load (en_store e)) st" for st
    using assms(5) kept_persisted [OF inv t that] kept_requeued [OF inv t that, of "[]"]
    by (auto simp: merged_def came_back_def tf)
  have "live (en_cache e') = live (en_cache e)"
    using assms(5) live_requeued [OF inv t] take_dirty_spec(1) [OF inv t]
    by (auto simp: merged_def came_back_def)
  then have "backed (en_cache e') (load (en_store e'))"
    using assms(1) keep by (simp add: pipeline_ok_def backed_def)
  moreover have "queued e' = queued e" using assms(4) by (simp add: same_queue_def tf)
  ultimately show ?thesis
    using assms(3) keep by (auto simp: pipeline_ok_def no_loss_def accounted_def held_def)
qed

context store_trait
begin

lemma flush_batch_store:
  assumes "flush_batch persist sts e = (ok, e')"
  shows "if ok then merged load sts e e' else came_back load sts e e'"
  using assms
proof (cases rule: flush_batch_cases)
  case (log_failed err)
  then show ?thesis by (simp add: came_back_def)
next
  case (store_failed l e1 e2)
  then show ?thesis using persist_load [OF store_failed(5)] by (simp add: came_back_def)
next
  case (done_ l w e1 e2)
  then show ?thesis using persist_load [OF done_(5)] by (simp add: merged_def)
qed

lemma flush_states_store:
  assumes "flush_states persist sts e = (r, e')"
  shows "merged load sts e e' \<or> came_back load sts e e'"
    and "r = Inr n \<Longrightarrow> merged load sts e e'"
proof -
  show "merged load sts e e' \<or> came_back load sts e e'"
    using assms
  proof (cases rule: flush_states_cases)
    case (log_failed err)
    then show ?thesis by (simp add: came_back_def)
  next
    case (store_failed l err e1 e2)
    then show ?thesis using persist_load [OF store_failed(5)] by (simp add: came_back_def)
  next
    case (done_ l w e1 e2)
    then show ?thesis using persist_load [OF done_(5)] by (simp add: merged_def)
  qed
  show "merged load sts e e'" if "r = Inr n"
    using assms
  proof (cases rule: flush_states_cases)
    case (done_ l w e1 e2)
    then show ?thesis using persist_load [OF done_(5)] by (simp add: merged_def)
  qed (use that in simp_all)
qed

lemma flush_no_loss:
  assumes "pipeline_ok load e" and "flush persist e = Some e'"
  shows "pipeline_ok load e' \<and> no_loss load e e'"
proof -
  have "\<exists>e'. flush persist e = Some e' \<and> (pipeline_ok load e \<longrightarrow> pipeline_ok load e' \<and> no_loss load e e')"
    using pipeline_engine_ok [OF assms(1)]
  proof (induction rule: flush_induct)
    case (clean e e1)
    have "merged load [] e1 e1" by (simp add: merged_def)
    then show ?case using round_no_loss [OF _ clean(2) take_batch_ok(1) [OF clean]] by simp
  next
    case (failed e sts e1 e2)
    note b = flush_batch_ok [OF take_batch_ok(1) [OF failed(1,2)] failed(4)]
    show ?case
      using round_no_loss [OF _ failed(2) b(1,2)] flush_batch_store [OF failed(4)] by simp
  next
    case (persisted e sts e1 e2 e3)
    note b = flush_batch_ok [OF take_batch_ok(1) [OF persisted(1,2)] persisted(4)]
    show ?case
      using round_no_loss [OF _ persisted(2) b(1,2)] flush_batch_store [OF persisted(4)] persisted(7)
        no_loss_trans by fastforce
  qed
  then show ?thesis using assms by simp
qed

lemma final_drain_no_loss:
  assumes "pipeline_ok load e"
  shows "\<exists>e'. final_drain persist stalled e = Some e' \<and> pipeline_ok load e' \<and> no_loss load e e'"
proof -
  have "drain_ring_into_cache e = (k, e1) \<Longrightarrow> pipeline_ok load e \<Longrightarrow> pipeline_ok load e1 \<and> no_loss load e e1"
    for e k e1 using drain_no_loss by (simp add: drain_ring_is)
  with final_drain_rule [where I = "pipeline_ok load" and Q = "no_loss load", OF assms, of persist stalled]
    flush_no_loss no_loss_trans pipeline_engine_ok
  show ?thesis by blast
qed

lemma worker_step_no_loss:
  assumes "pipeline_ok load e" and "worker_step persist t e = Some e'"
  shows "pipeline_ok load e' \<and> no_loss load e e'"
proof -
  obtain k e1 where d: "drain_ring_into_cache e = (k, e1)" by fastforce
  have 1: "pipeline_ok load e1 \<and> no_loss load e e1"
    using drain_no_loss [OF assms(1)] d by (simp add: drain_ring_is)
  have "e' = e1 \<or> flush persist e1 = Some e'"
    using assms(2) by (auto simp: worker_step_def d Let_def split: if_splits)
  then show ?thesis using 1 flush_no_loss no_loss_trans by blast
qed

lemma run_no_loss:
  "pipeline_ok load e \<Longrightarrow> run persist ts e = Some e' \<Longrightarrow> pipeline_ok load e' \<and> no_loss load e e'"
proof (induction ts arbitrary: e)
  case Nil
  then show ?case using final_drain_no_loss [OF Nil.prems(1), of 0] by auto
next
  case (Cons t ts)
  then obtain e1 where e1: "worker_step persist t e = Some e1" "run persist ts e1 = Some e'"
    by (auto split: Option.bind_splits)
  note s = worker_step_no_loss [OF Cons.prems(1) e1(1)]
  show ?case using Cons.IH [OF _ e1(2)] s no_loss_trans by blast
qed

lemma flush_now_no_loss:
  assumes "pipeline_ok load e"
  shows "\<exists>r e'. flush_now persist e = Some (r, e') \<and> pipeline_ok load e' \<and> no_loss load e e'
    \<and> queued e' = [] \<and> ((\<exists>m. r = Inr m) \<longrightarrow> dirty_set e' = {})"
proof -
  obtain e1 where e1: "api_drain e = Some e1" "queued e1 = []"
    using api_drain_effect [OF pipeline_engine_ok [OF assms]] by blast
  note a = api_drain_no_loss [OF assms e1(1)]
  have round: "pipeline_ok load e2 \<and> no_loss load e e2"
    if "pipeline_ok load e" "take_batch e = (sts, e1)" "sts \<noteq> []" "flush_states persist sts e1 = (r, e2)"
    for e sts e1 r e2
  proof -
    note f = flush_states_ok [OF take_batch_ok(1) [OF pipeline_engine_ok [OF that(1)] that(2)] that(4)]
    show ?thesis by (rule round_no_loss [OF that(1,2) f(1,2) flush_states_store(1) [OF that(4)]])
  qed
  have idle: "pipeline_ok load e1 \<and> no_loss load e e1"
    if "pipeline_ok load e" "take_batch e = ([], e1)" for e e1
  proof -
    have "merged load [] e1 e1" by (simp add: merged_def)
    then show ?thesis
      using round_no_loss [OF that take_batch_ok(1) [OF pipeline_engine_ok [OF that(1)] that(2)]] by simp
  qed
  have "\<exists>r e'. flush_now_loop persist 0 e1 = Some (r, e') \<and> pipeline_ok load e' \<and> no_loss load e1 e'
      \<and> queued e' = [] \<and> ((\<exists>m. r = Inr m) \<longrightarrow> dirty_set e' = {})"
    by (rule flush_now_loop_rule [where I = "pipeline_ok load" and Q = "no_loss load",
          OF conjunct1 [OF a] e1(2) pipeline_engine_ok round idle no_loss_refl no_loss_trans])
  then show ?thesis using a e1(1) no_loss_trans by (auto simp: flush_now_def)
qed

end

end
