(* ===== verification/Recovery.thy ===== *)
theory Recovery
  imports Lossless
begin

text \<open>
  The engine's entry points.  \<open>start\<close> replays the log into a cache of dirty entries and
  seeds the allocator above every recovered number; \<open>submit\<close> touches the ring and the
  allocator only; \<open>submit_durable\<close> logs first.  With a log whose calls succeed and a store
  that is up, a flush empties the dirty set.
\<close>

section \<open>Start\<close>

definition state_of :: "wal_record \<Rightarrow> player_state" where
  "state_of r = \<lparr>ps_id = wal_id r, ps_version = wal_version r, ps_blob = wal_blob r\<rparr>"

lemma state_of_sel [simp]:
  "ps_id (state_of r) = wal_id r" "ps_version (state_of r) = wal_version r" "ps_blob (state_of r) = wal_blob r"
  by (simp_all add: state_of_def)

lemma to_state_replay [simp]: "to_state (replay_request i r) = state_of r"
  by (simp add: to_state_def replay_request_def state_of_def)

lemma map_state_stamp: "map state_of (stamp l sts) = sts"
proof -
  have "map state_of (stamp l sts) = map snd (enumerate 0 sts)"
    unfolding stamp_def map_map by (rule map_cong) (auto simp: state_of_def)
  then show ?thesis by simp
qed

definition replayed :: "nat \<Rightarrow> wal_record list \<Rightarrow> cache \<Rightarrow> cache" where
  "replayed i rs c = fold (\<lambda>(i, r). cache_apply (replay_request i r)) (enumerate i rs) c"

lemma replayed_requests:
  "\<exists>qs. map to_state qs = map state_of rs \<and> replayed i rs c = fold cache_apply qs c"
proof (induction rs arbitrary: i c)
  case Nil
  then show ?case by (simp add: replayed_def)
next
  case (Cons r rs)
  obtain qs where "map to_state qs = map state_of rs"
    "replayed (Suc i) rs (cache_apply (replay_request i r) c) = fold cache_apply qs (cache_apply (replay_request i r) c)"
    using Cons by blast
  then show ?case by (intro exI [of _ "replay_request i r # qs"]) (simp add: replayed_def)
qed

text \<open>A cache all of whose entries are dirty stays such when requests are applied.\<close>

lemma all_dirty_apply: "c_dirty c = dom (live c) \<Longrightarrow> c_dirty (cache_apply r c) = dom (live (cache_apply r c))"
  by (auto simp: dirty_apply live_apply simp flip: dom_live)

lemma all_dirty_apply_all: "c_dirty c = dom (live c) \<Longrightarrow> c_dirty (fold cache_apply rs c) = dom (live (fold cache_apply rs c))"
  by (induction rs arbitrary: c) (simp_all add: all_dirty_apply del: dom_live)

lemma replayed_cache:
  shows "cache_inv (replayed 0 rs cache_new)" and "live (replayed 0 rs cache_new) = lww_all (map state_of rs) Map.empty"
    and "c_dirty (replayed 0 rs cache_new) = wal_id ` set rs"
proof -
  obtain qs where qs: "map to_state qs = map state_of rs" "replayed 0 rs cache_new = fold cache_apply qs cache_new"
    using replayed_requests by blast
  show "cache_inv (replayed 0 rs cache_new)" using wb.apply_all_inv [of cache_new qs] by (simp add: qs(2))
  show l: "live (replayed 0 rs cache_new) = lww_all (map state_of rs) Map.empty"
    using wb.apply_all_view [of cache_new qs] by (simp add: qs)
  have "c_dirty (replayed 0 rs cache_new) = dom (live (replayed 0 rs cache_new))"
    unfolding qs(2) by (rule all_dirty_apply_all) (simp del: dom_live)
  then show "c_dirty (replayed 0 rs cache_new) = wal_id ` set rs"
    by (simp add: l image_image del: dom_live)
qed

definition highest :: "wal_record list \<Rightarrow> lsn" where
  "highest rs = fold (\<lambda>r h. max h (wal_lsn r)) rs 0"

lemma fold_max_le: "h \<le> fold (\<lambda>r h. max h (wal_lsn r)) rs h \<and> (\<forall>r \<in> set rs. wal_lsn r \<le> fold (\<lambda>r h. max h (wal_lsn r)) rs h)"
proof (induction rs arbitrary: h)
  case Nil
  then show ?case by simp
next
  case (Cons r rs)
  have "max h (wal_lsn r) \<le> fold (\<lambda>r h. max h (wal_lsn r)) rs (max h (wal_lsn r))" using Cons by blast
  then show ?case using Cons [of "max h (wal_lsn r)"] by auto
qed

lemma highest_le: "r \<in> set rs \<Longrightarrow> wal_lsn r \<le> highest rs"
  using fold_max_le [of 0 rs] by (simp add: highest_def)

lemma highest_in: "rs \<noteq> [] \<Longrightarrow> \<exists>r \<in> set rs. highest rs = wal_lsn r"
proof -
  have "fold (\<lambda>r h. max h (wal_lsn r)) rs h = h \<or> (\<exists>r \<in> set rs. fold (\<lambda>r h. max h (wal_lsn r)) rs h = wal_lsn r)" for h
  proof (induction rs arbitrary: h)
    case (Cons r rs)
    then show ?case using Cons [of "max h (wal_lsn r)"] by (auto simp: max_def split: if_splits)
  qed simp
  moreover assume "rs \<noteq> []"
  moreover from this have "highest rs = 0 \<Longrightarrow> wal_lsn (hd rs) = 0" using highest_le [of "hd rs" rs] by simp
  ultimately show ?thesis unfolding highest_def by (metis hd_in_set)
qed

lemma saturating_succ_above: "x \<noteq> - 1 \<Longrightarrow> y \<le> x \<Longrightarrow> y < saturating_succ x"
proof -
  assume "x \<noteq> - 1" "y \<le> x"
  then have "x + 1 \<noteq> 0" by (metis add.inverse_inverse add_eq_0_iff2 minus_equation_iff)
  then show ?thesis
    using word_le_minus_one [of "x + 1" y] \<open>y \<le> x\<close> \<open>x \<noteq> - 1\<close> by (simp add: saturating_succ_def)
qed

lemma start_elim:
  assumes "start config store order clock disk = (Inr e, w)"
  obtains w1 rs where "validate config = Inr ()" "wal_open (cfg_wal_fsync config) disk = (Inr (), w1)"
    "recover w1 = (Inr rs, w)"
    "e = \<lparr>en_ring = ring_new (cfg_ring_capacity config), en_cache = replayed 0 rs cache_new, en_wal = w,
          en_store = store, en_metrics = metrics_new, en_lsn = lsn_new (saturating_succ (highest rs)),
          en_config = config, en_order = order, en_takes = 0, en_clock = clock\<rparr>"
  using assms
  by (auto simp: start_def replayed_def highest_def Let_def split: sum.splits prod.splits)

lemma start_intro:
  assumes "validate config = Inr ()" and "wal_open (cfg_wal_fsync config) disk = (Inr (), w1)"
    and "recover w1 = (Inr rs, w)"
  shows "\<exists>e. start config store order clock disk = (Inr e, w)"
  using assms by (simp add: start_def Let_def)

lemma validate_unit: "validate c = Inr u \<Longrightarrow> validate c = Inr ()"
  by simp

lemma backed_all_dirty: "c_dirty c = dom (live c) \<Longrightarrow> keyed (live c) \<Longrightarrow> backed c m"
  unfolding backed_def kept_def keyed_def covers_def by (metis domI order_refl)

lemma start_pipeline_ok:
  assumes "start config store order clock disk = (Inr e, w)"
    and "2 \<le> cfg_ring_capacity config" and "cfg_ring_capacity config \<le> 2 ^ 62"
  shows "pipeline_ok load e" and "queued e = []"
proof -
  obtain w1 rs where s: "validate config = Inr ()" "e = \<lparr>en_ring = ring_new (cfg_ring_capacity config),
          en_cache = replayed 0 rs cache_new, en_wal = w,
          en_store = store, en_metrics = metrics_new, en_lsn = lsn_new (saturating_succ (highest rs)),
          en_config = config, en_order = order, en_takes = 0, en_clock = clock\<rparr>"
    using assms(1) by (elim start_elim)
  have "c_dirty (replayed 0 rs cache_new) = dom (live (replayed 0 rs cache_new))"
    unfolding replayed_cache by (simp add: image_image)
  then have "backed (replayed 0 rs cache_new) m" for m
    using replayed_cache(1) cache_inv_keyed backed_all_dirty by blast
  then show "pipeline_ok load e" "queued e = []"
    using s replayed_cache(1) ring_new_inv [OF assms(2,3)]
    by (simp_all add: pipeline_ok_def engine_ok_def validate_ok)
qed

section \<open>Submit\<close>

definition the_request :: "player_id \<Rightarrow> u64 \<Rightarrow> u8 list \<Rightarrow> 'd engine \<Rightarrow> write_request" where
  "the_request i v b e = \<lparr>wr_id = i, wr_version = v, wr_blob = b, wr_seq = next_lsn (en_lsn e)\<rparr>"

lemma to_state_the_request [simp]:
  "to_state (the_request i v b e) = \<lparr>ps_id = i, ps_version = v, ps_blob = b\<rparr>"
  by (simp add: the_request_def to_state_def)

lemma submit_effect:
  assumes "submit i v b e = (out, e')"
  shows "en_cache e' = en_cache e" "en_wal e' = en_wal e" "en_store e' = en_store e"
    "en_config e' = en_config e" "en_order e' = en_order e" "en_takes e' = en_takes e"
    "en_lsn e' = snd (alloc (en_lsn e))"
    "en_ring e' = snd (try_enqueue (the_request i v b e) (en_ring e))"
    "out = Enqueued \<longleftrightarrow> fst (try_enqueue (the_request i v b e) (en_ring e)) = Inr ()"
  using assms
  by (auto simp: submit_def alloc_def the_request_def Let_def case_prod_beta split: sum.splits prod.splits)

lemma submit_ring:
  assumes "ring_inv (en_ring e)" and "submit i v b e = (out, e')"
  shows "out = Enqueued \<longleftrightarrow> length (queued e) < ring_capacity (en_ring e)"
    and "queued e' = (if out = Enqueued then queued e @ [the_request i v b e] else queued e)"
    and "ring_inv (en_ring e')" and "out = Dropped \<Longrightarrow> en_ring e' = en_ring e"
proof -
  let ?r = "the_request i v b e"
  note s = submit_effect [OF assms(2)]
  note c = ringq.enqueue_contents [OF assms(1), of ?r] ringq.enqueue_result [OF assms(1), of ?r]
  show out: "out = Enqueued \<longleftrightarrow> length (queued e) < ring_capacity (en_ring e)" using s(9) c(2) by simp
  show "queued e' = (if out = Enqueued then queued e @ [?r] else queued e)"
    unfolding out s(8) by (rule c(1))
  show "ring_inv (en_ring e')" unfolding s(8) by (rule ringq.inv_enqueue [OF assms(1)])
  assume "out = Dropped"
  then have "\<not> length (queued e) < ring_capacity (en_ring e)" using out by auto
  then have "length (queued e) = ring_capacity (en_ring e)" using ringq.bounded [OF assms(1)] by simp
  then show "en_ring e' = en_ring e" using ringq.enqueue_full [OF assms(1)] s(8) by simp
qed

lemma enqueue_pipeline_ok:
  assumes "pipeline_ok load e" and "en_cache e' = en_cache e" and "en_store e' = en_store e"
    and "en_config e' = en_config e" and "ring_inv (en_ring e')" and "lsn_inv (en_lsn e')"
    and "set (queued e) \<subseteq> set (queued e')"
  shows "pipeline_ok load e' \<and> no_loss load e e'"
  using assms by (auto simp: pipeline_ok_def engine_ok_def no_loss_def accounted_def held_def)

lemma submit_no_loss:
  assumes "pipeline_ok load e" and "submit i v b e = (out, e')"
  shows "pipeline_ok load e' \<and> no_loss load e e'"
    and "out = Enqueued \<Longrightarrow> accounted load e' \<lparr>ps_id = i, ps_version = v, ps_blob = b\<rparr>"
proof -
  have inv: "ring_inv (en_ring e)" "lsn_inv (en_lsn e)"
    using assms(1) by (simp_all add: pipeline_ok_def engine_ok_def)
  note r = submit_ring [OF inv(1) assms(2)]
  note s = submit_effect [OF assms(2)]
  show "pipeline_ok load e' \<and> no_loss load e e'"
    using inv(2) s r(2,3) by (intro enqueue_pipeline_ok [OF assms(1)]) auto
  show "accounted load e' \<lparr>ps_id = i, ps_version = v, ps_blob = b\<rparr>" if "out = Enqueued"
    using r(2) that by (auto simp: accounted_def)
qed

section \<open>Durable submit\<close>

definition durable_record :: "player_id \<Rightarrow> u64 \<Rightarrow> u8 list \<Rightarrow> 'd engine \<Rightarrow> wal_record" where
  "durable_record i v b e = \<lparr>wal_lsn = next_lsn (en_lsn e), wal_id = i, wal_version = v, wal_blob = b\<rparr>"

lemma submit_durable_effect:
  assumes "submit_durable i v b e = (r, e')"
  shows "append_batch [durable_record i v b e] (en_wal e) =
      ((case r of Inl err \<Rightarrow> Inl err | Inr u \<Rightarrow> fst (append_batch [durable_record i v b e] (en_wal e))), en_wal e')"
    "r = Inr u \<Longrightarrow> \<exists>l. append_batch [durable_record i v b e] (en_wal e) = (Inr l, en_wal e')"
    "en_cache e' = en_cache e" "en_store e' = en_store e" "en_config e' = en_config e"
    "en_order e' = en_order e" "en_takes e' = en_takes e" "next_lsn (en_lsn e') = next_lsn (en_lsn e) + 1"
    "pending_lsns (en_lsn e') = (case r of Inl err \<Rightarrow> pending_lsns (en_lsn e) - {next_lsn (en_lsn e)}
       | Inr u \<Rightarrow> insert (next_lsn (en_lsn e)) (pending_lsns (en_lsn e)))"
    "en_ring e' = (case r of Inl err \<Rightarrow> en_ring e | Inr u \<Rightarrow> snd (try_enqueue (the_request i v b e) (en_ring e)))"
proof -
  obtain x w where a: "append_batch [durable_record i v b e] (en_wal e) = (x, w)" by fastforce
  obtain y m where m: "try_enqueue (the_request i v b e) (en_ring e) = (y, m)" by fastforce
  have "append_batch [durable_record i v b e] (en_wal e) =
      ((case r of Inl err \<Rightarrow> Inl err | Inr u \<Rightarrow> fst (append_batch [durable_record i v b e] (en_wal e))), en_wal e')
    \<and> (r = Inr u \<longrightarrow> (\<exists>l. append_batch [durable_record i v b e] (en_wal e) = (Inr l, en_wal e')))
    \<and> en_cache e' = en_cache e \<and> en_store e' = en_store e \<and> en_config e' = en_config e
    \<and> en_order e' = en_order e \<and> en_takes e' = en_takes e \<and> next_lsn (en_lsn e') = next_lsn (en_lsn e) + 1
    \<and> pending_lsns (en_lsn e') = (case r of Inl err \<Rightarrow> pending_lsns (en_lsn e) - {next_lsn (en_lsn e)}
       | Inr u \<Rightarrow> insert (next_lsn (en_lsn e)) (pending_lsns (en_lsn e)))
    \<and> en_ring e' = (case r of Inl err \<Rightarrow> en_ring e | Inr u \<Rightarrow> snd (try_enqueue (the_request i v b e) (en_ring e)))"
    using assms a m
    by (cases x) (auto simp: submit_durable_def alloc_def durable_record_def the_request_def Let_def
        note_pending_def note_drained_def)
  then show "append_batch [durable_record i v b e] (en_wal e) =
      ((case r of Inl err \<Rightarrow> Inl err | Inr u \<Rightarrow> fst (append_batch [durable_record i v b e] (en_wal e))), en_wal e')"
    "r = Inr u \<Longrightarrow> \<exists>l. append_batch [durable_record i v b e] (en_wal e) = (Inr l, en_wal e')"
    "en_cache e' = en_cache e" "en_store e' = en_store e" "en_config e' = en_config e"
    "en_order e' = en_order e" "en_takes e' = en_takes e" "next_lsn (en_lsn e') = next_lsn (en_lsn e) + 1"
    "pending_lsns (en_lsn e') = (case r of Inl err \<Rightarrow> pending_lsns (en_lsn e) - {next_lsn (en_lsn e)}
       | Inr u \<Rightarrow> insert (next_lsn (en_lsn e)) (pending_lsns (en_lsn e)))"
    "en_ring e' = (case r of Inl err \<Rightarrow> en_ring e | Inr u \<Rightarrow> snd (try_enqueue (the_request i v b e) (en_ring e)))"
    by blast+
qed

lemma submit_durable_no_loss:
  assumes "pipeline_ok load e" and "submit_durable i v b e = (r, e')"
  shows "pipeline_ok load e' \<and> no_loss load e e'"
proof -
  have inv: "ring_inv (en_ring e)" "lsn_inv (en_lsn e)"
    using assms(1) by (simp_all add: pipeline_ok_def engine_ok_def)
  note s = submit_durable_effect [OF assms(2)]
  have "lsn_inv (en_lsn e')" using inv(2) s(9) by (auto simp: lsn_inv_def split: sum.splits)
  moreover have "ring_inv (en_ring e')"
    using s(10) inv(1) ringq.inv_enqueue [OF inv(1)] by (auto split: sum.splits)
  moreover have "set (queued e) \<subseteq> set (queued e')"
    using s(10) ringq.enqueue_contents [OF inv(1)] by (auto split: sum.splits)
  ultimately show ?thesis using s by (intro enqueue_pipeline_ok [OF assms(1)]) auto
qed

section \<open>A log whose calls succeed\<close>

text \<open>Total correctness of a method on a disk none of whose calls fails.\<close>

definition goes :: "(wal \<Rightarrow> bool) \<Rightarrow> 'a io \<Rightarrow> (wal \<Rightarrow> bool) \<Rightarrow> bool" where
  "goes P m Q \<longleftrightarrow> (\<forall>w. P w \<longrightarrow> (\<exists>x w'. m w = (Inr x, w') \<and> Q w'))"

definition works :: "wal \<Rightarrow> bool" where
  "works w \<longleftrightarrow> fs_events w = [] \<and> fs_active w \<noteq> None"

definition works_temp :: "wal \<Rightarrow> bool" where
  "works_temp w \<longleftrightarrow> works w \<and> fs_temp w \<noteq> None"

lemma goes_try: "goes P m Q \<Longrightarrow> (\<And>x. goes Q (k x) R) \<Longrightarrow> goes P (try_io m k) R"
  unfolding goes_def try_io_def by fastforce

lemma goes_pure: "(\<And>w. P w \<Longrightarrow> Q (f w)) \<Longrightarrow> goes P (\<lambda>w. (Inr (g w), f w)) Q"
  by (simp add: goes_def)

lemma goes_weaken: "goes P m Q \<Longrightarrow> (\<And>w. Q w \<Longrightarrow> R w) \<Longrightarrow> goes P m R"
  unfolding goes_def by blast

lemma goes_call: "(\<And>w. P w \<Longrightarrow> fs_events w = []) \<Longrightarrow> goes P sys_call P"
  by (simp add: goes_def)

lemma put_bytes_temp [simp]: "fs_temp (put_bytes n pos bs w) = fs_temp w"
  by (simp add: put_bytes_def)

lemma goes_write: "works_temp w \<Longrightarrow> bs \<noteq> [] \<Longrightarrow>
    \<exists>p w'. file_write_all n pos bs w = (Inr (), p, w') \<and> works_temp w'"
  by (simp add: file_write_all_quiet works_temp_def works_def)

lemma goes_survivors: "goes works_temp (write_survivors n rs offset) works_temp"
proof (induction rs arbitrary: offset)
  case Nil
  then show ?case by (simp add: goes_def)
next
  case (Cons r rs)
  show ?case
    unfolding goes_def
  proof (intro allI impI)
    fix w assume "works_temp w"
    moreover have "encode r \<noteq> []" by simp
    ultimately obtain p w1 where "file_write_all n offset (encode r) w = (Inr (), p, w1)" "works_temp w1"
      using goes_write by blast
    then show "\<exists>x w'. write_survivors n (r # rs) offset w = (Inr x, w') \<and> works_temp w'"
      using Cons.IH [of "offset + length (encode r)"] by (simp add: goes_def)
  qed
qed

lemma goes_sync: "(\<And>w. P w \<Longrightarrow> fs_events w = []) \<Longrightarrow> (\<And>f w. P w \<Longrightarrow> P (upd_inode n f w)) \<Longrightarrow>
    goes P (sync_data n) P"
  by (simp add: goes_def)

lemma goes_open: "goes works open_active works"
  unfolding open_active_def
  by (rule goes_try [OF goes_call]) (auto simp: goes_def works_def split: option.splits)

lemma goes_flush: "goes works bw_flush works"
  unfolding goes_def works_def using bw_flush_quiet by metis

lemma goes_read: "goes works read_all works"
  unfolding read_all_def
  by (rule goes_try [OF goes_open], rule goes_try [OF goes_call], simp add: works_def, rule goes_pure) simp

lemma goes_temp: "goes works (write_temp ss) works_temp"
proof -
  have create: "goes works create_temp works_temp"
    unfolding create_temp_def
    by (rule goes_try [OF goes_call]) (auto simp: goes_def works_def works_temp_def Let_def split: option.splits)
  have header: "goes works_temp (write_header n) works_temp" for n
    unfolding goes_def
  proof (intro allI impI)
    fix w assume "works_temp w"
    moreover have "HEADER_MAGIC \<noteq> []" by (simp add: HEADER_MAGIC_def)
    ultimately show "\<exists>x w'. write_header n w = (Inr x, w') \<and> works_temp w'"
      using goes_write [of w HEADER_MAGIC n 0] by (auto simp: write_header_def)
  qed
  have sync: "goes works_temp (sync_data n) works_temp" for n
    by (rule goes_sync) (simp_all add: works_temp_def works_def)
  show ?thesis unfolding write_temp_def
    by (intro goes_try [OF create] goes_try [OF header] goes_try [OF goes_survivors] goes_try [OF sync] goes_pure)
qed

lemma goes_rename: "goes works_temp rename_temp works"
  unfolding rename_temp_def
  by (rule goes_try [OF goes_call]) (auto simp: goes_def works_def works_temp_def)

text \<open>The directory on disk names the active segment.\<close>

definition works_named :: "wal \<Rightarrow> bool" where
  "works_named w \<longleftrightarrow> works w \<and> fs_after_crash w = [fs_active w]"

lemma goes_sync_dir: "goes works sync_dir works_named"
  by (simp add: goes_def sync_dir_def benign_def works_def works_named_def)

lemma goes_open_named: "goes works_named open_active works_named"
  unfolding open_active_def
  by (rule goes_try [OF goes_call])
     (auto simp: goes_def works_def works_named_def split: option.splits)

lemma goes_checkpoint: "goes works (checkpoint u) works_named"
  unfolding checkpoint_def Let_def
  by (rule goes_try [OF goes_flush], rule goes_try [OF goes_read], rule goes_try [OF goes_temp],
      rule goes_try [OF goes_rename], rule goes_try [OF goes_sync_dir], rule goes_try [OF goes_open_named],
      rule goes_try [OF goes_call], simp add: works_def works_named_def, rule goes_pure)
     (simp add: works_def works_named_def)

lemma checkpoint_works:
  "works w \<Longrightarrow> \<exists>w'. checkpoint u w = (Inr (), w') \<and> works w' \<and> fs_after_crash w' = [fs_active w']"
  using goes_checkpoint [of u] unfolding goes_def works_named_def by (metis (full_types) old.unit.exhaust)

lemma checkpoint_settles:
  assumes "wal_holds rs w" and "works w" and "checkpoint u w = (Inr x, w')"
  shows "settled (length (survivors_of u rs)) (survivors_of u rs) w'" and "works w'"
proof -
  note c = checkpoint_holds [OF assms(1,3)]
  have n: "works w'" "fs_after_crash w' = [fs_active w']"
    using checkpoint_works [OF assms(2), of u] assms(3) by auto
  then show "works w'" by blast
  have h: "wal_holds (survivors_of u rs) w'" using c(1) by (simp add: survivors_of_def)
  then have "fs_active w' = Some (wr_file w')" using wal_holds_opened by (auto simp: opened_def)
  then show "settled (length (survivors_of u rs)) (survivors_of u rs) w'"
    using h n c(4) by (simp add: settled_def)
qed

lemma settled_can_crash:
  assumes "settled m rs w"
  shows "can_crash w (Some (wr_file w)) (length (data_of w (wr_file w)))"
  using assms by (auto simp: settled_def can_crash_def wal_holds_def writer_ok_def)

lemma goes_frames: "goes works (write_frames rs n h) works"
proof (induction rs arbitrary: n h)
  case Nil
  then show ?case by (simp add: goes_def)
next
  case (Cons r rs)
  have "encode r \<noteq> []" by simp
  then have "goes works (bw_write_all (encode r)) works"
    unfolding goes_def works_def using bw_write_all_quiet by metis
  moreover have "write_frames (r # rs) n h = try_io (bw_write_all (encode r)) (\<lambda>_.
      write_frames rs (n + length (encode r)) (if h < wal_lsn r then wal_lsn r else h))"
    by (rule ext) simp
  ultimately show ?case using goes_try [OF _ Cons.IH] by (simp only:)
qed

lemma append_works: "works w \<Longrightarrow> \<exists>l w'. append_batch recs w = (Inr l, w') \<and> works w'"
proof -
  have sync: "goes works (\<lambda>w. if wal_fsync w then sync_data (wr_file w) w else (Inr (), w)) works"
    by (simp add: goes_def works_def)
  have "goes works (try_io (write_frames recs 0 h) (\<lambda>(bytes_written, high_lsn).
          try_io bw_flush (\<lambda>_.
            try_io (\<lambda>w. if wal_fsync w then sync_data (wr_file w) w else (Inr (), w)) (\<lambda>_ w.
              (Inr high_lsn, w\<lparr>write_offset := write_offset w + bytes_written,
                               last_lsn := high_lsn\<rparr>))))) works" for h
    by (rule goes_try [OF goes_frames], simp add: case_prod_beta,
        rule goes_try [OF goes_flush], rule goes_try [OF sync], rule goes_pure) (simp add: works_def)
  moreover assume "works w"
  ultimately show ?thesis unfolding goes_def append_batch_def by auto
qed

lemma wal_flush_works: "works w \<Longrightarrow> \<exists>w'. wal_flush w = (Inr (), w') \<and> works w'"
proof -
  have "goes works (\<lambda>w. sync_data (wr_file w) w) works" by (simp add: goes_def works_def)
  then have "goes works wal_flush works"
    unfolding wal_flush_def
    by (intro goes_try [OF goes_flush] goes_try [of works "\<lambda>w. sync_data (wr_file w) w"] goes_pure)
  moreover assume "works w"
  ultimately show ?thesis unfolding goes_def by (metis (full_types) old.unit.exhaust)
qed

section \<open>A store that is up\<close>

definition always_up :: "'d persist \<Rightarrow> ('d \<Rightarrow> bool) \<Rightarrow> bool" where
  "always_up p up \<longleftrightarrow> (\<forall>sts d. up d \<longrightarrow> (\<exists>d'. p sts d = (Inr (), d') \<and> up d'))"

definition all_well :: "('d \<Rightarrow> bool) \<Rightarrow> 'd engine \<Rightarrow> bool" where
  "all_well up e \<longleftrightarrow> engine_ok e \<and> up (en_store e) \<and> works (en_wal e)"

lemma persist_up:
  assumes "always_up p up" and "up (en_store e)" and "persist_with_retry p sts e = (r, e')"
  shows "r = Persisted" and "up (en_store e')"
proof -
  obtain d where "p sts (en_store e) = (Inr (), d)" "up d" using assms(1,2) by (auto simp: always_up_def)
  then show "r = Persisted" "up (en_store e')"
    using assms(3) by (auto simp: persist_with_retry_def persist_loop_eq [of p sts 0])
qed

lemma flush_batch_up:
  assumes "always_up p up" and "all_well up e" and "flush_batch p sts e = (ok, e')"
  shows "ok" and "all_well up e'"
proof -
  have w: "up (en_store e)" "works (en_wal e)" "engine_ok e" using assms(2) by (simp_all add: all_well_def)
  obtain l w1 where a: "append_batch (batch_records sts e) (en_wal e) = (Inr l, w1)" "works w1"
    using append_works [OF w(2)] by blast
  have "ok \<and> up (en_store e') \<and> works (en_wal e')"
    using assms(3)
  proof (cases rule: flush_batch_cases)
    case (log_failed err)
    then show ?thesis using a by simp
  next
    case (store_failed l e1 e2)
    then show ?thesis using persist_up(1) [OF assms(1) _ store_failed(5)] w(1) by simp
  next
    case (done_ l w2 e1 e2)
    have "works (snd (checkpoint u w1))" for u using checkpoint_works [OF a(2), of u] by auto
    then show ?thesis
      using done_ a persist_up(2) [OF assms(1) _ done_(5)] w(1) by (simp split: option.splits)
  qed
  then show "ok" "all_well up e'" using flush_batch_ok(1) [OF w(3) assms(3)] by (simp_all add: all_well_def)
qed

lemma flush_up:
  assumes "always_up p up" and "all_well up e"
  shows "\<exists>e'. flush p e = Some e' \<and> all_well up e' \<and> dirty_set e' = {}"
proof -
  have "engine_ok e" using assms(2) by (simp add: all_well_def)
  then have "\<exists>e'. flush p e = Some e' \<and> (all_well up e \<longrightarrow> all_well up e' \<and> dirty_set e' = {})"
  proof (induction rule: flush_induct)
    case (clean e e1)
    then show ?case
      using take_batch_ok [OF clean] take_batch_frame [OF clean(2)] by (simp add: all_well_def)
  next
    case (failed e sts e1 e2)
    have "all_well up e \<Longrightarrow> all_well up e1"
      using take_batch_ok(1) [OF failed(1,2)] take_batch_frame [OF failed(2)] by (simp add: all_well_def)
    then show ?case using flush_batch_up(1) [OF assms(1) _ failed(4)] by blast
  next
    case (persisted e sts e1 e2 e3)
    have "all_well up e \<Longrightarrow> all_well up e1"
      using take_batch_ok(1) [OF persisted(1,2)] take_batch_frame [OF persisted(2)] by (simp add: all_well_def)
    then show ?case using flush_batch_up(2) [OF assms(1) _ persisted(4)] persisted(7) by blast
  qed
  then show ?thesis using assms(2) by blast
qed

text \<open>The counters of the ring have not wrapped, so that \<open>is_empty\<close> tells the truth.\<close>

definition unwrapped :: "ring \<Rightarrow> bool" where
  "unwrapped m \<longleftrightarrow> ring_inv m \<and> rb_deq m \<le> rb_enq m"

lemma unwrapped_popped:
  assumes "unwrapped m" and "0 < ring_size m"
  shows "unwrapped (popped m)"
proof -
  have "rb_deq m \<noteq> rb_enq m" using assms(2) by (auto simp: ring_size_def)
  then have "rb_deq m < rb_enq m" using assms(1) by (simp add: unwrapped_def le_neq_trans)
  then have "rb_deq m + 1 \<le> rb_enq m" by (rule inc_le)
  then show ?thesis using assms ring_inv_popped by (simp add: unwrapped_def)
qed

lemma unwrapped_drain: "unwrapped m \<Longrightarrow> unwrapped (snd (drain_into n m))"
proof (induction n arbitrary: m)
  case 0
  then show ?case by simp
next
  case (Suc n)
  have "ring_inv m" using Suc.prems by (simp add: unwrapped_def)
  then show ?case
  proof (rule ring_dequeue_cases)
    fix x assume "0 < ring_size m" "try_dequeue m = (Some x, popped m)"
    then show ?thesis using Suc.IH [OF unwrapped_popped [OF Suc.prems]] by (simp add: case_prod_beta)
  qed (simp_all add: Suc.prems)
qed

lemma unwrapped_empty: "unwrapped m \<Longrightarrow> ring_is_empty m \<Longrightarrow> ring_contents m = []"
  using ring_len_eq [of m] by (simp add: unwrapped_def ring_is_empty_def) (simp add: ring_contents_def)

definition ready :: "('d \<Rightarrow> bool) \<Rightarrow> 'd engine \<Rightarrow> bool" where
  "ready up e \<longleftrightarrow> all_well up e \<and> unwrapped (en_ring e)"

lemma ready_drain: "ready up e \<Longrightarrow> drain_ring_into_cache e = (k, e1) \<Longrightarrow> ready up e1 \<and> True"
  using drain_up_to_effect [of e "drain_size e" k e1] unwrapped_drain
  by (auto simp: ready_def all_well_def drain_ring_is)

lemma ready_flush: "always_up p up \<Longrightarrow> ready up e \<Longrightarrow> flush p e = Some e1 \<Longrightarrow> ready up e1 \<and> dirty_set e1 = {}"
  using flush_up [of p up e] flush_ok [of e p] by (auto simp: ready_def all_well_def)

lemma ready_ok: "ready up e \<Longrightarrow> engine_ok e"
  by (simp add: ready_def all_well_def)

lemma final_drain_up:
  assumes "always_up p up" and "ready up e"
  shows "\<exists>e'. final_drain p 0 e = Some e' \<and> queued e' = [] \<and> dirty_set e' = {} \<and> ready up e'"
proof -
  have flush: "ready up e1 \<and> True" if "ready up e" "flush p e = Some e1" for e e1
    using ready_flush [OF assms(1) that] by simp
  have "\<exists>e'. final_drain p 0 e = Some e' \<and> ready up e' \<and> True \<and>
    (ring_is_empty (en_ring e') \<and> dirty_set e' = {}
     \<or> (\<exists>e1. ready up e1 \<and> flush p e1 = Some e' \<and> dirty_set e1 \<noteq> {}
          \<and> dirty_len (en_cache e1) \<le> dirty_len (en_cache e')))"
    by (rule final_drain_rule [where I = "ready up" and Q = "\<lambda>_ _. True",
      OF assms(2) ready_ok ready_drain flush TrueI])
  then obtain e' where e': "final_drain p 0 e = Some e'" "ready up e'"
    "ring_is_empty (en_ring e') \<and> dirty_set e' = {}
     \<or> (\<exists>e1. ready up e1 \<and> flush p e1 = Some e' \<and> dirty_set e1 \<noteq> {}
          \<and> dirty_len (en_cache e1) \<le> dirty_len (en_cache e'))"
    by blast
  have "ring_is_empty (en_ring e') \<and> dirty_set e' = {}"
    using e'(3)
  proof
    assume "\<exists>e1. ready up e1 \<and> flush p e1 = Some e' \<and> dirty_set e1 \<noteq> {}
      \<and> dirty_len (en_cache e1) \<le> dirty_len (en_cache e')"
    then obtain e1 where e1: "ready up e1" "flush p e1 = Some e'" "dirty_set e1 \<noteq> {}"
      "dirty_len (en_cache e1) \<le> dirty_len (en_cache e')" by blast
    have "dirty_set e' = {}" using ready_flush [OF assms(1) e1(1,2)] by simp
    then have "card (dirty_set e1) = 0" using e1(4) by (simp add: dirty_len_def)
    moreover have "finite (dirty_set e1)"
      using ready_ok [OF e1(1)] by (simp add: engine_ok_def cache_inv_finite_dirty)
    ultimately show ?thesis using e1(3) by simp
  qed simp
  then show ?thesis using e'(1,2) unwrapped_empty by (auto simp: ready_def)
qed

text \<open>The caller-driven flush succeeds as well.\<close>

lemma api_done_works:
  assumes "works (en_wal e)"
  shows "\<exists>e'. api_done sts l e = (Inr (length sts), e') \<and> works (en_wal e')"
proof (cases "checkpoint_watermark (en_lsn e) l")
  case None
  then show ?thesis using assms by (simp add: api_done_def)
next
  case (Some u)
  obtain w' where "checkpoint u (en_wal e) = (Inr (), w')" "works w'" using checkpoint_works [OF assms, of u] by blast
  then show ?thesis using Some by (simp add: api_done_def)
qed

lemma flush_states_up:
  assumes "always_up p up" and "all_well up e" and "flush_states p sts e = (r, e')"
  shows "r = Inr (length sts)" and "all_well up e'"
proof -
  have w: "up (en_store e)" "works (en_wal e)" "engine_ok e" using assms(2) by (simp_all add: all_well_def)
  obtain l w1 where a: "append_batch (batch_records sts e) (en_wal e) = (Inr l, w1)" "works w1"
    using append_works [OF w(2)] by blast
  have "r = Inr (length sts) \<and> up (en_store e') \<and> works (en_wal e')"
    using assms(3)
  proof (cases rule: flush_states_cases)
    case (log_failed err)
    then show ?thesis using a by simp
  next
    case (store_failed l err e1 e2)
    then show ?thesis using persist_up(1) [OF assms(1) _ store_failed(5)] w(1) by simp
  next
    case (done_ l w2 e1 e2)
    have "\<exists>w'. checkpoint u w1 = (Inr (), w') \<and> works w'" for u using checkpoint_works [OF a(2)] by blast
    then have "fst (checkpoint u w1) = Inr ()" "works (snd (checkpoint u w1))" for u by (metis fst_conv, metis snd_conv)
    then show ?thesis
      using done_ a persist_up(2) [OF assms(1) _ done_(5)] w(1) by (simp split: option.splits)
  qed
  then show "r = Inr (length sts)" "all_well up e'"
    using flush_states_ok(1) [OF w(3) assms(3)] by (simp_all add: all_well_def)
qed

lemma flush_now_loop_up:
  "always_up p up \<Longrightarrow> all_well up e \<Longrightarrow> queued e = [] \<Longrightarrow> \<exists>m e'. flush_now_loop p n e = Some (Inr m, e') \<and> all_well up e'"
proof (induction "dirty_len (en_cache e)" arbitrary: e n rule: less_induct)
  case less
  have ok_e: "engine_ok e" using less.prems(2) by (simp add: all_well_def)
  obtain sts e1 where t: "take_batch e = (sts, e1)" by fastforce
  note tb = take_batch_ok [OF ok_e t]
  have well1: "all_well up e1" using less.prems(2) tb(1) take_batch_frame [OF t] by (simp add: all_well_def)
  obtain r e2 where f: "flush_states p sts e1 = (r, e2)" by fastforce
  note fu = flush_states_up [OF less.prems(1) well1 f]
  note fs = flush_states_ok [OF tb(1) f]
  have step: "flush_now_loop p n e =
      (if dirty_len (en_cache e) = 0 then Some (Inr n, e)
       else if sts = [] then Some (Inr n, e1) else flush_now_loop p (n + length sts) e2)"
    by (subst flush_now_loop.simps) (simp add: api_drain_empty [OF ok_e less.prems(3)] t f fu(1))
  show ?case
  proof (cases "dirty_len (en_cache e) = 0 \<or> sts = []")
    case True
    then show ?thesis using less.prems(2) well1 by (auto simp: step)
  next
    case False
    have q: "queued e2 = []" using fs(2) less.prems(3) by (simp add: same_queue_def take_batch_frame [OF t])
    have "dirty_len (en_cache e2) < dirty_len (en_cache e)" using fs(4) [OF fu(1)] tb(5) False by simp
    from less.hyps [OF this less.prems(1) fu(2) q] False show ?thesis by (simp add: step)
  qed
qed

lemma flush_now_up:
  assumes "always_up p up" and "all_well up e"
  shows "\<exists>m e'. flush_now p e = Some (Inr m, e') \<and> all_well up e'"
proof -
  have "engine_ok e" using assms(2) by (simp add: all_well_def)
  from api_drain_effect [OF this] obtain e1 where e1: "api_drain e = Some e1" "all_well up e1" "queued e1 = []"
    using assms(2) by (auto simp: all_well_def)
  from flush_now_loop_up [OF assms(1) e1(2,3)] show ?thesis using e1(1) by (simp add: flush_now_def)
qed

section \<open>A start on an empty directory\<close>

lemma goes_cut_tail: "goes works (cut_tail g) works"
  by (auto simp: goes_def works_def cut_tail_def open_active_def set_len_def sync_dir_def benign_def)

lemma goes_recover: "goes works recover works"
proof -
  have cut: "goes works (\<lambda>w. if c then cut_tail g w else (Inr (), w)) works" for c g
    using goes_cut_tail [of g] by (auto simp: goes_def)
  show ?thesis
    unfolding recover_def Let_def case_prod_beta
    by (intro goes_try [OF goes_flush] goes_try [OF goes_read] goes_try [OF cut] goes_pure) (simp add: works_def)
qed

lemma open_empty_works: "\<exists>w. wal_open fsync (empty_dir []) = (Inr (), w) \<and> works w"
  by (simp add: wal_open_def create_active_def empty_dir_def check_header_def Let_def write_header_def
      data_of_def file_write_all_quiet HEADER_LEN_def HEADER_MAGIC_def works_def)

lemma start_empty_works:
  assumes "validate config = Inr ()"
  shows "\<exists>e w. start config store order clock (empty_dir []) = (Inr e, w) \<and> works (en_wal e)"
proof -
  obtain w1 where w1: "wal_open (cfg_wal_fsync config) (empty_dir []) = (Inr (), w1)" "works w1"
    using open_empty_works by blast
  obtain rs w where rec: "recover w1 = (Inr rs, w)" "works w"
    using goes_recover w1(2) unfolding goes_def by blast
  then obtain e where e: "start config store order clock (empty_dir []) = (Inr e, w)"
    using start_intro [OF assms w1(1) rec(1), of store order clock] by (elim exE)
  then have "en_wal e = w" by (auto elim!: start_elim)
  then show ?thesis using e rec(2) by blast
qed

lemma start_empty:
  assumes "start config store order clock (empty_dir ev) = (Inr e, w)"
  shows "e = \<lparr>en_ring = ring_new (cfg_ring_capacity config), en_cache = cache_new, en_wal = w,
      en_store = store, en_metrics = metrics_new, en_lsn = lsn_new 1, en_config = config, en_order = order,
      en_takes = 0, en_clock = clock\<rparr>"
    and "wal_holds [] w" and "wal_fsync w = cfg_wal_fsync config" and "HEADER_LEN \<le> synced_of w (wr_file w)"
proof -
  obtain w1 rs where s: "wal_open (cfg_wal_fsync config) (empty_dir ev) = (Inr (), w1)" "recover w1 = (Inr rs, w)"
    "e = \<lparr>en_ring = ring_new (cfg_ring_capacity config), en_cache = replayed 0 rs cache_new, en_wal = w,
      en_store = store, en_metrics = metrics_new, en_lsn = lsn_new (saturating_succ (highest rs)),
      en_config = config, en_order = order, en_takes = 0, en_clock = clock\<rparr>"
    using assms by (elim start_elim)
  note o = wal_open_empty [OF s(1)]
  note h = recover_holds [OF o(1) s(2)]
  note r = recover_ok(4,7,9) [OF wal_holds_opened [OF o(1)] s(2)]
  show "e = \<lparr>en_ring = ring_new (cfg_ring_capacity config), en_cache = cache_new, en_wal = w,
      en_store = store, en_metrics = metrics_new, en_lsn = lsn_new 1, en_config = config, en_order = order,
      en_takes = 0, en_clock = clock\<rparr>"
    using s(3) h(1) by (simp add: replayed_def highest_def saturating_succ_def)
  have "length (segment []) = HEADER_LEN" by (simp add: segment_def HEADER_LEN_def HEADER_MAGIC_def)
  then show "wal_holds [] w" "wal_fsync w = cfg_wal_fsync config" "HEADER_LEN \<le> synced_of w (wr_file w)"
    using h r o(3,4) by simp_all
qed

end
