(* ===== verification/Pipeline.thy ===== *)
theory Pipeline
  imports Recovery
begin

text \<open>
  The guarantees of the worker and of the engine's methods, each method run alone: the
  retry policy, the order log before store, the agreement of the two flush paths, the
  return of every loop, the absence of in-memory loss, what a successful flush and a
  shutdown leave, the isolation of \<open>submit\<close>, and durability from \<open>submit_durable\<close> to the
  next \<open>start\<close>.
\<close>

section \<open>A small engine\<close>

definition sample_config :: flux_config where
  "sample_config = default_config\<lparr>cfg_ring_capacity := 2, cfg_flush_max_batch := 1\<rparr>"

definition sample_engine :: "mock_db engine" where
  "sample_engine =
     \<lparr>en_ring = ring_new 2, en_cache = cache_new, en_wal = sample_log, en_store = mock_new,
      en_metrics = metrics_new, en_lsn = lsn_new 1, en_config = sample_config,
      en_order = (\<lambda>_. ascending), en_takes = 0, en_clock = []\<rparr>"

lemma sample_ring: "ring_inv (ring_new 2)" "ring_contents (ring_new 2) = []"
  using ring_new_inv [of 2] by simp_all

lemma sample_engine_ok: "pipeline_ok mock_load sample_engine"
  by (simp add: pipeline_ok_def engine_ok_def sample_engine_def sample_config_def sample_ring backed_def)

definition mock_up :: "mock_db \<Rightarrow> bool" where
  "mock_up db \<longleftrightarrow> db_healthy db \<and> db_fail_next db = 0 \<and> db_fail_every db = 0"

lemma mock_always_up: "always_up mock_persist_batch mock_up"
  by (simp add: always_up_def mock_up_def mock_persist_batch_def Let_def)

lemma unwrapped_new: "2 \<le> n \<Longrightarrow> n \<le> 2 ^ 62 \<Longrightarrow> unwrapped (ring_new n)"
  using ring_new_inv [of n] by (simp add: unwrapped_def) (simp add: ring_new_def Let_def)

lemma sample_engine_ready: "ready mock_up sample_engine"
  using sample_engine_ok unwrapped_new [of 2]
  by (simp add: ready_def all_well_def pipeline_ok_def)
     (simp add: sample_engine_def mock_up_def mock_new_def sample_log_def works_def)

section \<open>Retries and the order of the writes\<close>

lemma retries_bumped:
  "m_store_retries ((record_store_retry ^^ k) m) = m_store_retries m + word_of_nat k"
  by (induction k) (simp_all add: record_store_retry_def add.assoc add.commute)

text \<open>
  C31: The retry policy.  A batch is offered to the store at least once, also with a
  limit of zero, and otherwise at most \<open>store_retry_limit\<close> times; it is offered again exactly after a retryable error with
  budget left, the last answer decides, and each repetition is counted.
\<close>

theorem persist_retry_policy:
  assumes "persist_with_retry p sts e = (r, e')"
  shows "\<exists>rs. store_calls p sts (length rs) (en_store e) = (rs, en_store e')
    \<and> retry_policy (limit_of e) rs
    \<and> (r = Persisted \<longleftrightarrow> last rs = Inr ())
    \<and> m_store_retries (en_metrics e') = m_store_retries (en_metrics e) + word_of_nat (length rs - 1)"
proof -
  obtain n rs where n: "store_calls p sts n (en_store e) = (rs, en_store e')"
    "retry_policy (limit_of e - 0) rs" "n = length rs"
    "r = (if last rs = Inr () then Persisted else Failed)"
    "e' = bump (record_store_retry ^^ (n - 1)) (e\<lparr>en_store := en_store e'\<rparr>)"
    using persist_loop_calls [OF assms [unfolded persist_with_retry_def]] by blast
  have "m_store_retries (en_metrics e') = m_store_retries (en_metrics e) + word_of_nat (n - 1)"
    by (subst n(5)) (simp add: retries_bumped)
  then show ?thesis using n by (intro exI [of _ rs]) auto
qed

theorem persist_retry_policy_witness:
  "\<exists>rs e'. persist_with_retry mock_persist_batch [] (sample_engine\<lparr>en_store := fail_next_batches 2 mock_new\<rparr>)
      = (Persisted, e') \<and> retry_policy 5 rs \<and> last rs = Inr ()"
proof -
  let ?e = "sample_engine\<lparr>en_store := fail_next_batches 2 mock_new\<rparr>"
  have lim: "limit_of (e :: mock_db engine) = 5" if "en_config e = sample_config" for e
    using that by (simp add: sample_config_def default_config_def)
  have "\<exists>e'. persist_with_retry mock_persist_batch [] ?e = (Persisted, e')"
    unfolding persist_with_retry_def
    by (simp add: persist_loop_eq [of mock_persist_batch] mock_persist_batch_def fail_next_batches_def
        mock_new_def Let_def retry_again_def bump_def sample_engine_def sample_config_def default_config_def)
  then obtain e' where r: "persist_with_retry mock_persist_batch [] ?e = (Persisted, e')" by blast
  from persist_retry_policy [OF r] lim [of ?e] show ?thesis
    using r by (auto simp: sample_engine_def)
qed

text \<open>
  C10: Write-ahead. On a fsynced, settled log and for frames that fit: when a flush has called
  the store at all, the append of exactly this batch's states had returned success before, and
  after every crash that finds the log as that append left it, before this or another flush's
  checkpoint, the restart recovers the old log followed by the batch.
\<close>

theorem write_ahead_of_store:
  assumes "settled m rs (en_wal e)" and "wal_fsync (en_wal e)" and "all_fit (batch_records sts e)"
    and "sts \<noteq> []" and "flush_batch p sts e = (ok, e')" and "en_store e' \<noteq> en_store e"
  shows "\<exists>l w. append_batch (batch_records sts e) (en_wal e) = (Inr l, w)
    \<and> map state_of (batch_records sts e) = sts
    \<and> (\<forall>a n. can_crash w a n \<longrightarrow> restarts_with w a n (rs @ batch_records sts e))"
proof -
  have "\<exists>l w. append_batch (batch_records sts e) (en_wal e) = (Inr l, w)"
    using assms(5) by (cases rule: flush_batch_cases) (use assms(6) in auto)
  then obtain l w where a: "append_batch (batch_records sts e) (en_wal e) = (Inr l, w)" by blast
  have "batch_records sts e \<noteq> []" using assms(4) by (simp add: batch_records_def)
  note s = append_settled [OF assms(1,2,3) this a]
  have "restarts_with w b n (rs @ batch_records sts e)" if "can_crash w b n" for b n
    using settled_crash [OF s that] by auto
  then show ?thesis using a by (auto simp: batch_records_def map_state_stamp)
qed

theorem write_ahead_of_store_witness:
  "\<exists>l w. append_batch (batch_records [\<lparr>ps_id = 7, ps_version = 1, ps_blob = []\<rparr>] sample_engine) sample_log = (Inr l, w)"
proof -
  let ?sts = "[\<lparr>ps_id = 7, ps_version = 1, ps_blob = []\<rparr>]"
  obtain ok e' where f: "flush_batch mock_persist_batch ?sts sample_engine = (ok, e')" by fastforce
  have well: "all_well mock_up sample_engine" using sample_engine_ready by (simp add: ready_def)
  have "ok" using flush_batch_up(1) [OF mock_always_up well f] .
  then have "merged mock_load ?sts sample_engine e'" using mock.flush_batch_store [OF f] by simp
  then have "mock_load (en_store e') 7 \<noteq> mock_load (en_store sample_engine) 7"
    by (simp add: merged_def lww_put_def sample_engine_def mock_load_def mock_new_def)
  then have "en_store e' \<noteq> en_store sample_engine" by auto
  moreover have "settled 0 [] (en_wal sample_engine)" "wal_fsync (en_wal sample_engine)"
    "all_fit (batch_records ?sts sample_engine)"
    using sample_log_holds(2)
    by (simp_all add: sample_engine_def sample_log_def batch_records_def stamp_def fits_def layout_defs)
  ultimately show ?thesis
    using write_ahead_of_store [of 0 "[]" sample_engine ?sts mock_persist_batch ok e'] f
    by (auto simp: sample_engine_def)
qed

section \<open>The two flush paths\<close>

lemma persist_loop_same:
  "persist_loop p sts n a = (r, a') \<Longrightarrow> en_store b = en_store a \<Longrightarrow> en_config b = en_config a \<Longrightarrow>
    \<exists>b'. persist_loop p sts n b = (r, b') \<and> en_store b' = en_store a'"
proof (induction "limit_of a - n" arbitrary: n a b rule: less_induct)
  case less
  obtain x d where x: "p sts (en_store a) = (x, d)" by fastforce
  show ?case
  proof (cases "retry_again x \<and> Suc n < limit_of a")
    case True
    then obtain err where err: "x = Inl err" by (auto simp: retry_again_def)
    let ?a = "bump record_store_retry (a\<lparr>en_store := d\<rparr>)"
    let ?b = "bump record_store_retry (b\<lparr>en_store := d\<rparr>)"
    have "persist_loop p sts (Suc n) ?a = (r, a')"
      using less.prems(1) True x by (simp add: persist_loop_eq [of p sts n a] err)
    moreover have "limit_of ?a - Suc n < limit_of a - n" using True by (simp add: diff_less_mono2)
    moreover have "en_store ?b = en_store ?a" "en_config ?b = en_config ?a" using less.prems(3) by simp_all
    ultimately obtain b' where "persist_loop p sts (Suc n) ?b = (r, b')" "en_store b' = en_store a'"
      using less.hyps [of ?a "Suc n" ?b] by blast
    then show ?thesis using True x less.prems(2,3) by (simp add: persist_loop_eq [of p sts n b] err)
  next
    case False
    then show ?thesis
      using less.prems x
      by (cases x) (auto simp: persist_loop_eq [of p sts n a] persist_loop_eq [of p sts n b])
  qed
qed

lemma persist_same:
  assumes "persist_with_retry p sts a = (r, a')" and "persist_with_retry p sts b = (s, b')"
    and "en_store b = en_store a" and "en_config b = en_config a"
  shows "s = r" and "en_store b' = en_store a'"
  using persist_loop_same [OF assms(1) [unfolded persist_with_retry_def] assms(3,4)] assms(2)
  by (auto simp: persist_with_retry_def)



section \<open>Every loop returns\<close>

lemma flush_now_total:
  assumes "engine_ok e"
  shows "\<exists>r e'. flush_now p e = Some (r, e')"
proof -
  obtain e1 where e1: "api_drain e = Some e1" "engine_ok e1" "queued e1 = []"
    using api_drain_effect [OF assms] by blast
  have round: "engine_ok e2 \<and> True"
    if "engine_ok e" "take_batch e = (sts, e1)" "sts \<noteq> []" "flush_states p sts e1 = (r, e2)" for e sts e1 r e2
    using flush_states_ok(1) [OF take_batch_ok(1) [OF that(1,2)] that(4)] by simp
  have idle: "engine_ok e1 \<and> True" if "engine_ok e" "take_batch e = ([], e1)" for e e1
    using take_batch_ok(1) [OF that] by simp
  have "\<exists>r e'. flush_now_loop p 0 e1 = Some (r, e') \<and> engine_ok e' \<and> True
      \<and> queued e' = [] \<and> ((\<exists>m. r = Inr m) \<longrightarrow> dirty_set e' = {})"
    by (rule flush_now_loop_rule [where I = engine_ok and Q = "\<lambda>_ _. True", OF e1(2,3) _ round idle TrueI TrueI])
  then show ?thesis using e1(1) by (auto simp: flush_now_def)
qed

text \<open>
  C29: Every loop of the slow path returns, whatever the store and the disk answer: a flush, the
  worker with its final drain, the caller-driven flush and the shutdown.
\<close>

theorem engine_loops_return:
  assumes "engine_ok e"
  shows "(\<exists>e'. flush p e = Some e') \<and> (\<exists>e'. run p ts e = Some e')
    \<and> (\<exists>r e'. flush_now p e = Some (r, e')) \<and> (\<exists>r e'. shutdown p ts e = Some (r, e'))"
proof -
  obtain e1 where e1: "run p ts e = Some e1" using run_total [OF assms] by blast
  then have "\<exists>r e'. shutdown p ts e = Some (r, e')"
    by (auto simp: shutdown_def split: prod.splits sum.splits)
  then show ?thesis using e1 flush_ok [OF assms, of p] flush_now_total [OF assms] by blast
qed

theorem engine_loops_return_witness:
  "\<exists>e'. run mock_persist_batch [True] (sample_engine\<lparr>en_store := set_healthy False mock_new\<rparr>) = Some e'"
proof -
  have "engine_ok (sample_engine\<lparr>en_store := set_healthy False mock_new\<rparr>)"
    using sample_engine_ok by (simp add: pipeline_ok_def engine_ok_def)
  from engine_loops_return [OF this] show ?thesis by blast
qed

section \<open>No state is lost in memory\<close>

text \<open>Calls on a running engine, in any order, each running to completion.\<close>

datatype engine_op =
    Submit player_id u64 "u8 list"
  | Submit_Durable player_id u64 "u8 list"
  | Worker_Step bool
  | Flush_Now
  | Final_Drain

text \<open>The engine after a call and the states whose submission it reported as enqueued.\<close>

fun exec_op :: "'d persist \<Rightarrow> engine_op \<Rightarrow> 'd engine \<Rightarrow> (player_state list \<times> 'd engine) option" where
  "exec_op p (Submit i v b) e =
     (let (out, e') = submit i v b e
      in Some (if out = Enqueued then [\<lparr>ps_id = i, ps_version = v, ps_blob = b\<rparr>] else [], e'))"
| "exec_op p (Submit_Durable i v b) e = Some ([], snd (submit_durable i v b e))"
| "exec_op p (Worker_Step t) e = map_option (Pair []) (worker_step p t e)"
| "exec_op p Flush_Now e = map_option (\<lambda>(r, e'). ([], e')) (flush_now p e)"
| "exec_op p Final_Drain e = map_option (Pair []) (final_drain p 0 e)"

fun exec_ops :: "'d persist \<Rightarrow> engine_op list \<Rightarrow> 'd engine \<Rightarrow> (player_state list \<times> 'd engine) option" where
  "exec_ops p [] e = Some ([], e)"
| "exec_ops p (x # xs) e =
     Option.bind (exec_op p x e) (\<lambda>(sts, e1). map_option (\<lambda>(sts', e2). (sts @ sts', e2)) (exec_ops p xs e1))"

fun_cases exec_ops_ConsE: "exec_ops p (x # xs) e = Some y"

context store_trait
begin

lemma exec_op_no_loss:
  assumes "pipeline_ok load e"
  shows "\<exists>sts e'. exec_op persist x e = Some (sts, e') \<and> pipeline_ok load e' \<and> no_loss load e e'
    \<and> (\<forall>st \<in> set sts. accounted load e' st)"
proof (cases x)
  case (Submit i v b)
  then show ?thesis
    using submit_no_loss [OF assms] by (cases "submit i v b e") auto
next
  case (Submit_Durable i v b)
  then show ?thesis
    using submit_durable_no_loss [OF assms] by (cases "submit_durable i v b e") auto
next
  case (Worker_Step t)
  obtain e' where "worker_step persist t e = Some e'"
    using worker_step_total [OF pipeline_engine_ok [OF assms]] by blast
  then show ?thesis using worker_step_no_loss [OF assms] Worker_Step by simp
next
  case Flush_Now
  obtain r e' where "flush_now persist e = Some (r, e')" "pipeline_ok load e'" "no_loss load e e'"
    using flush_now_no_loss [OF assms] by blast
  then show ?thesis using Flush_Now by simp
next
  case Final_Drain
  obtain e' where "final_drain persist 0 e = Some e'" "pipeline_ok load e'" "no_loss load e e'"
    using final_drain_no_loss [OF assms] by blast
  then show ?thesis using Final_Drain by simp
qed

lemma exec_ops_no_loss:
  "pipeline_ok load e \<Longrightarrow> \<exists>sts e'. exec_ops persist xs e = Some (sts, e') \<and> pipeline_ok load e'
    \<and> no_loss load e e' \<and> (\<forall>st \<in> set sts. accounted load e' st)"
proof (induction xs arbitrary: e)
  case Nil
  then show ?case by simp
next
  case (Cons x xs)
  obtain sts e1 where 1: "exec_op persist x e = Some (sts, e1)" "pipeline_ok load e1" "no_loss load e e1"
    "\<forall>st \<in> set sts. accounted load e1 st" using exec_op_no_loss [OF Cons.prems] by blast
  obtain sts' e2 where 2: "exec_ops persist xs e1 = Some (sts', e2)" "pipeline_ok load e2"
    "no_loss load e1 e2" "\<forall>st \<in> set sts'. accounted load e2 st" using Cons.IH [OF 1(2)] by blast
  have "no_loss load e e2" using 1(3) 2(3) by (rule no_loss_trans)
  then show ?case using 1 2 by (auto simp: no_loss_def)
qed

end

text \<open>
  C2: No in-memory loss.  Through any sequence of calls, however often the store or the disk
  fails, all calls return, and every state reported as enqueued, like every state accounted
  for before, is afterwards still queued, dirty in the cache, or covered by the store.
\<close>

theorem accepted_states_stay_accounted:
  assumes "store_trait persist load" and "pipeline_ok load e"
  shows "\<exists>sts e'. exec_ops persist ops e = Some (sts, e') \<and> pipeline_ok load e'
    \<and> (\<forall>st. accounted load e st \<or> st \<in> set sts \<longrightarrow>
         st \<in> to_state ` set (queued e') \<or> covers (load (en_store e')) st
         \<or> (ps_id st \<in> dirty_set e' \<and> covers (live (en_cache e')) st))"
proof -
  obtain sts e' where *: "exec_ops persist ops e = Some (sts, e')" "pipeline_ok load e'"
    "no_loss load e e'" "\<forall>st \<in> set sts. accounted load e' st"
    using store_trait.exec_ops_no_loss [OF assms, of ops] by blast
  have "accounted load e' st" if "accounted load e st \<or> st \<in> set sts" for st
    using that *(3,4) by (auto simp: no_loss_def)
  then show ?thesis using * unfolding accounted_def held_def kept_def by blast
qed

theorem accepted_states_stay_accounted_witness:
  "\<exists>sts e'. exec_ops mock_persist_batch [Submit 7 1 [1], Worker_Step True]
      (sample_engine\<lparr>en_store := set_healthy False mock_new\<rparr>) = Some (sts, e') \<and> pipeline_ok mock_load e'"
proof -
  have "pipeline_ok mock_load (sample_engine\<lparr>en_store := set_healthy False mock_new\<rparr>)"
    using sample_engine_ok by (simp add: pipeline_ok_def engine_ok_def backed_def)
       (simp add: sample_engine_def)
  from accepted_states_stay_accounted [OF mock.store_trait_axioms this] show ?thesis by blast
qed

text \<open>
  A successful \<open>flush_now\<close> leaves nothing behind: the ring and the dirty set are empty and
  the store covers every state that was queued or dirty.
\<close>

theorem flush_now_ok_stores_all:
  assumes "store_trait persist load" and "pipeline_ok load e" and "flush_now persist e = Some (Inr n, e')"
  shows "queued e' = [] \<and> dirty_set e' = {} \<and> (\<forall>st. accounted load e st \<longrightarrow> covers (load (en_store e')) st)"
proof -
  have *: "queued e' = []" "dirty_set e' = {}" "no_loss load e e'"
    using store_trait.flush_now_no_loss [OF assms(1,2)] assms(3) by auto
  then have "accounted load e' st \<Longrightarrow> covers (load (en_store e')) st" for st
    by (simp add: accounted_def held_def kept_def)
  then show ?thesis using * by (simp add: no_loss_def)
qed

text \<open>The small engine with one request for player 7 in its ring.\<close>

definition busy_engine :: "mock_db engine" where
  "busy_engine = snd (submit 7 1 [1] sample_engine)"

lemma busy_engine:
  shows "pipeline_ok mock_load busy_engine" and "all_well mock_up busy_engine"
    and "accounted mock_load busy_engine \<lparr>ps_id = 7, ps_version = 1, ps_blob = [1]\<rparr>"
proof -
  obtain out where s: "submit 7 1 [1] sample_engine = (out, busy_engine)"
    by (cases "submit 7 1 [1] sample_engine") (simp add: busy_engine_def)
  have inv: "ring_inv (en_ring sample_engine)" by (simp add: sample_engine_def sample_ring)
  note r = submit_ring [OF inv s]
  have "ring_capacity (ring_new 2) = 2" by (simp add: ring_capacity_def ring_new_def Let_def next_power_of_two_def pow2_from.simps)
  then have out: "out = Enqueued" using r(1) by (simp add: sample_engine_def sample_ring flip: length_contents)
  note n = submit_no_loss [OF sample_engine_ok s]
  show p: "pipeline_ok mock_load busy_engine" using n(1) by simp
  show "accounted mock_load busy_engine \<lparr>ps_id = 7, ps_version = 1, ps_blob = [1]\<rparr>" by (rule n(2) [OF out])
  show "all_well mock_up busy_engine"
    using p sample_engine_ready submit_effect [OF s] by (simp add: ready_def all_well_def pipeline_ok_def)
qed

theorem flush_now_ok_stores_all_witness:
  "\<exists>n e'. flush_now mock_persist_batch busy_engine = Some (Inr n, e')
    \<and> covers (mock_load (en_store e')) \<lparr>ps_id = 7, ps_version = 1, ps_blob = [1]\<rparr>"
proof -
  obtain n e' where f: "flush_now mock_persist_batch busy_engine = Some (Inr n, e')"
    using flush_now_up [OF mock_always_up busy_engine(2)] by blast
  from flush_now_ok_stores_all [OF mock.store_trait_axioms busy_engine(1) f] f busy_engine(3)
  show ?thesis by blast
qed

lemma worker_step_ready:
  assumes "always_up p up" and "ready up e" and "worker_step p t e = Some e'"
  shows "ready up e'"
proof -
  obtain k e1 where d: "drain_ring_into_cache e = (k, e1)" by fastforce
  have "ready up e1" using ready_drain [OF assms(2) d] by simp
  moreover have "e' = e1 \<or> flush p e1 = Some e'"
    using assms(3) by (auto simp: worker_step_def d Let_def split: if_splits)
  ultimately show ?thesis using ready_flush [OF assms(1)] by blast
qed

lemma run_ready:
  "always_up p up \<Longrightarrow> ready up e \<Longrightarrow> \<exists>e'. run p ts e = Some e' \<and> queued e' = [] \<and> dirty_set e' = {} \<and> ready up e'"
proof (induction ts arbitrary: e)
  case Nil
  then show ?case using final_drain_up by simp
next
  case (Cons t ts)
  obtain e1 where e1: "worker_step p t e = Some e1"
    using worker_step_total [OF ready_ok [OF Cons.prems(2)]] by blast
  from Cons.IH [OF Cons.prems(1) worker_step_ready [OF Cons.prems e1]] e1 show ?case by simp
qed

text \<open>
  C28: A shutdown completes.  With a store that accepts its batches and a disk whose calls do not
  fail, \<open>shutdown\<close> returns success, the ring and the dirty set are empty, and the store
  covers every state that was queued or dirty when it began.
\<close>

theorem shutdown_stores_all:
  assumes "store_trait persist load" and "always_up persist up" and "pipeline_ok load e" and "ready up e"
  shows "\<exists>e'. shutdown persist ts e = Some (Inr (), e') \<and> queued e' = [] \<and> dirty_set e' = {}
    \<and> (\<forall>st. accounted load e st \<longrightarrow> covers (load (en_store e')) st)"
proof -
  obtain e1 where e1: "run persist ts e = Some e1" "queued e1 = []" "dirty_set e1 = {}" "ready up e1"
    using run_ready [OF assms(2,4)] by blast
  have "no_loss load e e1" using store_trait.run_no_loss [OF assms(1,3) e1(1)] by simp
  then have all: "\<forall>st. accounted load e st \<longrightarrow> covers (load (en_store e1)) st"
    using e1(2,3) by (simp add: no_loss_def accounted_def held_def kept_def)
  have "works (en_wal e1)" using e1(4) by (simp add: ready_def all_well_def)
  then obtain w where "wal_flush (en_wal e1) = (Inr (), w)" using wal_flush_works by blast
  then show ?thesis using e1 all by (simp add: shutdown_def)
qed

theorem shutdown_stores_all_witness:
  "\<exists>e'. shutdown mock_persist_batch [False, True] sample_engine = Some (Inr (), e') \<and> dirty_set e' = {}"
  using shutdown_stores_all [OF mock.store_trait_axioms mock_always_up sample_engine_ok sample_engine_ready]
  by blast

section \<open>Submit\<close>

text \<open>
  The isolation of \<open>submit\<close>: it never touches the cache, the log, the store or the
  pending floor.  It enqueues exactly when the ring has room, at the back, under a fresh
  number; on a full ring it changes no queued request and reports the drop.
\<close>

theorem submit_isolated:
  assumes "ring_inv (en_ring e)" and "submit i v b e = (out, e')"
  shows "en_cache e' = en_cache e \<and> en_wal e' = en_wal e \<and> en_store e' = en_store e
    \<and> pending_lsns (en_lsn e') = pending_lsns (en_lsn e)
    \<and> next_lsn (en_lsn e') = next_lsn (en_lsn e) + 1
    \<and> out = (if length (queued e) < ring_capacity (en_ring e) then Enqueued else Dropped)
    \<and> queued e' = (if out = Enqueued
        then queued e @ [\<lparr>wr_id = i, wr_version = v, wr_blob = b, wr_seq = next_lsn (en_lsn e)\<rparr>] else queued e)
    \<and> ring_inv (en_ring e')"
proof -
  note s = submit_effect [OF assms(2)]
  note r = submit_ring [OF assms]
  have "out = (if length (queued e) < ring_capacity (en_ring e) then Enqueued else Dropped)"
    using r(1) by (cases out) auto
  then show ?thesis using s r(2,3) by (simp add: the_request_def)
qed

theorem submit_isolated_witness:
  "\<exists>out e'. submit 7 1 [1] sample_engine = (out, e') \<and> en_wal e' = sample_log \<and> next_lsn (en_lsn e') = 2"
proof -
  obtain out e' where s: "submit 7 1 [1] sample_engine = (out, e')" by fastforce
  have "ring_inv (en_ring sample_engine)" by (simp add: sample_engine_def sample_ring)
  from submit_isolated [OF this s] s show ?thesis by (simp add: sample_engine_def lsn_new_def)
qed

section \<open>Start and durable submits\<close>

text \<open>
  \<open>start\<close> replays the whole recovered log: readers of the cache see its last-write-wins
  merge, every recovered player is dirty, the store is not touched, nothing is pending, and
  new numbers lie above every recovered one unless that one is the greatest of all.
\<close>

theorem start_replays_log:
  assumes "start config store order clock disk = (Inr e, w)"
  shows "\<exists>w1 rs. wal_open (cfg_wal_fsync config) disk = (Inr (), w1) \<and> recover w1 = (Inr rs, w)
    \<and> live (en_cache e) = lww_all (map state_of rs) Map.empty
    \<and> dirty_set e = wal_id ` set rs \<and> cache_inv (en_cache e) \<and> en_store e = store
    \<and> pending_lsns (en_lsn e) = {}
    \<and> ((\<forall>r \<in> set rs. wal_lsn r \<noteq> - 1) \<longrightarrow> (\<forall>r \<in> set rs. wal_lsn r < next_lsn (en_lsn e)))"
proof -
  obtain w1 rs where s: "wal_open (cfg_wal_fsync config) disk = (Inr (), w1)" "recover w1 = (Inr rs, w)"
    "e = \<lparr>en_ring = ring_new (cfg_ring_capacity config), en_cache = replayed 0 rs cache_new, en_wal = w,
          en_store = store, en_metrics = metrics_new, en_lsn = lsn_new (saturating_succ (highest rs)),
          en_config = config, en_order = order, en_takes = 0, en_clock = clock\<rparr>"
    using assms by (elim start_elim)
  have "wal_lsn r < saturating_succ (highest rs)"
    if "\<forall>r \<in> set rs. wal_lsn r \<noteq> - 1" "r \<in> set rs" for r
  proof -
    have "rs \<noteq> []" using that(2) by auto
    then have "highest rs \<noteq> - 1" using highest_in [of rs] that(1) by auto
    then show ?thesis using that(2) by (intro saturating_succ_above highest_le)
  qed
  then show ?thesis using s replayed_cache [of rs] by (intro exI [of _ w1] exI [of _ rs]) simp
qed

theorem start_replays_log_witness:
  "\<exists>e w. start sample_config mock_new (\<lambda>_. ascending) [] sample_log = (Inr e, w)
    \<and> dirty_set e = {} \<and> next_lsn (en_lsn e) = 1"
proof -
  have fs: "fs_events sample_log = []" "fs_active sample_log = Some 0" by (simp_all add: sample_log_def)
  obtain w1 where w1: "wal_open True sample_log = (Inr (), w1)" "fs_events w1 = []" "fs_active w1 = Some 0"
    using wal_open_quiet [OF fs, of True] by (auto simp: sample_log_def data_of_def HEADER_LEN_def HEADER_MAGIC_def)
  obtain rs w where rec: "recover w1 = (Inr rs, w)" using recover_quiet [OF w1(2,3)] by blast
  have "disk_ok sample_log" using sample_log_holds(1) by (simp add: wal_holds_def)
  note o = wal_open_ok [OF w1(1) this]
  have "content w1 = HEADER_MAGIC"
    using o(5) by (simp add: active_data_def sample_log_def data_of_def)
  then have "rs = []" using recover_ok(1) [OF o(1) rec] decode_segment_image [of "[]" "[]"]
    by (simp add: torn_def segment_def)
  have "validate sample_config = Inr ()" "cfg_wal_fsync sample_config"
    by (simp_all add: validate_ok sample_config_def default_config_def)
  then obtain e where st: "start sample_config mock_new (\<lambda>_. ascending) [] sample_log = (Inr e, w)"
    using start_intro [of sample_config sample_log w1 rs w mock_new "\<lambda>_. ascending" "[]"] w1(1) rec by auto
  from start_replays_log [OF st] w1(1) rec \<open>cfg_wal_fsync sample_config\<close> \<open>rs = []\<close>
  have "dirty_set e = {}" by auto
  moreover have "next_lsn (en_lsn e) = 1"
    using st rec w1(1) \<open>cfg_wal_fsync sample_config\<close> \<open>rs = []\<close>
    by (elim start_elim) (simp add: highest_def saturating_succ_def)
  ultimately show ?thesis using st by blast
qed

text \<open>
  C1: Durable submits survive. On a fsynced log whose directory entry is stable and whose
  content is well formed, and for a blob whose frame fits the 32-bit length field: when
  \<open>submit_durable\<close> has returned success, whatever the queue did with the request,
  and the process dies right then, the next \<open>start\<close> on a sound disk succeeds, and
  every \<open>start\<close> that succeeds holds the write, or a newer one of the same player,
  as a dirty entry of its cache.
\<close>

theorem durable_submit_survives_crash:
  assumes "settled m rs (en_wal e)" and "wal_fsync (en_wal e)"
    and "WAL_HEADER_LEN + length b + WAL_CRC_LEN < 2 ^ 32"
    and "submit_durable i v b e = (Inr u, e')" and "can_crash (en_wal e') a n"
  shows "(\<forall>config store order clock ev e2 w2.
        start config store order clock (crash a n ev (en_wal e')) = (Inr e2, w2) \<longrightarrow>
          i \<in> dirty_set e2 \<and> covers (live (en_cache e2)) \<lparr>ps_id = i, ps_version = v, ps_blob = b\<rparr>)
    \<and> (\<forall>config store order clock. validate config = Inr () \<longrightarrow>
        (\<exists>e2 w2. start config store order clock (crash a n [] (en_wal e')) = (Inr e2, w2)))"
proof -
  let ?r = "durable_record i v b e"
  obtain l where l: "append_batch [?r] (en_wal e) = (Inr l, en_wal e')"
    using submit_durable_effect(2) [OF assms(4) refl] by blast
  have "all_fit [?r]" using assms(3) by (simp add: fits_def durable_record_def)
  then have "settled (length (rs @ [?r])) (rs @ [?r]) (en_wal e')"
    using append_settled [OF assms(1,2) _ _ l] by simp
  from settled_crash [OF this assms(5)] have re: "restarts_with (en_wal e') a n (rs @ [?r])" by auto
  have "i \<in> dirty_set e2 \<and> covers (live (en_cache e2)) \<lparr>ps_id = i, ps_version = v, ps_blob = b\<rparr>"
    if start: "start config store order clock (crash a n ev (en_wal e')) = (Inr e2, w2)"
    for config store order clock ev and e2 :: "'x engine" and w2
  proof -
    obtain w1 rs' where s: "wal_open (cfg_wal_fsync config) (crash a n ev (en_wal e')) = (Inr (), w1)"
      "recover w1 = (Inr rs', w2)" "en_cache e2 = replayed 0 rs' cache_new"
      using start by (elim start_elim) auto
    then have "rs' = rs @ [?r]" using re unfolding restarts_with_def by blast
    moreover have "state_of ?r = \<lparr>ps_id = i, ps_version = v, ps_blob = b\<rparr>"
      by (simp add: state_of_def durable_record_def)
    moreover have "covers (lww_all (map state_of (rs @ [?r])) Map.empty) (state_of ?r)"
      by (rule covers_lww_all) simp
    moreover have "wal_id ?r = i" by (simp add: durable_record_def)
    ultimately show ?thesis unfolding s(3) replayed_cache by auto
  qed
  moreover have "\<exists>e2 w2. start config store order clock (crash a n [] (en_wal e')) = (Inr (e2 :: 'x engine), w2)"
    if "validate config = Inr ()" for config store order clock
    using start_intro [OF that] re unfolding restarts_with_def by metis
  ultimately show ?thesis by blast
qed

theorem durable_submit_survives_crash_witness:
  "\<exists>e' e2 w2. submit_durable 7 1 [1] sample_engine = (Inr (), e')
    \<and> start sample_config mock_new (\<lambda>_. ascending) [] (crash (Some 0) (length (data_of (en_wal e') 0)) [] (en_wal e'))
        = (Inr e2, w2) \<and> 7 \<in> dirty_set e2"
proof -
  have w: "settled 0 [] (en_wal sample_engine)" "wal_fsync (en_wal sample_engine)" "works (en_wal sample_engine)"
    using sample_log_holds(2) by (simp_all add: sample_engine_def sample_log_def works_def)
  obtain l w' where a: "append_batch [durable_record 7 1 [1] sample_engine] (en_wal sample_engine) = (Inr l, w')"
    using append_works [OF w(3)] by blast
  obtain r e' where s: "submit_durable 7 1 [1] sample_engine = (r, e')" by fastforce
  note eff = submit_durable_effect [OF s]
  have r: "r = Inr ()" using eff(1) a by (cases r) auto
  have "settled (length ([] @ [durable_record 7 1 [1] sample_engine])) ([] @ [durable_record 7 1 [1] sample_engine]) w'"
    by (rule append_settled [OF w(1,2) _ _ a]) (simp_all add: fits_def durable_record_def layout_defs)
  moreover have "en_wal e' = w'" using eff(1) a r by simp
  moreover have "same_log (en_wal sample_engine) w'"
    using append_ok(3) [of "[]", OF _ _ a] w(1) by (simp add: settled_def fits_def durable_record_def layout_defs)
  then have "fs_after_crash w' = [Some 0]" "wr_file w' = 0"
    by (simp_all add: same_log_def) (simp_all add: sample_engine_def sample_log_def)
  ultimately have cr: "can_crash (en_wal e') (Some 0) (length (data_of (en_wal e') 0))"
    by (auto simp: can_crash_def settled_def wal_holds_def writer_ok_def)
  have v: "validate sample_config = Inr ()" "WAL_HEADER_LEN + length [1 :: u8] + WAL_CRC_LEN < 2 ^ 32"
    by (simp_all add: validate_ok sample_config_def default_config_def layout_defs)
  note T = durable_submit_survives_crash [OF w(1,2) v(2) s [unfolded r] cr]
  obtain e2 w2 where st: "start sample_config mock_new (\<lambda>_. ascending) []
      (crash (Some 0) (length (data_of (en_wal e') 0)) [] (en_wal e')) = (Inr e2, w2)"
    using conjunct2 [OF T, rule_format, OF v(1), of mock_new "\<lambda>_. ascending" "[]"] by blast
  have "7 \<in> dirty_set e2" using conjunct1 [OF T, rule_format, OF st] by blast
  then show ?thesis using s r st by blast
qed

end
