(* ===== verification/Losses.thy ===== *)
theory Losses
  imports Pipeline
begin

text \<open>
  Runs of the pipeline in which an accepted write is lost or replaced, against what the
  comments of the source promise: an acknowledged durable write whose frame a checkpoint
  discards while its state is only in memory, a shutdown that gives up on a store that is
  down with entries that never reached the log, and a requeue that overwrites a later write
  of the same version.
\<close>

section \<open>A durable write without its frame\<close>

lemma ring_capacity_2: "ring_capacity (ring_new 2) = 2"
  by (simp add: ring_capacity_def ring_new_def Let_def next_power_of_two_def pow2_from.simps)

definition slow_player :: player_state where
  "slow_player = \<lparr>ps_id = 2, ps_version = 1, ps_blob = [9]\<rparr>"

definition fast_player :: player_state where
  "fast_player = \<lparr>ps_id = 1, ps_version = 1, ps_blob = [5]\<rparr>"

text \<open>The engine after a durable submit of one player and a plain submit of another.\<close>

lemma two_submits:
  obtains e1 e2 where "submit_durable 2 1 [9] sample_engine = (Inr (), e1)" "submit 1 1 [5] e1 = (Enqueued, e2)"
    "engine_ok e2" "map to_state (queued e2) = [slow_player, fast_player]" "map wr_seq (queued e2) = [1, 2]"
    "en_cache e2 = cache_new" "en_store e2 = mock_new" "en_config e2 = sample_config"
    "en_order e2 = (\<lambda>_. ascending)" "en_lsn e2 = \<lparr>next_lsn = 3, pending_lsns = {1}\<rparr>"
    "settled 1 [\<lparr>wal_lsn = 1, wal_id = 2, wal_version = 1, wal_blob = [9]\<rparr>] (en_wal e2)"
    "works (en_wal e2)" "wal_fsync (en_wal e2)" "last_lsn (en_wal e2) = 1"
proof -
  let ?r = "durable_record 2 1 [9] sample_engine"
  have r: "?r = \<lparr>wal_lsn = 1, wal_id = 2, wal_version = 1, wal_blob = [9]\<rparr>"
    by (simp add: durable_record_def sample_engine_def lsn_new_def)
  have w: "settled 0 [] (en_wal sample_engine)" "wal_fsync (en_wal sample_engine)" "works (en_wal sample_engine)"
    using sample_log_holds(2) by (simp_all add: sample_engine_def sample_log_def works_def)
  then have h: "wal_holds [] (en_wal sample_engine)" by (simp add: settled_def)
  have last0: "last_lsn (en_wal sample_engine) = 0" by (simp add: sample_engine_def sample_log_def)
  obtain l w1 where a: "append_batch [?r] (en_wal sample_engine) = (Inr l, w1)" "works w1"
    using append_works [OF w(3)] by blast
  have fit: "all_fit [?r]" by (simp add: r fits_def layout_defs)
  note ok = append_ok [OF h fit a(1)]
  obtain x e1 where s1: "submit_durable 2 1 [9] sample_engine = (x, e1)" by fastforce
  note d = submit_durable_effect [OF s1]
  have x: "x = Inr ()" "en_wal e1 = w1" using d(1) a(1) by (cases x; simp)+
  let ?q1 = "the_request 2 1 [9] sample_engine"
  have inv0: "ring_inv (en_ring sample_engine)" "queued sample_engine = []" "ring_capacity (en_ring sample_engine) = 2"
    by (simp_all add: sample_engine_def sample_ring ring_capacity_2)
  have ring1: "en_ring e1 = snd (try_enqueue ?q1 (en_ring sample_engine))" using d(10) x(1) by simp
  have q1: "queued e1 = [?q1]" using ringq.enqueue_contents [OF inv0(1), of ?q1] inv0(2,3) by (simp add: ring1)
  have inv1: "ring_inv (en_ring e1)" "ring_capacity (en_ring e1) = 2"
    using ringq.inv_enqueue [OF inv0(1), of ?q1] ringq.capacity_enqueue [OF inv0(1), of ?q1] inv0(3)
    by (simp_all add: ring1)
  obtain out e2 where s2: "submit 1 1 [5] e1 = (out, e2)" by fastforce
  note s = submit_effect [OF s2] and sr = submit_ring [OF inv1(1) s2]
  have "length (queued e1) < ring_capacity (en_ring e1)" by (simp add: q1 inv1(2) del: length_contents)
  then have out: "out = Enqueued" using sr(1) by blast
  let ?q2 = "the_request 1 1 [5] e1"
  have q2: "queued e2 = [?q1, ?q2]" using sr(2) out q1 by simp
  have nx: "next_lsn (en_lsn sample_engine) = 1" "next_lsn (en_lsn e1) = 2" "pending_lsns (en_lsn e1) = {1}"
    using d(8,9) x(1) by (simp_all add: sample_engine_def lsn_new_def)
  show thesis
  proof (rule that [OF s1 [unfolded x] s2 [unfolded out]])
    show "map to_state (queued e2) = [slow_player, fast_player]"
      by (simp add: q2 slow_player_def fast_player_def)
    show "map wr_seq (queued e2) = [1, 2]" by (simp add: q2 the_request_def nx)
    show "en_lsn e2 = \<lparr>next_lsn = 3, pending_lsns = {1}\<rparr>"
      using nx by (simp add: s(7) alloc_def)
    show "settled 1 [\<lparr>wal_lsn = 1, wal_id = 2, wal_version = 1, wal_blob = [9]\<rparr>] (en_wal e2)"
      using append_settled [OF w(1,2) fit _ a(1)] by (simp add: s(2) x(2) r)
    show "works (en_wal e2)" "last_lsn (en_wal e2) = 1" "wal_fsync (en_wal e2)"
      using a(2) ok(3-5) w(2) last0 by (simp_all add: s(2) x(2) same_log_def r)
    show "engine_ok e2"
      using sr(3) s(1,4,7) d(3,5) nx(3)
      by (simp add: engine_ok_def lsn_inv_def) (simp add: sample_engine_def sample_config_def)
    show "en_cache e2 = cache_new" "en_store e2 = mock_new" "en_config e2 = sample_config"
      "en_order e2 = (\<lambda>_. ascending)"
      using s(1,3-5) d(3-6) by (simp_all add: sample_engine_def)
  qed
qed

text \<open>The worker has drained both requests into the cache.\<close>

lemma two_drained:
  obtains e1 e2 e3 where "submit_durable 2 1 [9] sample_engine = (Inr (), e1)" "submit 1 1 [5] e1 = (Enqueued, e2)"
    "drain_ring_into_cache e2 = (2, e3)" "engine_ok e3" "queued e3 = []"
    "live (en_cache e3) = [2 \<mapsto> slow_player, 1 \<mapsto> fast_player]" "dirty_set e3 = {1, 2}"
    "en_store e3 = mock_new" "en_config e3 = sample_config" "en_order e3 = (\<lambda>_. ascending)"
    "en_lsn e3 = \<lparr>next_lsn = 3, pending_lsns = {}\<rparr>"
    "settled 1 [\<lparr>wal_lsn = 1, wal_id = 2, wal_version = 1, wal_blob = [9]\<rparr>] (en_wal e3)"
    "works (en_wal e3)" "wal_fsync (en_wal e3)" "last_lsn (en_wal e3) = 1"
proof -
  obtain e1 e2 where s: "submit_durable 2 1 [9] sample_engine = (Inr (), e1)" "submit 1 1 [5] e1 = (Enqueued, e2)"
    "engine_ok e2" "map to_state (queued e2) = [slow_player, fast_player]" "map wr_seq (queued e2) = [1, 2]"
    "en_cache e2 = cache_new" "en_store e2 = mock_new" "en_config e2 = sample_config"
    "en_order e2 = (\<lambda>_. ascending)" "en_lsn e2 = \<lparr>next_lsn = 3, pending_lsns = {1}\<rparr>"
    "settled 1 [\<lparr>wal_lsn = 1, wal_id = 2, wal_version = 1, wal_blob = [9]\<rparr>] (en_wal e2)"
    "works (en_wal e2)" "wal_fsync (en_wal e2)" "last_lsn (en_wal e2) = 1" by (rule two_submits)
  obtain k e3 where d: "drain_ring_into_cache e2 = (k, e3)" by fastforce
  note dr = drain_up_to_effect [OF s(3) d [unfolded drain_ring_is]]
  have n: "drain_size e2 = 4"
    by (simp add: drain_size_def s(8) sample_config_def saturating_mul_def DRAIN_MULTIPLE_def)
  have len: "length (queued e2) = 2" using s(4) by (metis length_map length_Cons list.size(3) numeral_2_eq_2)
  then have tk: "take (drain_size e2) (queued e2) = queued e2" "queued e3 = []"
    using n dr(2) by (simp_all del: length_contents)
  have k: "k = 2" using dr(1) len n by (simp del: length_contents)
  have c: "en_cache e3 = fold cache_apply (queued e2) cache_new" using dr(3) tk s(6) by simp
  then have live: "live (en_cache e3) = lww_all [slow_player, fast_player] Map.empty"
    using wb.apply_all_view [of cache_new "queued e2"] s(4) by simp
  then have live': "live (en_cache e3) = [2 \<mapsto> slow_player, 1 \<mapsto> fast_player]"
    by (simp add: lww_put_def slow_player_def fast_player_def)
  have "dirty_set e3 = dom (live (en_cache e3))"
    unfolding c by (rule all_dirty_apply_all) (simp del: dom_live)
  then have dirty: "dirty_set e3 = {1, 2}" unfolding live' by auto
  have "pending_lsns (en_lsn e3) = {1} - wr_seq ` set (queued e2)" "next_lsn (en_lsn e3) = 3"
    using dr(4) tk(1) by (simp_all add: pending_drained next_drained s(10))
  moreover have "wr_seq ` set (queued e2) = {1, 2}" using s(5) by (metis list.set(1,2) set_map)
  ultimately have lsn: "en_lsn e3 = \<lparr>next_lsn = 3, pending_lsns = {}\<rparr>" by (cases "en_lsn e3") simp
  show thesis
    by (rule that [OF s(1,2) d [unfolded k] dr(5) tk(2) live' dirty])
       (use s dr lsn in simp_all)
qed

lemma fast_taken:
  assumes "engine_ok e" and "dirty_set e = {1, 2}" and "en_order e = (\<lambda>_. ascending)"
    and "en_config e = sample_config" and "live (en_cache e) 1 = Some fast_player"
    and "take_batch e = (sts, e1)"
  shows "sts = [fast_player]"
proof -
  note t = take_batch_takes(1) [OF assms(6)]
  have "cache_inv (en_cache e)" using assms(1) by (simp add: engine_ok_def)
  note spec = take_dirty_spec [OF this t]
  have "card {1 :: player_id, 2} = 2" by simp
  then have len: "length sts = 1"
    using spec(5) assms(2,4) by (simp add: dirty_len_def sample_config_def)
  have "chosen_ids ascending 1 (en_cache e) = [1]"
  proof -
    have "sorted_list_of_set {1 :: player_id, 2} = [1, 2]" by (simp add: sorted_list_of_set_insert_remove)
    then show ?thesis by (simp add: chosen_ids_def assms(2) iterate_ascending)
  qed
  then have "take_dirty (en_order e (en_takes e)) (cfg_flush_max_batch (en_config e)) (en_cache e)
      = take_ids [1] (en_cache e)"
    by (simp add: take_dirty_ids assms(3,4) sample_config_def)
  moreover have "fst (take_ids [1] (en_cache e)) = [fast_player]"
    using assms(5) by (auto simp: live_def cache_get_def)
  ultimately show ?thesis using t by (metis fst_conv)
qed

text \<open>
  C11: An acknowledged durable write can be lost.  Draining a \<open>submit_durable\<close> request lifts
  the checkpoint floor although its state is only dirty in memory.  When the next batch does
  not contain it, the batch's successful flush checkpoints the log past the durable frame,
  and a crash before the following batch finds the write neither in the log nor in the
  store.
\<close>

theorem durable_write_lost_after_drain:
  "\<exists>e1 e2 e3 sts e4 e5 a n.
      submit_durable 2 1 [9] sample_engine = (Inr (), e1) \<and> submit 1 1 [5] e1 = (Enqueued, e2)
    \<and> drain_ring_into_cache e2 = (2, e3) \<and> take_batch e3 = (sts, e4)
    \<and> flush_batch mock_persist_batch sts e4 = (True, e5)
    \<and> can_crash (en_wal e5) a n \<and> restarts_with (en_wal e5) a n []
    \<and> mock_load (en_store e5) 2 = None"
proof -
  obtain e1 e2 e3 where s: "submit_durable 2 1 [9] sample_engine = (Inr (), e1)" "submit 1 1 [5] e1 = (Enqueued, e2)"
    "drain_ring_into_cache e2 = (2, e3)" and ok3: "engine_ok e3"
    and c: "live (en_cache e3) = [2 \<mapsto> slow_player, 1 \<mapsto> fast_player]" "dirty_set e3 = {1, 2}"
    and f: "en_store e3 = mock_new" "en_config e3 = sample_config" "en_order e3 = (\<lambda>_. ascending)"
    "en_lsn e3 = \<lparr>next_lsn = 3, pending_lsns = {}\<rparr>"
    and w: "settled 1 [\<lparr>wal_lsn = 1, wal_id = 2, wal_version = 1, wal_blob = [9]\<rparr>] (en_wal e3)"
    "works (en_wal e3)" "wal_fsync (en_wal e3)" "last_lsn (en_wal e3) = 1" by (rule two_drained)
  let ?r1 = "\<lparr>wal_lsn = 1, wal_id = 2, wal_version = 1, wal_blob = [9]\<rparr>"
  obtain sts e4 where t: "take_batch e3 = (sts, e4)" by fastforce
  have sts: "sts = [fast_player]" using fast_taken [OF ok3 c(2) f(3,2) _ t] c(1) by simp
  note tf = take_batch_frame [OF t]
  have up: "all_well mock_up e4"
    using take_batch_ok(1) [OF ok3 t] w(2) by (simp add: all_well_def tf f(1) mock_up_def mock_new_def)
  obtain ok e5 where b: "flush_batch mock_persist_batch sts e4 = (ok, e5)" by fastforce
  have ok: "ok" by (rule flush_batch_up(1) [OF mock_always_up up b])
  have store: "mock_load (en_store e5) 2 = None"
    using mock.flush_batch_store [OF b] ok
    by (simp add: merged_def sts tf f(1) lww_put_def fast_player_def mock_load_def mock_new_def)
  let ?r3 = "\<lparr>wal_lsn = 3, wal_id = 1, wal_version = 1, wal_blob = [5]\<rparr>"
  have recs: "batch_records sts e4 = [?r3]"
    by (simp add: batch_records_def stamp_def sts tf f(4) fast_player_def enumerate_eq_zip)
  have lsn: "pending_lsns (after_alloc sts e4) = {}" by (simp add: after_alloc_def tf f(4))
  show ?thesis
    using b
  proof (cases rule: flush_batch_cases)
    case (done_ l w1 x1 x2)
    have a: "append_batch [?r3] (en_wal e3) = (Inr l, w1)" using done_(1) by (simp add: recs tf)
    have fit: "all_fit [?r3]" by (simp add: fits_def layout_defs)
    have h: "wal_holds [?r1] (en_wal e3)" using w(1) by (simp add: settled_def)
    note ap = append_ok [OF h fit a]
    have l: "l = 3" using ap(4) w(4) by simp
    have "checkpoint_watermark (after_alloc sts e4) l = Some 3"
      using lsn by (simp add: checkpoint_watermark_def first_pending_def l)
    then have wal5: "en_wal e5 = snd (checkpoint 3 w1)" using done_(10) by simp
    have wk: "works w1" using append_works [OF w(2), of "[?r3]"] a by auto
    then obtain w2 where ck: "checkpoint 3 w1 = (Inr (), w2)" using checkpoint_works by blast
    have "survivors_of 3 ([?r1] @ [?r3]) = []" by (simp add: survivors_of_def)
    with checkpoint_settles(1) [OF ap(1) wk ck] have st: "settled 0 [] w2" by simp
    note cr = settled_can_crash [OF st]
    have "restarts_with w2 (Some (wr_file w2)) (length (data_of w2 (wr_file w2))) []"
      using settled_crash [OF st cr] by auto
    then show ?thesis using s t b ok store wal5 ck cr by fastforce
  qed (use ok in simp_all)
qed

section \<open>A shutdown that gives up\<close>

lemma store_calls_down:
  "\<not> db_healthy d \<Longrightarrow> store_calls mock_persist_batch sts n d = (rs, d') \<Longrightarrow> d' = d \<and> set rs \<subseteq> {Inl Unavailable}"
proof (induction n arbitrary: rs)
  case 0
  then show ?case by simp
next
  case (Suc n)
  then show ?case by (auto simp: mock_persist_batch_def split: prod.splits)
qed

lemma persist_down:
  assumes "\<not> db_healthy (en_store e)" and "persist_with_retry mock_persist_batch sts e = (r, e')"
  shows "r = Failed" and "en_store e' = en_store e"
proof -
  obtain n rs where n: "store_calls mock_persist_batch sts n (en_store e) = (rs, en_store e')"
    "retry_policy (limit_of e - 0) rs" "r = (if last rs = Inr () then Persisted else Failed)"
    using persist_loop_calls [OF assms(2) [unfolded persist_with_retry_def]] by blast
  note d = store_calls_down [OF assms(1) n(1)]
  have "rs \<noteq> []" using n(2) by (simp add: retry_policy_def)
  then have "last rs = Inl Unavailable" using d last_in_set by fastforce
  then show "r = Failed" "en_store e' = en_store e" using n(3) d by simp_all
qed

text \<open>Two players dirty, batches of one, the store down, nothing but player 1 in the log.\<close>

definition stuck :: "mock_db engine \<Rightarrow> bool" where
  "stuck e \<longleftrightarrow> engine_ok e \<and> queued e = [] \<and> dirty_set e = {1, 2}
     \<and> live (en_cache e) = [2 \<mapsto> slow_player, 1 \<mapsto> fast_player]
     \<and> en_order e = (\<lambda>_. ascending) \<and> en_config e = sample_config
     \<and> \<not> db_healthy (en_store e) \<and> mock_load (en_store e) 2 = None
     \<and> works (en_wal e) \<and> wal_fsync (en_wal e)
     \<and> (\<exists>rs. settled (length rs) rs (en_wal e) \<and> (\<forall>r \<in> set rs. wal_id r = 1))"

lemma stuck_flush:
  assumes "stuck e" and "flush mock_persist_batch e = Some e'"
  shows "stuck e'"
proof -
  have e: "engine_ok e" "queued e = []" "dirty_set e = {1, 2}" "live (en_cache e) = [2 \<mapsto> slow_player, 1 \<mapsto> fast_player]"
    "en_order e = (\<lambda>_. ascending)" "en_config e = sample_config" "\<not> db_healthy (en_store e)"
    "mock_load (en_store e) 2 = None" "works (en_wal e)" "wal_fsync (en_wal e)"
    using assms(1) by (auto simp: stuck_def)
  obtain rs where rs: "settled (length rs) rs (en_wal e)" "\<forall>r \<in> set rs. wal_id r = 1"
    using assms(1) by (auto simp: stuck_def)
  obtain sts e1 where t: "take_batch e = (sts, e1)" by fastforce
  note tk = take_batch_ok [OF e(1) t] and tf = take_batch_frame [OF t]
  have sts: "sts = [fast_player]" using fast_taken [OF e(1,3,5,6) _ t] e(4) by simp
  obtain ok e2 where b: "flush_batch mock_persist_batch sts e1 = (ok, e2)" by fastforce
  note fb = flush_batch_ok [OF tk(1) b]
  have a: "\<exists>l. append_batch (batch_records sts e1) (en_wal e) = (Inr l, en_wal e2) \<and> \<not> ok
      \<and> en_store e2 = en_store e"
    using b
  proof (cases rule: flush_batch_cases)
    case (log_failed err)
    then show ?thesis using append_works [OF e(9), of "batch_records sts e1"] by (auto simp: tf)
  next
    case (store_failed l x1 x2)
    then show ?thesis using persist_down(2) [OF _ store_failed(5)] e(7) by (simp add: tf)
  next
    case (done_ l w x1 x2)
    then show ?thesis using persist_down(1) [OF _ done_(5)] e(7) by (simp add: tf)
  qed
  then obtain l where l: "append_batch (batch_records sts e1) (en_wal e) = (Inr l, en_wal e2)" "\<not> ok"
    "en_store e2 = en_store e" by blast
  have e': "e' = e2" using assms(2) t b l(2) by (simp add: flush.simps [of mock_persist_batch e] sts)
  have recs: "all_fit (batch_records sts e1)" "batch_records sts e1 \<noteq> []" "\<forall>r \<in> set (batch_records sts e1). wal_id r = 1"
    by (simp_all add: batch_records_def stamp_def sts fast_player_def enumerate_eq_zip fits_def layout_defs)
  note st = append_settled [OF rs(1) e(10) recs(1,2) l(1)]
  have "wal_holds rs (en_wal e)" using rs(1) by (simp add: settled_def)
  then have "wal_fsync (en_wal e2)"
    using append_ok(3) [OF _ recs(1) l(1) recs(2)] e(10) by (simp add: same_log_def)
  moreover have "works (en_wal e2)" using append_works [OF e(9), of "batch_records sts e1"] l(1) by auto
  moreover have "\<forall>r \<in> set (rs @ batch_records sts e1). wal_id r = 1" using rs(2) recs(3) by auto
  with st have "\<exists>rs. settled (length rs) rs (en_wal e2) \<and> (\<forall>r \<in> set rs. wal_id r = 1)" by blast
  moreover have "cache_inv (en_cache e)" using e(1) by (simp add: engine_ok_def)
  then have "dirty_set e2 = {1, 2}" "live (en_cache e2) = live (en_cache e)"
    using dirty_requeued [OF _ take_batch_takes(1) [OF t]] live_requeued [OF _ take_batch_takes(1) [OF t]]
      fb(4) l(2) e(3) by simp_all
  ultimately show ?thesis
    unfolding e' stuck_def using fb(1,2) e l(3) by (simp add: same_queue_def tf)
qed

text \<open>
  A shutdown that gives up can lose writes.  With the store down, batches of one and two
  dirty players, the final drain stops after its stalled attempts; every attempt logged the
  first player only, so the second is neither in the store nor in what the next start
  recovers, although the drain's comment calls the remaining entries safe in the log.
\<close>

theorem stalled_drain_loses_unlogged:
  assumes "stuck e"
  shows "\<exists>e' a n rs. final_drain mock_persist_batch 0 e = Some e' \<and> 2 \<in> dirty_set e'
    \<and> live (en_cache e') 2 = Some slow_player \<and> mock_load (en_store e') 2 = None
    \<and> can_crash (en_wal e') a n \<and> restarts_with (en_wal e') a n rs \<and> (\<forall>r \<in> set rs. wal_id r = 1)"
proof -
  have ok: "stuck e \<Longrightarrow> engine_ok e" for e by (simp add: stuck_def)
  have drain: "stuck e1 \<and> True" if "stuck e" "drain_ring_into_cache e = (k, e1)" for e k e1
    using that drain_nothing [of e "drain_size e"] by (simp add: stuck_def drain_ring_is)
  have fl: "stuck e1 \<and> True" if "stuck e" "flush mock_persist_batch e = Some e1" for e e1
    using stuck_flush [OF that] by simp
  have "\<exists>e'. final_drain mock_persist_batch 0 e = Some e' \<and> stuck e' \<and> True \<and>
    (ring_is_empty (en_ring e') \<and> dirty_set e' = {}
     \<or> (\<exists>e1. stuck e1 \<and> flush mock_persist_batch e1 = Some e' \<and> dirty_set e1 \<noteq> {}
          \<and> dirty_len (en_cache e1) \<le> dirty_len (en_cache e')))"
    by (rule final_drain_rule [where I = stuck and Q = "\<lambda>_ _. True", OF assms ok drain fl TrueI])
  then obtain e' where e': "final_drain mock_persist_batch 0 e = Some e'" "stuck e'" by blast
  then obtain rs where rs: "settled (length rs) rs (en_wal e')" "\<forall>r \<in> set rs. wal_id r = 1"
    by (auto simp: stuck_def)
  note cr = settled_can_crash [OF rs(1)]
  have "restarts_with (en_wal e') (Some (wr_file (en_wal e'))) (length (data_of (en_wal e') (wr_file (en_wal e')))) rs"
    using settled_crash [OF rs(1) cr] by auto
  then show ?thesis using e' rs(2) cr unfolding stuck_def by fastforce
qed

definition stuck_engine :: "mock_db engine" where
  "stuck_engine = sample_engine\<lparr>en_store := set_healthy False mock_new,
     en_cache := fold cache_apply [sample_req 2 1 [9], sample_req 1 1 [5]] cache_new\<rparr>"

lemma stuck_engine: "stuck stuck_engine"
proof -
  let ?qs = "[sample_req 2 1 [9], sample_req 1 1 [5]]"
  let ?c = "fold cache_apply ?qs cache_new"
  have "live ?c = lww_all (map to_state ?qs) Map.empty"
    using wb.apply_all_view [of cache_new ?qs] by (simp del: fold.simps)
  then have live: "live ?c = [2 \<mapsto> slow_player, 1 \<mapsto> fast_player]"
    by (simp add: lww_put_def slow_player_def fast_player_def sample_req_def to_state_def)
  have "c_dirty ?c = dom (live ?c)" by (rule all_dirty_apply_all) (simp del: dom_live)
  then have dirty: "c_dirty ?c = {1, 2}" unfolding live by auto
  have "cache_inv ?c" using wb.apply_all_inv [of cache_new ?qs] by blast
  then have "engine_ok stuck_engine" using sample_engine_ok
    by (simp add: pipeline_ok_def engine_ok_def stuck_engine_def del: fold.simps)
  then show ?thesis
    using live dirty sample_log_holds(2) unfolding stuck_def
    by (intro conjI exI [of _ "[]"])
       (simp_all add: stuck_engine_def sample_engine_def sample_ring set_healthy_def mock_new_def
         mock_load_def works_def sample_log_def del: fold.simps)
qed

theorem stalled_drain_loses_unlogged_witness:
  "\<exists>e'. final_drain mock_persist_batch 0 stuck_engine = Some e' \<and> 2 \<in> dirty_set e'"
  using stalled_drain_loses_unlogged [OF stuck_engine] by blast

section \<open>A requeue over a write of the same version\<close>

text \<open>
  A requeue can undo a later write.  A write of the same version as the one in flight
  replaces it in the cache (equal versions win); when the flush then fails, \<open>requeue_dirty\<close>
  puts the older state back, because it compares versions only.
\<close>

theorem requeue_undoes_equal_version:
  assumes "cache_inv c" and "take_dirty h n c = (batch, c1)" and "st \<in> set batch"
    and "wr_id r = ps_id st" and "wr_version r = ps_version st"
  shows "cache_get (ps_id st) (cache_apply r c1) = Some (to_state r)
    \<and> cache_get (ps_id st) (requeue_dirty batch (cache_apply r c1)) = Some st"
proof -
  note t = take_dirty_spec [OF assms(1,2)]
  have old: "live c1 (ps_id st) = Some st" using t(1,3) assms(3) by simp
  have new: "live (cache_apply r c1) (ps_id st) = Some (to_state r)"
    using old assms(4,5) by (simp add: live_apply lww_put_def)
  obtain us vs where b: "batch = us @ st # vs" using assms(3) by (auto simp: in_set_conv_decomp)
  have "ps_id st \<notin> ps_id ` set us" "ps_id st \<notin> ps_id ` set vs" using t(4) by (simp_all add: b)
  then have "\<forall>s \<in> set us \<union> set vs. ps_id s \<noteq> ps_id st" by (metis UnE imageI)
  then have "wins batch st" unfolding wins_def b
    by (intro exI conjI) (rule refl, simp_all)
  then have "live (requeue_dirty batch (cache_apply r c1)) (ps_id st) = Some st"
    unfolding live_requeue by (rule lww_all_winner) (simp add: new assms(5))
  then show ?thesis using new by (simp add: live_def)
qed

theorem requeue_undoes_equal_version_witness:
  "cache_get 7 (requeue_dirty (fst (take_dirty ascending 1 (cache_apply (sample_req 7 5 [1]) cache_new)))
      (cache_apply (sample_req 7 5 [2]) (snd (take_dirty ascending 1 (cache_apply (sample_req 7 5 [1]) cache_new)))))
    = Some (to_state (sample_req 7 5 [1]))"
proof -
  let ?c = "cache_apply (sample_req 7 5 [1]) cache_new"
  have b: "fst (take_dirty ascending 1 ?c) = [to_state (sample_req 7 5 [1])]"
    by (simp add: take_dirty_def iterate_ascending cache_apply_def cache_new_def Let_def sample_req_def to_state_def)
  have "cache_inv ?c" by blast
  from requeue_undoes_equal_version [OF this surjective_pairing, of "to_state (sample_req 7 5 [1])" ascending 1 "sample_req 7 5 [2]"]
  show ?thesis unfolding b by (simp add: sample_req_def)
qed

end
