(* ===== verification/Crew.thy ===== *)
theory Crew
  imports Pipeline
begin

text \<open>
  The pipeline under concurrency.  The worker of \<open>src/worker.rs\<close> and any number of callers
  of \<open>src/api.rs\<close> (\<open>submit\<close>, \<open>submit_durable\<close>, \<open>flush_now\<close>) share ring, cache, log, store
  and allocator without a common lock.  Here their methods are cut at the operations on
  the shared components, each of which is atomic (an atomic instruction, a lock-free ring
  operation, or a method behind the component's own lock), and the pieces of all threads
  are interleaved.  Every step touches one shared component.

  \<open>Ring_Shared\<close> justifies the ring operations as single steps of a first-in first-out
  queue.  Metrics and clock may take any value at any time.  A thread here may stop draining
  or start a flush whenever it likes, so the runs of the code are among the runs of this
  relation; \<open>Crew_Calls\<close> shows it for the methods.
\<close>

section \<open>Steps\<close>

text \<open>What a thread holds between two operations on shared state.\<close>

datatype hand =
    Idle
  | Drawn write_request                      \<comment> \<open>\<open>submit\<close>: numbered, not yet offered to the ring\<close>
  | Numbered write_request                   \<comment> \<open>\<open>submit_durable\<close>: numbered, not yet pending\<close>
  | Pinned write_request                     \<comment> \<open>pending, not yet in the log\<close>
  | Unlogged lsn                             \<comment> \<open>refused by the log, still pending\<close>
  | Written write_request                    \<comment> \<open>in the log, not yet offered to the ring\<close>
  | Carrying "write_request list"            \<comment> \<open>popped from the ring, not yet in the cache\<close>
  | Lifted "write_request list"              \<comment> \<open>the first no longer pending\<close>
  | Batch "player_state list"                \<comment> \<open>taken from the dirty set\<close>
  | Stamped "player_state list" lsn          \<comment> \<open>numbered from here\<close>
  | Logged "player_state list" lsn nat       \<comment> \<open>in the log; the failed store calls so far\<close>
  | Stored lsn                               \<comment> \<open>in the store, before the watermark is read\<close>
  | Weighed lsn                              \<comment> \<open>before the checkpoint\<close>
  | Refused "player_state list"              \<comment> \<open>to be put back\<close>

record 'd crew =
  cr_engine :: "'d engine"
  cr_hands :: "nat \<Rightarrow> hand"
  cr_drawn :: "write_request list"           \<comment> \<open>every request numbered so far\<close>
  cr_accepted :: "player_state list"         \<comment> \<open>what \<open>submit\<close> has accepted so far\<close>
  cr_promised :: "write_request list"        \<comment> \<open>what \<open>submit_durable\<close> has returned \<open>Ok\<close> for\<close>

definition crew_start :: "'d engine \<Rightarrow> 'd crew" where
  "crew_start e = \<lparr>cr_engine = e, cr_hands = (\<lambda>_. Idle), cr_drawn = [], cr_accepted = [], cr_promised = []\<rparr>"

definition carry :: "write_request list \<Rightarrow> hand" where
  "carry rs = (if rs = [] then Idle else Carrying rs)"

definition with_hand :: "nat \<Rightarrow> hand \<Rightarrow> 'd engine \<Rightarrow> 'd crew \<Rightarrow> 'd crew" where
  "with_hand t h e c = c\<lparr>cr_engine := e, cr_hands := (cr_hands c)(t := h)\<rparr>"

definition record_of :: "write_request \<Rightarrow> wal_record" where
  "record_of r = \<lparr>wal_lsn = wr_seq r, wal_id = wr_id r, wal_version = wr_version r, wal_blob = wr_blob r\<rparr>"

definition write_durable :: "write_request \<Rightarrow> 'd engine \<Rightarrow> hand \<times> 'd engine" where
  "write_durable r e =
     (case append_batch [record_of r] (en_wal e) of
        (Inl err, w) \<Rightarrow> (Unlogged (wr_seq r), e\<lparr>en_wal := w\<rparr>)
      | (Inr confirmed, w) \<Rightarrow> (Written r, e\<lparr>en_wal := w\<rparr>))"

text \<open>The append of \<open>flush_batch\<close> (with its fallback number) and of \<open>flush_states\<close>.\<close>

definition append_stamped :: "bool \<Rightarrow> player_state list \<Rightarrow> lsn \<Rightarrow> 'd engine \<Rightarrow> hand \<times> 'd engine" where
  "append_stamped fallback states first_lsn e =
     (let records = stamp first_lsn states;
          highest_lsn = (if states = [] then 0 else wal_lsn (last records)) in
      case append_batch records (en_wal e) of
        (Inl err, w) \<Rightarrow> (Refused states, e\<lparr>en_wal := w\<rparr>)
      | (Inr confirmed, w) \<Rightarrow>
          (Logged states (if fallback \<and> confirmed = 0 then highest_lsn else confirmed) 0, e\<lparr>en_wal := w\<rparr>))"

text \<open>One turn of the retry loop.\<close>

definition try_store :: "'d persist \<Rightarrow> player_state list \<Rightarrow> lsn \<Rightarrow> nat \<Rightarrow> 'd engine \<Rightarrow> hand \<times> 'd engine" where
  "try_store persist states l attempt e =
     (let (r, d) = persist states (en_store e) in
      (case r of
         Inr u \<Rightarrow> Stored l
       | Inl err \<Rightarrow>
           if \<not> is_retryable err \<or> unat (cfg_store_retry_limit (en_config e)) \<le> Suc attempt
           then Refused states else Logged states l (Suc attempt),
       e\<lparr>en_store := d\<rparr>))"

definition weigh :: "lsn \<Rightarrow> 'd engine \<Rightarrow> hand" where
  "weigh l e = (case checkpoint_watermark (en_lsn e) l of Some safe_lsn \<Rightarrow> Weighed safe_lsn | None \<Rightarrow> Idle)"

inductive crew_step :: "'d persist \<Rightarrow> 'd crew \<Rightarrow> 'd crew \<Rightarrow> bool" for persist where
  draws: "cr_hands c t = Idle \<Longrightarrow> alloc (en_lsn (cr_engine c)) = (seq, s) \<Longrightarrow> h \<in> {Drawn, Numbered} \<Longrightarrow>
    r = \<lparr>wr_id = i, wr_version = v, wr_blob = b, wr_seq = seq\<rparr> \<Longrightarrow>
    crew_step persist c ((with_hand t (h r) ((cr_engine c)\<lparr>en_lsn := s\<rparr>) c)\<lparr>cr_drawn := r # cr_drawn c\<rparr>)"
| offers: "cr_hands c t = Drawn r \<Longrightarrow> try_enqueue r (en_ring (cr_engine c)) = (out, m) \<Longrightarrow>
    crew_step persist c ((with_hand t Idle ((cr_engine c)\<lparr>en_ring := m\<rparr>) c)
      \<lparr>cr_accepted := (case out of Inr u \<Rightarrow> [to_state r] | Inl shed \<Rightarrow> []) @ cr_accepted c\<rparr>)"
| pins: "cr_hands c t = Numbered r \<Longrightarrow>
    crew_step persist c (with_hand t (Pinned r)
      ((cr_engine c)\<lparr>en_lsn := note_pending (wr_seq r) (en_lsn (cr_engine c))\<rparr>) c)"
| writes: "cr_hands c t = Pinned r \<Longrightarrow> write_durable r (cr_engine c) = (h, e') \<Longrightarrow>
    crew_step persist c (with_hand t h e' c)"
| unpins: "cr_hands c t = Unlogged l \<Longrightarrow>
    crew_step persist c (with_hand t Idle ((cr_engine c)\<lparr>en_lsn := note_drained l (en_lsn (cr_engine c))\<rparr>) c)"
| promises: "cr_hands c t = Written r \<Longrightarrow> try_enqueue r (en_ring (cr_engine c)) = (out, m) \<Longrightarrow>
    crew_step persist c ((with_hand t Idle ((cr_engine c)\<lparr>en_ring := m\<rparr>) c)
      \<lparr>cr_promised := r # cr_promised c\<rparr>)"
| pops: "cr_hands c t = carry rs \<Longrightarrow> try_dequeue (en_ring (cr_engine c)) = (Some r, m) \<Longrightarrow>
    crew_step persist c (with_hand t (Carrying (rs @ [r])) ((cr_engine c)\<lparr>en_ring := m\<rparr>) c)"
| lifts: "cr_hands c t = Carrying (r # rs) \<Longrightarrow>
    crew_step persist c (with_hand t (Lifted (r # rs))
      ((cr_engine c)\<lparr>en_lsn := note_drained (wr_seq r) (en_lsn (cr_engine c))\<rparr>) c)"
| applies: "cr_hands c t = Lifted (r # rs) \<Longrightarrow>
    crew_step persist c (with_hand t (carry rs)
      ((cr_engine c)\<lparr>en_cache := cache_apply r (en_cache (cr_engine c))\<rparr>) c)"
| takes: "cr_hands c t = Idle \<Longrightarrow> take_batch (cr_engine c) = (states, e') \<Longrightarrow>
    crew_step persist c (with_hand t (if states = [] then Idle else Batch states) e' c)"
| stamps: "cr_hands c t = Batch states \<Longrightarrow>
    alloc_block (word_of_nat (length states)) (en_lsn (cr_engine c)) = (first_lsn, s) \<Longrightarrow>
    crew_step persist c (with_hand t (Stamped states first_lsn) ((cr_engine c)\<lparr>en_lsn := s\<rparr>) c)"
| logs: "cr_hands c t = Stamped states first_lsn \<Longrightarrow>
    append_stamped fallback states first_lsn (cr_engine c) = (h, e') \<Longrightarrow>
    crew_step persist c (with_hand t h e' c)"
| persists: "cr_hands c t = Logged states l k \<Longrightarrow> try_store persist states l k (cr_engine c) = (h, e') \<Longrightarrow>
    crew_step persist c (with_hand t h e' c)"
| weighs: "cr_hands c t = Stored l \<Longrightarrow>
    crew_step persist c (with_hand t (weigh l (cr_engine c)) (cr_engine c) c)"
| trims: "cr_hands c t = Weighed l \<Longrightarrow> checkpoint l (en_wal (cr_engine c)) = (out, w) \<Longrightarrow>
    crew_step persist c (with_hand t Idle ((cr_engine c)\<lparr>en_wal := w\<rparr>) c)"
| requeues: "cr_hands c t = Refused states \<Longrightarrow>
    crew_step persist c (with_hand t Idle
      ((cr_engine c)\<lparr>en_cache := requeue_dirty states (en_cache (cr_engine c))\<rparr>) c)"
| counts: "crew_step persist c (c\<lparr>cr_engine := (cr_engine c)\<lparr>en_metrics := m, en_clock := k\<rparr>\<rparr>)"

inductive crew_reachable :: "'d persist \<Rightarrow> 'd engine \<Rightarrow> 'd crew \<Rightarrow> bool" for persist e where
  start: "crew_reachable persist e (crew_start e)"
| step: "crew_reachable persist e c \<Longrightarrow> crew_step persist c c' \<Longrightarrow> crew_reachable persist e c'"

lemma carry_eq [simp]: "carry rs = Carrying qs \<longleftrightarrow> rs = qs \<and> qs \<noteq> []" "carry rs = Idle \<longleftrightarrow> rs = []"
  by (auto simp: carry_def)

lemma with_hand_simps [simp]:
  "cr_engine (with_hand t h e c) = e" "cr_hands (with_hand t h e c) = (cr_hands c)(t := h)"
  "cr_accepted (with_hand t h e c) = cr_accepted c" "cr_promised (with_hand t h e c) = cr_promised c"
  "cr_drawn (with_hand t h e c) = cr_drawn c"
  by (simp_all add: with_hand_def)

lemma to_state_record_of [simp]: "state_of (record_of r) = to_state r"
  by (simp add: state_of_def record_of_def to_state_def)

section \<open>States in flight\<close>

definition kept_with :: "player_state set \<Rightarrow> cache \<Rightarrow> table \<Rightarrow> player_state \<Rightarrow> bool" where
  "kept_with F c m st \<longleftrightarrow> kept c m st \<or> (\<exists>s \<in> F. ps_id s = ps_id st \<and> ps_version st \<le> ps_version s)"

definition backed_with :: "player_state set \<Rightarrow> cache \<Rightarrow> table \<Rightarrow> bool" where
  "backed_with F c m \<longleftrightarrow> (\<forall>i st. live c i = Some st \<longrightarrow> kept_with F c m st)"

lemma kept_with_older:
  "kept_with F c m s \<Longrightarrow> ps_id st = ps_id s \<Longrightarrow> ps_version st \<le> ps_version s \<Longrightarrow> kept_with F c m st"
  unfolding kept_with_def using kept_older order_trans by metis

lemma kept_with_mono: "kept_with F c m st \<Longrightarrow> F \<subseteq> G \<Longrightarrow> kept_with G c m st"
  by (auto simp: kept_with_def)

lemma backed_with_mono: "backed_with F c m \<Longrightarrow> F \<subseteq> G \<Longrightarrow> backed_with G c m"
  unfolding backed_with_def using kept_with_mono by blast

lemma kept_requeue_one: "kept c m st \<Longrightarrow> kept (requeue_one s c) m st"
  using kept_apply [of c m st "\<lparr>wr_id = ps_id s, wr_version = ps_version s, wr_blob = ps_blob s, wr_seq = 0\<rparr>"]
  by (cases s) (simp add: cache_apply_requeue to_state_def)

lemma kept_with_requeue_one: "kept_with F c m st \<Longrightarrow> kept_with F (requeue_one s c) m st"
  unfolding kept_with_def using kept_requeue_one by blast

text \<open>A state that goes back, or comes in, is kept without the hand that held it.\<close>

lemma requeue_one_self:
  assumes "backed_with (insert s F) c m" and "cache_inv c"
  shows "kept_with F (requeue_one s c) m s"
proof (cases "\<exists>e. live c (ps_id s) = Some e \<and> ps_version s < ps_version e")
  case True
  then obtain e where e: "live c (ps_id s) = Some e" "ps_version s < ps_version e" by blast
  have id: "ps_id e = ps_id s" using e(1) cache_inv_keyed [OF assms(2)] by (auto simp: keyed_def)
  have "kept_with (insert s F) c m e" using assms(1) e(1) by (auto simp: backed_with_def)
  then have "kept_with F c m e" using e(2) by (auto simp: kept_with_def)
  then have "kept_with F (requeue_one s c) m e" by (rule kept_with_requeue_one)
  then show ?thesis by (rule kept_with_older) (use id e(2) in simp_all)
next
  case False
  have "ps_id s \<in> c_dirty (requeue_one s c)" by (simp only: dirty_requeue_one False if_False insertI1)
  moreover have "covers (live (requeue_one s c)) s" by (simp add: live_requeue_one)
  ultimately show ?thesis by (simp add: kept_with_def kept_def)
qed

lemma requeue_one_kept:
  assumes "backed_with (insert s F) c m" and "cache_inv c" and "kept_with (insert s F) c m st"
  shows "kept_with F (requeue_one s c) m st"
proof -
  consider "kept_with F c m st" | "ps_id s = ps_id st" "ps_version st \<le> ps_version s"
    using assms(3) by (auto simp: kept_with_def)
  then show ?thesis
  proof cases
    case 1
    then show ?thesis by (rule kept_with_requeue_one)
  next
    case 2
    then show ?thesis using kept_with_older [OF requeue_one_self [OF assms(1,2)]] by simp
  qed
qed

lemma requeue_one_backed:
  assumes "backed_with (insert s F) c m" and "cache_inv c"
  shows "backed_with F (requeue_one s c) m"
  unfolding backed_with_def
proof (intro allI impI)
  fix i st
  assume "live (requeue_one s c) i = Some st"
  then have "st = s \<or> live c i = Some st"
    by (auto simp: live_requeue_one lww_put_def split: option.splits if_splits)
  then show "kept_with F (requeue_one s c) m st"
    using requeue_one_self [OF assms] requeue_one_kept [OF assms] assms(1) by (auto simp: backed_with_def)
qed

lemma requeue_dirty_kept:
  "backed_with (set sts \<union> F) c m \<Longrightarrow> cache_inv c \<Longrightarrow>
    backed_with F (requeue_dirty sts c) m \<and>
    (kept_with (set sts \<union> F) c m st \<longrightarrow> kept_with F (requeue_dirty sts c) m st)"
proof (induction sts arbitrary: c)
  case (Cons s sts)
  have b: "backed_with (insert s (set sts \<union> F)) c m" using Cons.prems(1) by simp
  show ?case
    using Cons.IH [OF requeue_one_backed [OF b Cons.prems(2)]] requeue_one_kept [OF b Cons.prems(2)] Cons.prems(2)
    by auto
qed simp

lemma apply_kept_with:
  assumes "backed_with F c m" and "cache_inv c"
  shows "backed_with F (cache_apply r c) m" and "kept_with F (cache_apply r c) m (to_state r)"
    and "kept_with F c m st \<Longrightarrow> kept_with F (cache_apply r c) m st"
proof -
  have b: "backed_with (insert (to_state r) F) c m" by (rule backed_with_mono [OF assms(1)]) auto
  show "backed_with F (cache_apply r c) m" "kept_with F (cache_apply r c) m (to_state r)"
    using requeue_one_backed [OF b assms(2)] requeue_one_self [OF b assms(2)] by (simp_all add: cache_apply_requeue)
  show "kept_with F (cache_apply r c) m st" if "kept_with F c m st"
    using requeue_one_kept [OF b assms(2) kept_with_mono [OF that]] by (auto simp: cache_apply_requeue)
qed

text \<open>Taken states move from the dirty set to the hand, and from the hand to the store.\<close>

lemma take_kept_with:
  assumes "cache_inv c" and "take_dirty h n c = (sts, c1)" and "kept_with F c m st"
  shows "kept_with (set sts \<union> F) c1 m st"
proof -
  note t = take_dirty_spec [OF assms(1,2)]
  consider "covers m st" | "ps_id st \<in> c_dirty c" "covers (live c) st" "ps_id st \<notin> ps_id ` set sts"
    | "ps_id st \<in> ps_id ` set sts" "covers (live c) st"
    | s where "s \<in> F" "ps_id s = ps_id st" "ps_version st \<le> ps_version s"
    using assms(3) by (auto simp: kept_with_def kept_def)
  then show ?thesis
  proof cases
    case 2
    then show ?thesis using t(1,2) by (simp add: kept_with_def kept_def)
  next
    case 3
    then obtain s where "s \<in> set sts" "ps_id s = ps_id st" "ps_version st \<le> ps_version s"
      using taken_state [OF assms(1,2)] by blast
    then show ?thesis by (auto simp: kept_with_def)
  qed (auto simp: kept_with_def kept_def)
qed

lemma take_backed_with:
  "cache_inv c \<Longrightarrow> take_dirty h n c = (sts, c1) \<Longrightarrow> backed_with F c m \<Longrightarrow> backed_with (set sts \<union> F) c1 m"
  using take_kept_with [of c h n sts c1] take_dirty_spec(1) [of c h n sts c1] by (auto simp: backed_with_def)

lemma store_kept_with: "kept_with (set sts \<union> F) c m st \<Longrightarrow> kept_with F c (lww_all sts m) st"
  by (auto simp: kept_with_def kept_def covers_lww_all_iff)

lemma kept_with_store_mono: "kept_with F c m st \<Longrightarrow> grows m m' \<Longrightarrow> kept_with F c m' st"
  unfolding kept_with_def using kept_store_mono by blast

end
