(* ===== verification/Crew_Safety.thy ===== *)
theory Crew_Safety
  imports Crew
begin

text \<open>
  What every interleaving of the threads of \<open>Crew\<close> keeps, for every store with the contract
  \<open>store_trait\<close> and whatever disk and store answer: each accepted state is queued, carried,
  in some thread's batch, dirty in the cache, or covered by the store.
\<close>

section \<open>The invariant\<close>

fun hand_states :: "hand \<Rightarrow> player_state set" where
  "hand_states (Batch sts) = set sts"
| "hand_states (Stamped sts l) = set sts"
| "hand_states (Logged sts l k) = set sts"
| "hand_states (Refused sts) = set sts"
| "hand_states h = {}"

fun carried :: "hand \<Rightarrow> write_request set" where
  "carried (Carrying rs) = set rs"
| "carried (Lifted rs) = set rs"
| "carried h = {}"

definition flying :: "(nat \<Rightarrow> hand) \<Rightarrow> player_state set" where
  "flying hands = (\<Union>t. hand_states (hands t))"

definition on_the_way :: "'d crew \<Rightarrow> write_request set" where
  "on_the_way c = set (queued (cr_engine c)) \<union> (\<Union>t. carried (cr_hands c t))"

definition safe :: "('d \<Rightarrow> table) \<Rightarrow> 'd crew \<Rightarrow> player_state \<Rightarrow> bool" where
  "safe load c st \<longleftrightarrow>
     kept_with (flying (cr_hands c)) (en_cache (cr_engine c)) (load (en_store (cr_engine c))) st
     \<or> st \<in> to_state ` on_the_way c"

definition crew_ok :: "('d \<Rightarrow> table) \<Rightarrow> 'd crew \<Rightarrow> bool" where
  "crew_ok load c \<longleftrightarrow> engine_ok (cr_engine c)
     \<and> backed_with (flying (cr_hands c)) (en_cache (cr_engine c)) (load (en_store (cr_engine c)))
     \<and> (\<forall>st \<in> set (cr_accepted c). safe load c st)"

text \<open>One hand and the others.\<close>

definition others :: "nat \<Rightarrow> (nat \<Rightarrow> hand) \<Rightarrow> player_state set" where
  "others t hands = (\<Union>u \<in> - {t}. hand_states (hands u))"

definition others_carry :: "nat \<Rightarrow> (nat \<Rightarrow> hand) \<Rightarrow> write_request set" where
  "others_carry t hands = (\<Union>u \<in> - {t}. carried (hands u))"

lemma flying_split: "flying hands = hand_states (hands t) \<union> others t hands"
  by (auto simp: flying_def others_def)

lemma flying_upd: "flying (hands(t := h)) = hand_states h \<union> others t hands"
  by (auto simp: flying_def others_def split: if_splits)

lemma carried_split: "(\<Union>u. carried (hands u)) = carried (hands t) \<union> others_carry t hands"
  by (auto simp: others_carry_def)

lemma carried_upd: "(\<Union>u. carried ((hands(t := h)) u)) = carried h \<union> others_carry t hands"
  by (auto simp: others_carry_def split: if_splits)

lemma carry_simps: "hand_states (carry rs) = {}" "carried (carry rs) = set rs"
  by (simp_all add: carry_def)

lemma on_the_way_with_hand:
  "on_the_way (with_hand t h e c) = set (queued e) \<union> (carried h \<union> others_carry t (cr_hands c))"
  by (simp only: on_the_way_def with_hand_simps carried_upd)

text \<open>A step of one thread keeps the invariant when it keeps what its own hand, the cache
  and the store hold together.\<close>

lemma crew_ok_with_hand:
  assumes ok: "crew_ok load c" and "engine_ok e'"
    and backing: "backed_with (hand_states h \<union> others t (cr_hands c)) (en_cache e') (load (en_store e'))"
    and keep: "\<And>st. kept_with (hand_states (cr_hands c t) \<union> others t (cr_hands c)) (en_cache (cr_engine c))
        (load (en_store (cr_engine c))) st \<Longrightarrow>
      kept_with (hand_states h \<union> others t (cr_hands c)) (en_cache e') (load (en_store e')) st"
    and way: "\<And>r. r \<in> set (queued (cr_engine c)) \<union> carried (cr_hands c t) \<Longrightarrow>
      r \<in> set (queued e') \<union> carried h
      \<or> kept_with (hand_states h \<union> others t (cr_hands c)) (en_cache e') (load (en_store e')) (to_state r)"
  shows "crew_ok load (with_hand t h e' c)"
proof -
  let ?c = "with_hand t h e' c"
  have "safe load ?c st" if st: "safe load c st" for st
  proof -
    consider "kept_with (hand_states (cr_hands c t) \<union> others t (cr_hands c)) (en_cache (cr_engine c))
        (load (en_store (cr_engine c))) st"
      | r where "st = to_state r" "r \<in> set (queued (cr_engine c)) \<union> carried (cr_hands c t)"
      | r where "st = to_state r" "r \<in> others_carry t (cr_hands c)"
      using st by (auto simp: safe_def on_the_way_def flying_split [of _ t] carried_split [of _ t])
    then show ?thesis
    proof cases
      case 1
      then show ?thesis using keep by (simp add: safe_def flying_upd)
    next
      case 2
      from way [OF this(2)] 2(1) show ?thesis
        by (auto simp: safe_def on_the_way_with_hand flying_upd)
    next
      case 3
      then show ?thesis by (auto simp: safe_def on_the_way_with_hand)
    qed
  qed
  then show ?thesis using assms(1-3) by (simp add: crew_ok_def flying_upd)
qed

lemma crew_ok_start: "pipeline_ok load e \<Longrightarrow> crew_ok load (crew_start e)"
  by (auto simp: crew_ok_def crew_start_def pipeline_ok_def flying_def backed_with_def backed_def kept_with_def)

lemma crew_ok_quiet:
  assumes ok: "crew_ok load c" and "engine_ok e'" and "en_cache e' = en_cache (cr_engine c)"
    and "en_store e' = en_store (cr_engine c)" and "set (queued (cr_engine c)) \<subseteq> set (queued e')"
    and "hand_states h = hand_states (cr_hands c t)" and "carried h = carried (cr_hands c t)"
  shows "crew_ok load (with_hand t h e' c)"
proof (rule crew_ok_with_hand [OF ok assms(2)])
  show "backed_with (hand_states h \<union> others t (cr_hands c)) (en_cache e') (load (en_store e'))"
    using ok by (simp add: crew_ok_def assms(3,4,6) flying_split [of _ t])
qed (use assms(3-7) in auto)

lemma crew_ok_accepted:
  "crew_ok load c \<Longrightarrow> set acc \<subseteq> set (cr_accepted c) \<union> to_state ` on_the_way c \<Longrightarrow>
    crew_ok load (c\<lparr>cr_accepted := acc\<rparr>)"
  by (auto simp: crew_ok_def safe_def on_the_way_def)

lemma crew_ok_promised:
  "crew_ok load c \<Longrightarrow> crew_ok load (c\<lparr>cr_promised := ps\<rparr>)" "crew_ok load c \<Longrightarrow> crew_ok load (c\<lparr>cr_drawn := ds\<rparr>)"
  by (auto simp: crew_ok_def safe_def on_the_way_def)

section \<open>What the pieces leave alone\<close>

lemma crew_enqueue:
  assumes "engine_ok e" and "try_enqueue r (en_ring e) = (out, m)"
  shows "engine_ok (e\<lparr>en_ring := m\<rparr>)" and "set (queued e) \<subseteq> set (ring_contents m)"
    and "out = Inr () \<Longrightarrow> r \<in> set (ring_contents m)"
proof -
  have inv: "ring_inv (en_ring e)" using assms(1) by (simp add: engine_ok_def)
  have m: "m = snd (try_enqueue r (en_ring e))" "out = fst (try_enqueue r (en_ring e))" using assms(2) by simp_all
  show "engine_ok (e\<lparr>en_ring := m\<rparr>)" using assms(1) ringq.inv_enqueue [OF inv, of r] m(1) by (simp add: engine_ok_def)
  show "set (queued e) \<subseteq> set (ring_contents m)" using ringq.enqueue_contents [OF inv, of r] m(1) by auto
  assume "out = Inr ()"
  then have "length (queued e) < ring_capacity (en_ring e)"
    using ringq.enqueue_full [OF inv, of r] ringq.bounded [OF inv] m(2) by (metis Inl_Inr_False fst_conv order.not_eq_order_implies_strict)
  then show "r \<in> set (ring_contents m)" using ringq.enqueue_ok [OF inv, of r] m(1) by simp
qed

lemma write_durable_facts:
  assumes "write_durable r e = (h, e')"
  shows "e' = e\<lparr>en_wal := en_wal e'\<rparr>" "hand_states h = {}" "carried h = {}"
  using assms by (auto simp: write_durable_def split: sum.splits prod.splits)

lemma append_stamped_facts:
  assumes "append_stamped fallback states l e = (h, e')"
  shows "e' = e\<lparr>en_wal := en_wal e'\<rparr>" "hand_states h = set states" "carried h = {}"
  using assms by (auto simp: append_stamped_def Let_def split: sum.splits prod.splits)

lemma weigh_facts [simp]: "hand_states (weigh l e) = {}" "carried (weigh l e) = {}"
  by (simp_all add: weigh_def split: option.split)

lemma engine_ok_updates [simp]:
  "engine_ok (e\<lparr>en_wal := w\<rparr>) = engine_ok e"
  "lsn_inv s \<Longrightarrow> engine_ok e \<Longrightarrow> engine_ok (e\<lparr>en_lsn := s\<rparr>)"
  by (simp_all add: engine_ok_def)

section \<open>Every step\<close>

context store_trait
begin

lemma try_store_facts:
  assumes "try_store persist states l k e = (h, e')"
  shows "en_cache e' = en_cache e" "en_ring e' = en_ring e" "en_config e' = en_config e" "en_lsn e' = en_lsn e"
    "carried h = {}" "hand_states h = set states \<or> load (en_store e') = lww_all states (load (en_store e)) \<and> hand_states h = {}"
    "grows (load (en_store e)) (load (en_store e'))"
proof -
  obtain r d where p: "persist states (en_store e) = (r, d)" by fastforce
  have "grows (load (en_store e)) (load d)" by (rule persist_grows [OF p])
  then show "en_cache e' = en_cache e" "en_ring e' = en_ring e" "en_config e' = en_config e" "en_lsn e' = en_lsn e"
    "carried h = {}" "hand_states h = set states \<or> load (en_store e') = lww_all states (load (en_store e)) \<and> hand_states h = {}"
    "grows (load (en_store e)) (load (en_store e'))"
    using assms p persist_ok [of states "en_store e" d] by (auto simp: try_store_def split: sum.splits if_splits)
qed

lemma crew_ok_step:
  assumes "crew_step persist c c'" and ok: "crew_ok load c"
  shows "crew_ok load c'"
proof -
  let ?e = "cr_engine c"
  let ?c = "en_cache ?e" and ?m = "load (en_store ?e)"
  have e: "engine_ok ?e" "cache_inv ?c" "ring_inv (en_ring ?e)"
    using ok by (simp_all add: crew_ok_def engine_ok_def)
  have b: "backed_with (hand_states (cr_hands c t) \<union> others t (cr_hands c)) ?c ?m" for t
    using ok by (simp add: crew_ok_def flying_split [of _ t])
  show ?thesis
    using assms(1)
  proof (cases rule: crew_step.cases)
    case (draws t seq s h r i v b)
    have "lsn_inv s" using e(1) draws(3) by (auto simp: engine_ok_def lsn_inv_def alloc_def)
    then show ?thesis
      unfolding draws(1) using draws(2,4) e(1) by (intro crew_ok_promised crew_ok_quiet [OF ok]) auto
  next
    case (offers t r out m)
    note q = crew_enqueue [OF e(1) offers(3)]
    have "crew_ok load (with_hand t Idle (?e\<lparr>en_ring := m\<rparr>) c)"
      using offers(2) q by (intro crew_ok_quiet [OF ok]) auto
    then show ?thesis
      unfolding offers(1) using q(3) by (intro crew_ok_accepted) (auto simp: on_the_way_with_hand split: sum.split)
  next
    case (pins t r)
    have "lsn_inv (note_pending (wr_seq r) (en_lsn ?e))" using e(1) by (simp add: engine_ok_def lsn_inv_def note_pending_def)
    then show ?thesis
      unfolding pins(1) using pins(2) e(1) by (intro crew_ok_quiet [OF ok]) auto
  next
    case (writes t r h e')
    note f = write_durable_facts [OF writes(3)]
    show ?thesis
      unfolding writes(1) using writes(2) e(1) f(2,3) by (subst f(1), intro crew_ok_quiet [OF ok]) auto
  next
    case (unpins t l)
    have "lsn_inv (note_drained l (en_lsn ?e))" using e(1) by (simp add: engine_ok_def lsn_inv_def note_drained_def)
    then show ?thesis
      unfolding unpins(1) using unpins(2) e(1) by (intro crew_ok_quiet [OF ok]) auto
  next
    case (promises t r out m)
    note q = crew_enqueue [OF e(1) promises(3)]
    have "crew_ok load (with_hand t Idle (?e\<lparr>en_ring := m\<rparr>) c)"
      using promises(2) q by (intro crew_ok_quiet [OF ok]) auto
    then show ?thesis unfolding promises(1) by (rule crew_ok_promised(1))
  next
    case (pops t rs r m)
    have c: "queued ?e = r # queued (?e\<lparr>en_ring := m\<rparr>)" and m: "ring_inv m"
      using ringq.dequeue_some [OF e(3)] ringq.dequeue_none [OF e(3)] ringq.inv_dequeue [OF e(3)] pops(3)
      by (cases "queued ?e"; simp)+
    have "engine_ok (?e\<lparr>en_ring := m\<rparr>)" using e(1) m by (simp add: engine_ok_def)
    then show ?thesis
      unfolding pops(1) using b [of t] pops(2) c by (intro crew_ok_with_hand [OF ok]) (auto simp: carry_simps)
  next
    case (lifts t r rs)
    have "lsn_inv (note_drained (wr_seq r) (en_lsn ?e))" using e(1) by (simp add: engine_ok_def lsn_inv_def note_drained_def)
    then show ?thesis
      unfolding lifts(1) using lifts(2) e(1) by (intro crew_ok_quiet [OF ok]) auto
  next
    case (applies t r rs)
    note a = apply_kept_with [OF b [of t] e(2)]
    have "engine_ok (?e\<lparr>en_cache := cache_apply r ?c\<rparr>)" using e(1) cache_inv_apply [OF e(2)] by (simp add: engine_ok_def)
    then show ?thesis
      unfolding applies(1) using a applies(2)
      by (intro crew_ok_with_hand [OF ok]) (auto simp: carry_simps)
  next
    case (takes t states e')
    note k = take_batch_takes(1) [OF takes(3)] and f = take_batch_frame [OF takes(3)]
    note w = take_kept_with [OF e(2) k, of "others t (cr_hands c)"]
      and v = take_backed_with [OF e(2) k, of "others t (cr_hands c)"]
    have h: "hand_states (if states = [] then Idle else Batch states) = set states"
      "carried (if states = [] then Idle else Batch states) = {}" by simp_all
    show ?thesis
      unfolding takes(1) using b [of t] takes(2) f v w take_batch_ok(1) [OF e(1) takes(3)]
      by (intro crew_ok_with_hand [OF ok]) (auto simp: h)
  next
    case (stamps t states l s)
    have "lsn_inv s" using e(1) stamps(3) by (auto simp: engine_ok_def lsn_inv_def alloc_block_def)
    then show ?thesis
      unfolding stamps(1) using stamps(2) e(1) by (intro crew_ok_quiet [OF ok]) auto
  next
    case (logs t states l fallback h e')
    note f = append_stamped_facts [OF logs(3)]
    show ?thesis
      unfolding logs(1) using logs(2) e(1) f(2,3) by (subst f(1), intro crew_ok_quiet [OF ok]) auto
  next
    case (persists t states l k h e')
    note f = try_store_facts [OF persists(3)]
    have ok': "engine_ok e'" using e(1) f(1-4) by (simp add: engine_ok_def)
    have keep: "kept_with (hand_states h \<union> others t (cr_hands c)) (en_cache e') (load (en_store e')) st"
      if "kept_with (set states \<union> others t (cr_hands c)) ?c ?m st" for st
      using f(6)
    proof
      assume "hand_states h = set states"
      then show ?thesis using kept_with_store_mono [OF that f(7)] f(1) by simp
    next
      assume "load (en_store e') = lww_all states ?m \<and> hand_states h = {}"
      then show ?thesis using store_kept_with [OF that] f(1) by simp
    qed
    have "backed_with (hand_states h \<union> others t (cr_hands c)) (en_cache e') (load (en_store e'))"
      using b [of t] persists(2) keep f(1) by (simp add: backed_with_def)
    then show ?thesis
      unfolding persists(1) using ok' keep persists(2) f(2,5) by (intro crew_ok_with_hand [OF ok]) auto
  next
    case (weighs t l)
    show ?thesis
      unfolding weighs(1) using weighs(2) e(1) by (intro crew_ok_quiet [OF ok]) auto
  next
    case (trims t l out w)
    show ?thesis
      unfolding trims(1) using trims(2) e(1) by (intro crew_ok_quiet [OF ok]) auto
  next
    case (requeues t states)
    let ?e' = "?e\<lparr>en_cache := requeue_dirty states ?c\<rparr>"
    have b': "backed_with (set states \<union> others t (cr_hands c)) ?c ?m" using b [of t] requeues(2) by simp
    note q = requeue_dirty_kept [OF b' e(2)]
    have "engine_ok ?e'" using e(1) cache_inv_requeue [OF e(2)] by (simp add: engine_ok_def)
    then show ?thesis
      unfolding requeues(1) using q requeues(2) by (intro crew_ok_with_hand [OF ok]) auto
  next
    case (counts m k)
    then show ?thesis using ok by (simp add: crew_ok_def safe_def on_the_way_def engine_ok_def)
  qed
qed

lemma crew_ok_reachable: "crew_reachable persist e c \<Longrightarrow> pipeline_ok load e \<Longrightarrow> crew_ok load c"
  by (induction rule: crew_reachable.induct) (auto intro: crew_ok_start crew_ok_step)

end

section \<open>No loss between threads\<close>

lemma threads_lose:
  assumes "store_trait persist load" and "pipeline_ok load e" and "crew_reachable persist e c"
    and "st \<in> set (cr_accepted c)"
  shows "st \<in> to_state ` set (queued (cr_engine c))
    \<or> (\<exists>t. st \<in> to_state ` carried (cr_hands c t))
    \<or> (ps_id st \<in> dirty_set (cr_engine c) \<and> covers (live (en_cache (cr_engine c))) st)
    \<or> covers (load (en_store (cr_engine c))) st
    \<or> (\<exists>t. \<exists>s \<in> hand_states (cr_hands c t). ps_id s = ps_id st \<and> ps_version st \<le> ps_version s)"
proof -
  have "safe load c st" using store_trait.crew_ok_reachable [OF assms(1,3,2)] assms(4) by (simp add: crew_ok_def)
  then show ?thesis unfolding safe_def kept_with_def kept_def on_the_way_def flying_def by blast
qed

text \<open>
  C3: No in-memory loss under concurrency.  However the worker, the submitters and the callers
  of \<open>flush_now\<close> interleave, and whatever the store and the disk answer, a state that
  \<open>submit\<close> has accepted is still queued, carried by a draining thread, dirty in the cache,
  covered by the store, or in some thread's batch at its version or a newer one.
\<close>

theorem threads_lose_nothing:
  assumes "store_trait persist load" and "pipeline_ok load e" and "crew_reachable persist e c"
    and "st \<in> set (cr_accepted c)"
  shows "st \<in> to_state ` set (queued (cr_engine c))
    \<or> (\<exists>t. st \<in> to_state ` carried (cr_hands c t))
    \<or> (ps_id st \<in> dirty_set (cr_engine c) \<and> covers (live (en_cache (cr_engine c))) st)
    \<or> covers (load (en_store (cr_engine c))) st
    \<or> (\<exists>t. \<exists>s \<in> hand_states (cr_hands c t). ps_id s = ps_id st \<and> ps_version st \<le> ps_version s)"
  using assms by (rule threads_lose)

text \<open>Player 7's state, accepted from the start of the small engine.\<close>

abbreviation seventh :: write_request where
  "seventh \<equiv> \<lparr>wr_id = 7, wr_version = 1, wr_blob = [1], wr_seq = 1\<rparr>"

lemma seventh_accepted:
  obtains m where "crew_reachable persist sample_engine
      ((crew_start (sample_engine\<lparr>en_lsn := lsn_new 2, en_ring := m\<rparr>))\<lparr>cr_drawn := [seventh], cr_accepted := [to_state seventh]\<rparr>)"
    and "ring_inv m" and "ring_contents m = [seventh]"
proof -
  obtain out m where q: "try_enqueue seventh (en_ring sample_engine) = (out, m)" by fastforce
  have ring: "ring_inv (en_ring sample_engine)" "queued sample_engine = []" "ring_capacity (en_ring sample_engine) = 2"
    by (simp_all add: sample_engine_def sample_ring ring_capacity_def)
       (simp add: ring_new_def Let_def next_power_of_two_def pow2_from.simps)
  have m: "out = Inr ()" "ring_contents m = [seventh]" "ring_inv m"
    using ringq.enqueue_ok [OF ring(1), of seventh] ringq.inv_enqueue [OF ring(1), of seventh] ring(2,3) q by simp_all
  let ?c0 = "crew_start sample_engine"
  have 1: "crew_step persist ?c0 ((with_hand 0 (Drawn seventh) (sample_engine\<lparr>en_lsn := lsn_new 2\<rparr>) ?c0)\<lparr>cr_drawn := [seventh]\<rparr>)" (is "crew_step _ _ ?c1")
    using crew_step.draws [of ?c0 0 1 "lsn_new 2" Drawn seventh 7 1 "[1]" persist]
    by (simp add: crew_start_def alloc_def lsn_new_def sample_engine_def)
  have 2: "crew_step persist ?c1 ((with_hand 0 Idle ((cr_engine ?c1)\<lparr>en_ring := m\<rparr>) ?c1)
      \<lparr>cr_accepted := [to_state seventh]\<rparr>)" (is "crew_step _ _ ?c2")
    using crew_step.offers [of ?c1 0 seventh out m persist] q m(1) by (simp add: crew_start_def)
  have "?c2 = (crew_start (sample_engine\<lparr>en_lsn := lsn_new 2, en_ring := m\<rparr>))\<lparr>cr_drawn := [seventh], cr_accepted := [to_state seventh]\<rparr>"
    by (simp add: with_hand_def crew_start_def fun_upd_idem)
  then show thesis
    using that [OF _ m(3,2)] crew_reachable.step [OF crew_reachable.step [OF crew_reachable.start 1] 2] by simp
qed

theorem threads_lose_nothing_witness:
  "\<exists>c. crew_reachable mock_persist_batch sample_engine c \<and> to_state seventh \<in> set (cr_accepted c)
    \<and> to_state seventh \<in> to_state ` set (queued (cr_engine c))"
proof -
  obtain m where m: "crew_reachable mock_persist_batch sample_engine
      ((crew_start (sample_engine\<lparr>en_lsn := lsn_new 2, en_ring := m\<rparr>))\<lparr>cr_drawn := [seventh], cr_accepted := [to_state seventh]\<rparr>)"
    by (rule seventh_accepted)
  have "\<not> covers (mock_load mock_new) (to_state seventh)"
    by (simp add: covers_def mock_load_def mock_new_def)
  then show ?thesis
    using threads_lose_nothing [OF mock.store_trait_axioms sample_engine_ok m, of "to_state seventh"] m
    by (intro exI [of _ "(crew_start (sample_engine\<lparr>en_lsn := lsn_new 2, en_ring := m\<rparr>))\<lparr>cr_drawn := [seventh], cr_accepted := [to_state seventh]\<rparr>"])
       (auto simp: crew_start_def sample_engine_def)
qed

end
