(* ===== verification/Crew_Durable.thy ===== *)
theory Crew_Durable
  imports Crew_Safety Losses
begin

text \<open>
  Acknowledged durable writes under concurrency, on a disk that does not fail.  The floor of
  pending numbers protects their frames as long as no thread is between \<open>alloc\<close> and
  \<open>note_pending\<close> of \<open>submit_durable\<close> with a number at or below a watermark that another
  thread has read and not yet used; when the two windows overlap, the frame of an
  acknowledged write is checkpointed away.  A checkpoint also takes the frames of another
  thread's batch that is not in the store yet.
\<close>

section \<open>A log on a working disk\<close>

definition steady :: "wal_record list \<Rightarrow> wal \<Rightarrow> bool" where
  "steady rs w \<longleftrightarrow> settled (length rs) rs w \<and> works w \<and> wal_fsync w"

lemma steady_append:
  assumes "steady rs w" and "all_fit recs" and "recs \<noteq> []" and "append_batch recs w = (x, w')"
  shows "steady (rs @ recs) w'" and "x = Inr (fold max (map wal_lsn recs) (last_lsn w))" and "last_lsn w' = projr x"
proof -
  have s: "settled (length rs) rs w" "works w" "wal_fsync w" "wal_holds rs w"
    using assms(1) by (simp_all add: steady_def settled_def)
  obtain l where l: "x = Inr l" "works w'" using append_works [OF s(2), of recs] assms(4) by auto
  note a = append_ok [OF s(4) assms(2) assms(4) [unfolded l(1)] assms(3)]
  have "settled (length (rs @ recs)) (rs @ recs) w'"
    using append_settled [OF s(1,3) assms(2,3)] assms(4) l(1) by simp
  moreover have "wal_fsync w'" using a(3) s(3) by (simp add: same_log_def)
  ultimately show "steady (rs @ recs) w'" using l(2) by (simp add: steady_def)
  show "x = Inr (fold max (map wal_lsn recs) (last_lsn w))" "last_lsn w' = projr x" using a(4,5) l(1) by simp_all
qed

lemma steady_checkpoint:
  assumes "steady rs w" and "checkpoint u w = (x, w')"
  shows "steady (survivors_of u rs) w'" and "x = Inr ()"
proof -
  have s: "works w" "wal_fsync w" "wal_holds rs w" using assms(1) by (simp_all add: steady_def settled_def)
  show x: "x = Inr ()" using checkpoint_works [OF s(1), of u] assms(2) by auto
  have "before w rs w" using s(3) by (simp add: before_def keeps_def)
  with runs_Inr [OF runs_checkpoint [OF refl] this assms(2) [unfolded x]] have "wal_fsync w'"
    using s(2) by (auto simp: after_def keeps_def)
  then show "steady (survivors_of u rs) w'"
    using checkpoint_settles [OF s(3,1) assms(2) [unfolded x]] by (simp add: steady_def)
qed

lemma steady_crash: "steady rs w \<Longrightarrow> can_crash w a n \<Longrightarrow> restarts_with w a n rs"
  using settled_crash [of "length rs" rs w a n] by (auto simp: steady_def)

lemma steady_can_crash: "steady rs w \<Longrightarrow> \<exists>a n. can_crash w a n \<and> restarts_with w a n rs"
  using settled_can_crash [of "length rs" rs w] steady_crash by (fastforce simp: steady_def)

section \<open>Runs in which the windows stay apart\<close>

text \<open>No number waits to become pending at or below a watermark in use.\<close>

definition windows_apart :: "(nat \<Rightarrow> hand) \<Rightarrow> bool" where
  "windows_apart hands \<longleftrightarrow> (\<forall>t u r s. hands t = Numbered r \<longrightarrow> hands u = Weighed s \<longrightarrow> s < wr_seq r)"

text \<open>What is about to be appended fits into frames.\<close>

definition frames_fit :: "(nat \<Rightarrow> hand) \<Rightarrow> bool" where
  "frames_fit hands \<longleftrightarrow> (\<forall>t r. hands t = Pinned r \<longrightarrow> all_fit [record_of r])
     \<and> (\<forall>t sts l. hands t = Stamped sts l \<longrightarrow> all_fit (stamp l sts))"

abbreviation numbers :: "'d crew \<Rightarrow> lsn_state" where
  "numbers c \<equiv> en_lsn (cr_engine c)"

inductive apart_reachable :: "'d persist \<Rightarrow> 'd engine \<Rightarrow> 'd crew \<Rightarrow> bool" for persist e where
  start: "apart_reachable persist e (crew_start e)"
| step: "apart_reachable persist e c \<Longrightarrow> crew_step persist c c' \<Longrightarrow> windows_apart (cr_hands c') \<Longrightarrow>
    frames_fit (cr_hands c') \<Longrightarrow> next_lsn (numbers c) \<le> next_lsn (numbers c') \<Longrightarrow> apart_reachable persist e c'"

section \<open>The invariant\<close>

fun in_call :: "hand \<Rightarrow> write_request set" where
  "in_call (Numbered r) = {r}"
| "in_call (Pinned r) = {r}"
| "in_call (Written r) = {r}"
| "in_call h = {}"

definition distinct_numbers :: "'d crew \<Rightarrow> bool" where
  "distinct_numbers c \<longleftrightarrow>
     (\<forall>t. \<forall>r \<in> in_call (cr_hands c t). wr_seq r < next_lsn (numbers c) \<and> wr_seq r \<notin> wr_seq ` set (cr_promised c)
        \<and> (\<forall>u. u \<noteq> t \<longrightarrow> wr_seq r \<notin> wr_seq ` in_call (cr_hands c u)))
     \<and> (\<forall>r \<in> set (cr_promised c). wr_seq r < next_lsn (numbers c))"

definition framed :: "wal_record list \<Rightarrow> 'd crew \<Rightarrow> bool" where
  "framed rs c \<longleftrightarrow> (\<forall>r. r \<in> set (cr_promised c) \<or> (\<exists>t. cr_hands c t = Written r) \<longrightarrow>
     wr_seq r \<in> pending_lsns (numbers c) \<longrightarrow> record_of r \<in> set rs)"

definition below_floor :: "'d crew \<Rightarrow> bool" where
  "below_floor c \<longleftrightarrow> (\<forall>t s. cr_hands c t = Weighed s \<longrightarrow> (\<forall>l \<in> pending_lsns (numbers c). s < l))"

definition full_batches :: "(nat \<Rightarrow> hand) \<Rightarrow> bool" where
  "full_batches hands \<longleftrightarrow> (\<forall>t sts l. hands t = Batch sts \<or> hands t = Stamped sts l \<longrightarrow> sts \<noteq> [])"

definition pins_ok :: "'d crew \<Rightarrow> bool" where
  "pins_ok c \<longleftrightarrow> lsn_inv (numbers c) \<and> (\<exists>rs. steady rs (en_wal (cr_engine c)) \<and> framed rs c)
     \<and> distinct_numbers c \<and> below_floor c \<and> full_batches (cr_hands c)"

lemma pins_ok_start: "lsn_inv (en_lsn e) \<Longrightarrow> steady rs (en_wal e) \<Longrightarrow> pins_ok (crew_start e)"
  by (auto simp: pins_ok_def crew_start_def framed_def distinct_numbers_def below_floor_def full_batches_def)

lemma distinct_numbersI:
  assumes "distinct_numbers c" and sub: "\<And>u. in_call (cr_hands c' u) \<subseteq> in_call (cr_hands c u)"
    and p: "cr_promised c' = cr_promised c" and le: "next_lsn (numbers c) \<le> next_lsn (numbers c')"
  shows "distinct_numbers c'"
proof -
  have "wr_seq r < next_lsn (numbers c')" if "wr_seq r < next_lsn (numbers c)" for r :: write_request
    using that le by (rule less_le_trans)
  moreover have "wr_seq r \<notin> wr_seq ` in_call (cr_hands c' u)" if "wr_seq r \<notin> wr_seq ` in_call (cr_hands c u)" for r u
    using that sub [of u] by blast
  ultimately show ?thesis using assms(1) sub unfolding distinct_numbers_def p by (meson subsetD)
qed

text \<open>A step that neither numbers nor pins, writes, promises or weighs.\<close>

definition ordinary :: "hand \<Rightarrow> hand \<Rightarrow> bool" where
  "ordinary h h' \<longleftrightarrow> in_call h' = {} \<and> (\<forall>s. h' \<noteq> Weighed s) \<and> (\<forall>sts l. h' = Batch sts \<or> h' = Stamped sts l \<longrightarrow> sts \<noteq> [])"

lemma pins_ok_ordinary:
  assumes ok: "pins_ok c" and h: "ordinary (cr_hands c t) h" and "lsn_inv (en_lsn e')"
    and nxt: "next_lsn (numbers c) \<le> next_lsn (en_lsn e')" and pend: "pending_lsns (en_lsn e') \<subseteq> pending_lsns (numbers c)"
    and log: "\<And>rs. steady rs (en_wal (cr_engine c)) \<Longrightarrow> \<exists>rs'. steady rs' (en_wal e')
      \<and> (\<forall>r \<in> set rs. wal_lsn r \<in> pending_lsns (en_lsn e') \<longrightarrow> r \<in> set rs')"
  shows "pins_ok (with_hand t h e' c)"
proof -
  let ?c = "with_hand t h e' c"
  obtain rs where rs: "steady rs (en_wal (cr_engine c))" "framed rs c" using ok by (auto simp: pins_ok_def)
  from log [OF rs(1)] obtain rs' where rs': "steady rs' (en_wal e')"
    "\<forall>r \<in> set rs. wal_lsn r \<in> pending_lsns (en_lsn e') \<longrightarrow> r \<in> set rs'" by blast
  have hand: "cr_hands ?c u = k \<Longrightarrow> cr_hands c u = k \<or> u = t \<and> k = h" for u k by (auto split: if_splits)
  have written: "h \<noteq> Written r" for r using h by (auto simp: ordinary_def)
  have "framed rs' ?c"
    unfolding framed_def
  proof (intro allI impI)
    fix r
    assume r: "r \<in> set (cr_promised ?c) \<or> (\<exists>u. cr_hands ?c u = Written r)" "wr_seq r \<in> pending_lsns (numbers ?c)"
    have "r \<in> set (cr_promised c) \<or> (\<exists>u. cr_hands c u = Written r)" using r(1) hand written by fastforce
    then have "record_of r \<in> set rs" using rs(2) r(2) pend unfolding framed_def by auto
    then show "record_of r \<in> set rs'" using rs'(2) r(2) by (simp add: record_of_def)
  qed
  moreover have in_call: "in_call (cr_hands ?c u) \<subseteq> in_call (cr_hands c u)" for u using h by (simp add: ordinary_def)
  then have "distinct_numbers ?c"
    using ok nxt by (intro distinct_numbersI [of c ?c]) (simp_all add: pins_ok_def)
  moreover have "below_floor ?c"
    using ok h pend unfolding pins_ok_def below_floor_def ordinary_def by auto
  moreover have "full_batches (cr_hands ?c)"
    using ok h unfolding pins_ok_def full_batches_def ordinary_def by auto
  ultimately show ?thesis using rs'(1) assms(3) unfolding pins_ok_def by auto
qed

lemma survivors_keep: "r \<in> set (survivors_of u rs) \<longleftrightarrow> r \<in> set rs \<and> u < wal_lsn r"
  by (auto simp: survivors_of_def)

text \<open>The steps that the floor depends on.\<close>

lemma pins_ok_draw:
  assumes ok: "pins_ok c" and idle: "cr_hands c t = Idle" and "alloc (numbers c) = (seq, s)"
    and nowrap: "next_lsn (numbers c) \<le> next_lsn s" and r: "wr_seq r = seq"
  shows "pins_ok (with_hand t (Numbered r) ((cr_engine c)\<lparr>en_lsn := s\<rparr>) c)" (is "pins_ok ?c")
proof -
  have s: "seq = next_lsn (numbers c)" "next_lsn s = seq + 1" "pending_lsns s = pending_lsns (numbers c)"
    using assms(3) by (auto simp: alloc_def)
  have lt: "seq < next_lsn s" using nowrap s(1,2) by (metis add.right_neutral add_left_cancel order.not_eq_order_implies_strict zero_neq_one)
  have d: "distinct_numbers c" using ok by (simp add: pins_ok_def)
  have old: "q \<in> in_call (cr_hands c u) \<Longrightarrow> wr_seq q < seq" "q \<in> set (cr_promised c) \<Longrightarrow> wr_seq q < seq" for q u
    using d unfolding distinct_numbers_def s(1) by blast+
  have apart: "wr_seq q \<noteq> wr_seq q'"
    if "q \<in> in_call (cr_hands c u)" "q' \<in> set (cr_promised c) \<or> v \<noteq> u \<and> q' \<in> in_call (cr_hands c v)" for q q' u v
    using d that unfolding distinct_numbers_def by (metis imageI)
  have new: "wr_seq r \<noteq> wr_seq q" if "q \<in> set (cr_promised c) \<or> q \<in> in_call (cr_hands c u)" for q u
    using old that r by fastforce
  have hands: "in_call (cr_hands ?c u) = (if u = t then {r} else in_call (cr_hands c u))" for u by simp
  have p: "cr_promised ?c = cr_promised c" and n: "next_lsn (numbers ?c) = next_lsn s" by simp_all
  have "distinct_numbers ?c"
    unfolding distinct_numbers_def hands p n
  proof (intro conjI allI ballI impI)
    fix u q assume q: "q \<in> (if u = t then {r} else in_call (cr_hands c u))"
    show "wr_seq q < next_lsn s" using q old(1) lt r by (auto split: if_splits intro: less_trans)
    show "wr_seq q \<notin> wr_seq ` set (cr_promised c)" using q by (metis apart new imageE singletonD)
    fix v assume v: "v \<noteq> u"
    show "wr_seq q \<notin> wr_seq ` (if v = t then {r} else in_call (cr_hands c v))"
    proof
      assume "wr_seq q \<in> wr_seq ` (if v = t then {r} else in_call (cr_hands c v))"
      then obtain q' where q': "wr_seq q = wr_seq q'" "q' \<in> (if v = t then {r} else in_call (cr_hands c v))" by blast
      consider "u = t" "v \<noteq> t" | "u \<noteq> t" "v = t" | "u \<noteq> t" "v \<noteq> t" using v by blast
      then show False
      proof cases
        case 1
        then show False using q q' new [of q' v] by simp
      next
        case 2
        then show False using q q' new [of q u] by simp
      next
        case 3
        then show False using q q' v apart [of q u q' v] by simp
      qed
    qed
  next
    fix q assume "q \<in> set (cr_promised c)"
    then show "wr_seq q < next_lsn s" using old(2) lt by (blast intro: less_trans)
  qed
  then show ?thesis
    using ok s(3) by (auto simp: pins_ok_def framed_def below_floor_def full_batches_def lsn_inv_def split: if_splits)
qed

lemma pins_ok_pin:
  assumes ok: "pins_ok c" and h: "cr_hands c t = Numbered r" and apart: "windows_apart (cr_hands c)"
  shows "pins_ok (with_hand t (Pinned r) ((cr_engine c)\<lparr>en_lsn := note_pending (wr_seq r) (numbers c)\<rparr>) c)" (is "pins_ok ?c")
proof -
  obtain rs where rs: "steady rs (en_wal (cr_engine c))" "framed rs c" using ok by (auto simp: pins_ok_def)
  have d: "distinct_numbers c" using ok by (simp add: pins_ok_def)
  have other: "wr_seq q \<noteq> wr_seq r" if "q \<in> set (cr_promised c) \<or> (\<exists>u. cr_hands c u = Written q)" for q
  proof -
    have m: "r \<in> in_call (cr_hands c t)" by (simp add: h)
    show ?thesis
      using that
    proof
      assume "\<exists>u. cr_hands c u = Written q"
      then obtain u where u: "cr_hands c u = Written q" by blast
      then have "u \<noteq> t" using h by auto
      then have "wr_seq r \<notin> wr_seq ` in_call (cr_hands c u)" using d m unfolding distinct_numbers_def by blast
      then show ?thesis by (simp add: u eq_commute)
    next
      assume "q \<in> set (cr_promised c)"
      then show ?thesis using d m unfolding distinct_numbers_def by (metis imageI)
    qed
  qed
  have hand: "cr_hands ?c u = k \<Longrightarrow> k \<noteq> Pinned r \<Longrightarrow> cr_hands c u = k" for u k by (auto split: if_splits)
  have "framed rs ?c"
    unfolding framed_def
  proof (intro allI impI)
    fix q
    assume q: "q \<in> set (cr_promised ?c) \<or> (\<exists>u. cr_hands ?c u = Written q)" "wr_seq q \<in> pending_lsns (numbers ?c)"
    have q': "q \<in> set (cr_promised c) \<or> (\<exists>u. cr_hands c u = Written q)" using q(1) hand by fastforce
    then have "wr_seq q \<in> pending_lsns (numbers c)" using q(2) other by (auto simp: note_pending_def)
    then show "record_of q \<in> set rs" using rs(2) q' unfolding framed_def by blast
  qed
  moreover have "below_floor ?c"
    using ok apart h unfolding pins_ok_def below_floor_def windows_apart_def by (auto simp: note_pending_def)
  moreover have "distinct_numbers ?c"
    using d h by (intro distinct_numbersI [of c ?c]) (auto simp: note_pending_def)
  moreover have "full_batches (cr_hands ?c)" using ok unfolding pins_ok_def full_batches_def by auto
  ultimately show ?thesis using rs(1) ok unfolding pins_ok_def by (auto simp: lsn_inv_def note_pending_def)
qed

lemma pins_ok_write:
  assumes ok: "pins_ok c" and h: "cr_hands c t = Pinned r" and fit: "frames_fit (cr_hands c)"
    and "write_durable r (cr_engine c) = (k, e')"
  shows "pins_ok (with_hand t k e' c)" (is "pins_ok ?c")
proof -
  obtain rs where rs: "steady rs (en_wal (cr_engine c))" "framed rs c" using ok by (auto simp: pins_ok_def)
  obtain x w where a: "append_batch [record_of r] (en_wal (cr_engine c)) = (x, w)" by fastforce
  have "all_fit [record_of r]" using fit h by (simp add: frames_fit_def)
  note st = steady_append [OF rs(1) this _ a]
  have k: "k = Written r" and e': "e' = (cr_engine c)\<lparr>en_wal := w\<rparr>"
    using assms(4) a st(2) by (simp_all add: write_durable_def)
  have hand: "cr_hands ?c u = j \<Longrightarrow> j \<noteq> Written r \<Longrightarrow> cr_hands c u = j" for u j by (auto simp: k split: if_splits)
  have "framed (rs @ [record_of r]) ?c"
    unfolding framed_def
  proof (intro allI impI)
    fix q
    assume q: "q \<in> set (cr_promised ?c) \<or> (\<exists>u. cr_hands ?c u = Written q)" "wr_seq q \<in> pending_lsns (numbers ?c)"
    show "record_of q \<in> set (rs @ [record_of r])"
    proof (cases "q = r")
      case False
      then have "q \<in> set (cr_promised c) \<or> (\<exists>u. cr_hands c u = Written q)" using q(1) hand by fastforce
      moreover have "wr_seq q \<in> pending_lsns (numbers c)" using q(2) by (simp add: e')
      ultimately have "record_of q \<in> set rs" using rs(2) unfolding framed_def by blast
      then show ?thesis by simp
    qed simp
  qed
  moreover have "distinct_numbers ?c"
    using ok h by (intro distinct_numbersI [of c ?c]) (auto simp: pins_ok_def e' k)
  ultimately show ?thesis
    using ok st(1) by (auto simp: pins_ok_def e' below_floor_def full_batches_def k)
qed

lemma pins_ok_promise:
  assumes ok: "pins_ok c" and h: "cr_hands c t = Written r"
  shows "pins_ok ((with_hand t Idle ((cr_engine c)\<lparr>en_ring := m\<rparr>) c)\<lparr>cr_promised := r # cr_promised c\<rparr>)" (is "pins_ok ?c")
proof -
  obtain rs where rs: "steady rs (en_wal (cr_engine c))" "framed rs c" using ok by (auto simp: pins_ok_def)
  have fields: "cr_engine ?c = (cr_engine c)\<lparr>en_ring := m\<rparr>" "cr_hands ?c = (cr_hands c)(t := Idle)"
    "set (cr_promised ?c) = insert r (set (cr_promised c))" by simp_all
  have d: "distinct_numbers c" using ok by (simp add: pins_ok_def)
  have far: "wr_seq q \<noteq> wr_seq r" if "q \<in> in_call (cr_hands c u)" "u \<noteq> t" for q u
    using d h that unfolding distinct_numbers_def by (metis in_call.simps(3) imageI singletonI)
  have r: "wr_seq r < next_lsn (numbers c)" using d h unfolding distinct_numbers_def by (metis in_call.simps(3) singletonI)
  have "framed rs ?c" using rs(2) h unfolding framed_def fields by (auto split: if_splits)
  moreover have "distinct_numbers ?c"
    unfolding distinct_numbers_def fields
  proof (intro conjI allI ballI impI)
    fix u q assume q: "q \<in> in_call (((cr_hands c)(t := Idle)) u)"
    then have q': "u \<noteq> t" "q \<in> in_call (cr_hands c u)" by (auto split: if_splits)
    then have b: "wr_seq q < next_lsn (numbers c)" "wr_seq q \<notin> wr_seq ` set (cr_promised c)"
      "\<And>v. v \<noteq> u \<Longrightarrow> wr_seq q \<notin> wr_seq ` in_call (cr_hands c v)" using d unfolding distinct_numbers_def by blast+
    show "wr_seq q < next_lsn (en_lsn ((cr_engine c)\<lparr>en_ring := m\<rparr>))" using b(1) by simp
    show "wr_seq q \<notin> wr_seq ` insert r (set (cr_promised c))" using b(2) far [OF q'(2,1)] by simp
    fix v assume "v \<noteq> u"
    then show "wr_seq q \<notin> wr_seq ` in_call (((cr_hands c)(t := Idle)) v)" using b(3) by simp
  next
    fix q assume "q \<in> insert r (set (cr_promised c))"
    then show "wr_seq q < next_lsn (en_lsn ((cr_engine c)\<lparr>en_ring := m\<rparr>))"
      using r d unfolding distinct_numbers_def by auto
  qed
  ultimately show ?thesis
    using ok rs(1) by (auto simp: pins_ok_def below_floor_def full_batches_def split: if_splits)
qed

lemma pins_ok_weigh:
  assumes ok: "pins_ok c"
  shows "pins_ok (with_hand t (weigh l (cr_engine c)) (cr_engine c) c)" (is "pins_ok ?c")
proof -
  obtain rs where rs: "steady rs (en_wal (cr_engine c))" "framed rs c" using ok by (auto simp: pins_ok_def)
  have inv: "lsn_inv (numbers c)" using ok by (simp add: pins_ok_def)
  have h: "weigh l (cr_engine c) = Idle
      \<or> (\<exists>s. weigh l (cr_engine c) = Weighed s \<and> (\<forall>p \<in> pending_lsns (numbers c). s < p))"
    using watermark_iff [OF inv, of l] by (auto simp: weigh_def split: option.split)
  have "framed rs ?c" using rs(2) h unfolding framed_def by (auto split: if_splits)
  moreover have "distinct_numbers ?c"
    using ok h by (intro distinct_numbersI [of c ?c]) (auto simp: pins_ok_def)
  moreover have "below_floor ?c" "full_batches (cr_hands ?c)"
    using ok h by (auto simp: pins_ok_def below_floor_def full_batches_def split: if_splits)
  ultimately show ?thesis using inv rs(1) by (auto simp: pins_ok_def)
qed

section \<open>Every step\<close>

lemma same_steady: "steady rs w \<Longrightarrow> \<exists>rs'. steady rs' w \<and> (\<forall>r \<in> set rs. P r \<longrightarrow> r \<in> set rs')"
  by blast

lemma pins_ok_calm:
  assumes "pins_ok c" and "ordinary (cr_hands c t) h" and "en_wal e' = en_wal (cr_engine c)" and "en_lsn e' = numbers c"
  shows "pins_ok (with_hand t h e' c)"
  by (rule pins_ok_ordinary [OF assms(1,2)]) (use assms in \<open>auto simp: pins_ok_def intro: same_steady\<close>)

lemma pins_ok_drained:
  assumes "pins_ok c" and "ordinary (cr_hands c t) h"
  shows "pins_ok (with_hand t h ((cr_engine c)\<lparr>en_lsn := note_drained l (numbers c)\<rparr>) c)"
  by (rule pins_ok_ordinary [OF assms])
     (use assms in \<open>auto simp: pins_ok_def lsn_inv_def note_drained_def intro: same_steady\<close>)

lemma pins_ok_accepted:
  "pins_ok (c\<lparr>cr_accepted := acc\<rparr>) = pins_ok c" "pins_ok (c\<lparr>cr_drawn := ds\<rparr>) = pins_ok c"
  by (simp_all add: pins_ok_def framed_def distinct_numbers_def below_floor_def)

lemma ordinary_simps [simp]:
  "ordinary h Idle" "ordinary h (Drawn r)" "ordinary h (carry rs)" "ordinary h (Carrying rs)" "ordinary h (Lifted rs)"
  "ordinary h (Logged sts l k)" "ordinary h (Stored l)" "ordinary h (Refused sts)"
  "ordinary h (Batch sts) \<longleftrightarrow> sts \<noteq> []" "ordinary h (Stamped sts l) \<longleftrightarrow> sts \<noteq> []"
  by (simp_all add: ordinary_def carry_def)

lemma pins_ok_step:
  assumes "crew_step persist c c'" and ok: "pins_ok c" and fit: "frames_fit (cr_hands c)"
    and apart: "windows_apart (cr_hands c)" and nowrap: "next_lsn (numbers c) \<le> next_lsn (numbers c')"
  shows "pins_ok c'"
  using assms(1)
proof (cases rule: crew_step.cases)
  case (draws t seq s h r i v b)
  have nw: "next_lsn (numbers c) \<le> next_lsn s" using nowrap draws(1) by simp
  have s: "next_lsn s = next_lsn (numbers c) + 1" "pending_lsns s = pending_lsns (numbers c)" "lsn_inv s"
    using draws(3) ok by (auto simp: alloc_def pins_ok_def lsn_inv_def)
  have "pins_ok (with_hand t (Drawn r) ((cr_engine c)\<lparr>en_lsn := s\<rparr>) c)"
    by (rule pins_ok_ordinary [OF ok]) (use s nw in \<open>auto intro: same_steady\<close>)
  then show ?thesis
    using draws(1,4,5) pins_ok_draw [OF ok draws(2,3) nw] by (auto simp: pins_ok_accepted)
next
  case (offers t r out m)
  show ?thesis
    unfolding offers(1) pins_ok_accepted by (rule pins_ok_calm [OF ok]) simp_all
next
  case (pins t r)
  then show ?thesis using pins_ok_pin [OF ok _ apart] by simp
next
  case (writes t r h e')
  then show ?thesis using pins_ok_write [OF ok _ fit] by simp
next
  case (unpins t l)
  then show ?thesis using pins_ok_drained [OF ok] by simp
next
  case (promises t r out m)
  then show ?thesis using pins_ok_promise [OF ok] by simp
next
  case (pops t rs r m)
  show ?thesis unfolding pops(1) by (rule pins_ok_calm [OF ok]) simp_all
next
  case (lifts t r rs)
  then show ?thesis using pins_ok_drained [OF ok] by simp
next
  case (applies t r rs)
  show ?thesis unfolding applies(1) by (rule pins_ok_calm [OF ok]) simp_all
next
  case (takes t states e')
  show ?thesis
    unfolding takes(1) by (rule pins_ok_calm [OF ok]) (use take_batch_frame [OF takes(3)] in simp_all)
next
  case (stamps t states l s)
  have "states \<noteq> []" using ok stamps(2) unfolding pins_ok_def full_batches_def by blast
  moreover have "pending_lsns s = pending_lsns (numbers c)" "lsn_inv s"
    using stamps(3) ok by (auto simp: alloc_block_def pins_ok_def lsn_inv_def)
  moreover have "next_lsn (numbers c) \<le> next_lsn s" using nowrap stamps(1) by simp
  ultimately show ?thesis
    unfolding stamps(1) by (intro pins_ok_ordinary [OF ok]) (auto intro: same_steady)
next
  case (logs t states l fallback h e')
  obtain x w where a: "append_batch (stamp l states) (en_wal (cr_engine c)) = (x, w)" by fastforce
  have recs: "all_fit (stamp l states)" using fit logs(2) by (auto simp: frames_fit_def)
  have "states \<noteq> []" using ok logs(2) unfolding pins_ok_def full_batches_def by blast
  then have ne: "stamp l states \<noteq> []" by (metis map_state_stamp list.simps(8))
  have e': "e' = (cr_engine c)\<lparr>en_wal := w\<rparr>" and h: "ordinary k h" for k
    using logs(3) a by (auto simp: append_stamped_def Let_def split: sum.splits)
  show ?thesis
    unfolding logs(1) e'
  proof (rule pins_ok_ordinary [OF ok h])
    fix rs assume "steady rs (en_wal (cr_engine c))"
    from steady_append(1) [OF this recs ne a]
    show "\<exists>rs'. steady rs' (en_wal ((cr_engine c)\<lparr>en_wal := w\<rparr>))
        \<and> (\<forall>r \<in> set rs. wal_lsn r \<in> pending_lsns (en_lsn ((cr_engine c)\<lparr>en_wal := w\<rparr>)) \<longrightarrow> r \<in> set rs')"
      by (intro exI [of _ "rs @ stamp l states"]) simp
  qed (use ok in \<open>simp_all add: pins_ok_def\<close>)
next
  case (persists t states l k h e')
  have "en_wal e' = en_wal (cr_engine c)" "en_lsn e' = numbers c" "ordinary (cr_hands c t) h"
    using persists(3) by (auto simp: try_store_def split: sum.splits prod.splits if_splits)
  then show ?thesis
    unfolding persists(1) by (intro pins_ok_calm [OF ok])
next
  case (weighs t l)
  then show ?thesis using pins_ok_weigh [OF ok] by simp
next
  case (trims t l out w)
  show ?thesis
    unfolding trims(1)
  proof (rule pins_ok_ordinary [OF ok])
    fix rs assume st: "steady rs (en_wal (cr_engine c))"
    have "\<forall>p \<in> pending_lsns (numbers c). l < p" using ok trims(2) unfolding pins_ok_def below_floor_def by blast
    then show "\<exists>rs'. steady rs' (en_wal ((cr_engine c)\<lparr>en_wal := w\<rparr>))
        \<and> (\<forall>r \<in> set rs. wal_lsn r \<in> pending_lsns (en_lsn ((cr_engine c)\<lparr>en_wal := w\<rparr>)) \<longrightarrow> r \<in> set rs')"
      using steady_checkpoint(1) [OF st trims(3)] by (intro exI [of _ "survivors_of l rs"]) (simp add: survivors_keep)
  qed (use ok in \<open>simp_all add: pins_ok_def\<close>)
next
  case (requeues t states)
  show ?thesis unfolding requeues(1) by (rule pins_ok_calm [OF ok]) simp_all
next
  case (counts m k)
  then show ?thesis using ok by (simp add: pins_ok_def framed_def distinct_numbers_def below_floor_def)
qed

lemma apart_reachable_ok:
  assumes "apart_reachable persist e c" and "lsn_inv (en_lsn e)" and "steady rs (en_wal e)"
  shows "pins_ok c \<and> windows_apart (cr_hands c) \<and> frames_fit (cr_hands c)"
  using assms(1)
proof induction
  case start
  then show ?case using pins_ok_start [OF assms(2,3)] by (simp add: windows_apart_def frames_fit_def crew_start_def)
next
  case (step c c')
  then show ?case using pins_ok_step by blast
qed

section \<open>A flush, step by step\<close>

lemma steady_sample: "steady [] sample_log"
  using sample_log_holds(2) by (simp add: steady_def works_def) (simp add: sample_log_def)

lemma flush_to_logged:
  assumes c: "crew_reachable p e c" and t: "cr_hands c t = Idle" and b: "take_batch (cr_engine c) = (sts, e1)" "sts \<noteq> []"
    and l: "alloc_block (word_of_nat (length sts)) (en_lsn e1) = (l, s)"
    and w: "append_batch (stamp l sts) (en_wal e1) = (Inr k, w)" "k \<noteq> 0"
  shows "crew_reachable p e (with_hand t (Logged sts k 0) (e1\<lparr>en_lsn := s, en_wal := w\<rparr>) c)"
proof -
  let ?c1 = "with_hand t (Batch sts) e1 c"
  let ?c2 = "with_hand t (Stamped sts l) (e1\<lparr>en_lsn := s\<rparr>) ?c1"
  let ?c3 = "with_hand t (Logged sts k 0) (e1\<lparr>en_lsn := s, en_wal := w\<rparr>) ?c2"
  have "crew_step p c ?c1" using crew_step.takes [OF t b(1)] b(2) by simp
  moreover have "crew_step p ?c1 ?c2" using crew_step.stamps [of ?c1 t sts l s p] l by simp
  moreover have "crew_step p ?c2 ?c3"
    using crew_step.logs [of ?c2 t sts l True "Logged sts k 0" "e1\<lparr>en_lsn := s, en_wal := w\<rparr>" p] w
    by (simp add: append_stamped_def)
  ultimately have "crew_reachable p e ?c3" using c by (blast intro: crew_reachable.step)
  moreover have "?c3 = with_hand t (Logged sts k 0) (e1\<lparr>en_lsn := s, en_wal := w\<rparr>) c" by (simp add: with_hand_def)
  ultimately show ?thesis by simp
qed

lemma logged_to_stored:
  assumes c: "crew_reachable p e c" and t: "cr_hands c t = Logged sts l k" and b: "p sts (en_store (cr_engine c)) = (Inr (), d)"
  shows "crew_reachable p e (with_hand t (weigh l (cr_engine c)) ((cr_engine c)\<lparr>en_store := d\<rparr>) c)"
proof -
  let ?e = "(cr_engine c)\<lparr>en_store := d\<rparr>"
  let ?c1 = "with_hand t (Stored l) ?e c"
  have "crew_step p c ?c1" by (rule crew_step.persists [OF t]) (simp add: try_store_def b)
  moreover have "crew_step p ?c1 (with_hand t (weigh l ?e) ?e ?c1)" using crew_step.weighs [of ?c1 t l p] by simp
  moreover have "with_hand t (weigh l ?e) ?e ?c1 = with_hand t (weigh l (cr_engine c)) ?e c"
    by (simp add: with_hand_def weigh_def)
  ultimately show ?thesis using c by (metis crew_reachable.step)
qed

lemma one_taken:
  assumes "engine_ok e" and "dirty_set e = {i}" and "live (en_cache e) i = Some st" and "take_batch e = (sts, e1)"
  shows "sts = [st]"
proof -
  note k = take_batch_takes(1) [OF assms(4)]
  have "cache_inv (en_cache e)" using assms(1) by (simp add: engine_ok_def)
  note spec = take_dirty_spec [OF this k]
  have all: "\<forall>s \<in> set sts. s = st" using spec(3) assms(2,3) by auto
  have "length sts = 1" using spec(5) assms(1,2) by (simp add: dirty_len_def engine_ok_def)
  then show ?thesis using all by (cases sts) auto
qed

lemma submit_to_cache:
  assumes c: "crew_reachable p e c" and t: "cr_hands c t = Idle" and ok: "engine_ok (cr_engine c)"
    and ring: "queued (cr_engine c) = []" "0 < ring_capacity (en_ring (cr_engine c))"
    and r: "r = \<lparr>wr_id = i, wr_version = v, wr_blob = b, wr_seq = next_lsn (numbers c)\<rparr>"
    and s: "numbers c = lsn_new l" and e': "e' = (\<lambda>m. (cr_engine c)\<lparr>en_ring := m, en_lsn := lsn_new (l + 1),
      en_cache := cache_apply r (en_cache (cr_engine c))\<rparr>)"
  obtains m where "crew_reachable p e (c\<lparr>cr_engine := e' m, cr_drawn := r # cr_drawn c,
      cr_accepted := to_state r # cr_accepted c\<rparr>)"
    and "engine_ok (e' m)" and "ring_contents m = []" and "ring_capacity m = ring_capacity (en_ring (cr_engine c))"
proof -
  let ?e = "cr_engine c" and ?s = "lsn_new (l + 1)"
  let ?q = "en_ring ?e"
  obtain out m1 where q1: "try_enqueue r ?q = (out, m1)" by fastforce
  have inv: "ring_inv ?q" using ok by (simp add: engine_ok_def)
  have m1: "out = Inr ()" "ring_contents m1 = [r]" "ring_inv m1" "ring_capacity m1 = ring_capacity ?q"
    using ringq.enqueue_ok [OF inv, of r] ringq.inv_enqueue [OF inv, of r] ringq.capacity_enqueue [OF inv, of r] ring q1
    by simp_all
  obtain x m where q2: "try_dequeue m1 = (x, m)" by fastforce
  have m: "x = Some r" "ring_contents m = []" "ring_inv m" "ring_capacity m = ring_capacity ?q"
    using ringq.dequeue_some [OF m1(3,2)] ringq.inv_dequeue [OF m1(3)] ringq.capacity_dequeue [OF m1(3)] m1(4) q2
    by simp_all
  let ?c1 = "(with_hand t (Drawn r) (?e\<lparr>en_lsn := ?s\<rparr>) c)\<lparr>cr_drawn := r # cr_drawn c\<rparr>"
  let ?c2 = "(with_hand t Idle (?e\<lparr>en_lsn := ?s, en_ring := m1\<rparr>) ?c1)\<lparr>cr_accepted := to_state r # cr_accepted c\<rparr>"
  let ?c3 = "with_hand t (Carrying [r]) (?e\<lparr>en_lsn := ?s, en_ring := m\<rparr>) ?c2"
  let ?c4 = "with_hand t (Lifted [r]) (?e\<lparr>en_ring := m, en_lsn := ?s\<rparr>) ?c3"
  let ?c5 = "with_hand t Idle (e' m) ?c4"
  have lift: "note_drained (wr_seq r) ?s = ?s" by (simp add: note_drained_def lsn_new_def)
  have 1: "crew_step p c ?c1"
    using crew_step.draws [OF t, of l ?s Drawn r i v b p] s r by (simp add: alloc_def lsn_new_def)
  have 2: "crew_step p ?c1 ?c2" using crew_step.offers [of ?c1 t r out m1 p] q1 m1(1) by simp
  have 3: "crew_step p ?c2 ?c3" using crew_step.pops [of ?c2 t "[]" r m p] q2 m(1) by (simp add: carry_def)
  have 4: "crew_step p ?c3 ?c4" using crew_step.lifts [of ?c3 t r "[]" p] lift by simp
  have 5: "crew_step p ?c4 ?c5" using crew_step.applies [of ?c4 t r "[]" p] by (simp add: carry_def e')
  note reach = crew_reachable.step
  have "crew_reachable p e ?c5" by (rule reach [OF reach [OF reach [OF reach [OF reach [OF c 1] 2] 3] 4] 5])
  moreover have "?c5 = c\<lparr>cr_engine := e' m, cr_drawn := r # cr_drawn c, cr_accepted := to_state r # cr_accepted c\<rparr>"
    by (simp add: with_hand_def fun_upd_idem t)
  moreover have "engine_ok (e' m)"
    using ok m(3) cache_inv_apply [of "en_cache ?e" r] by (simp add: engine_ok_def e' lsn_inv_def lsn_new_def)
  ultimately show thesis using that m(2,4) by simp
qed

text \<open>Player 7 dirty in the cache of the small engine, all threads idle.\<close>

definition one_dirty :: "ring \<Rightarrow> mock_db engine" where
  "one_dirty m = sample_engine\<lparr>en_ring := m, en_lsn := lsn_new 2, en_cache := cache_apply seventh cache_new\<rparr>"

lemma one_dirty:
  obtains m where "crew_reachable p sample_engine ((crew_start (one_dirty m))\<lparr>cr_drawn := [seventh], cr_accepted := [to_state seventh]\<rparr>)"
    and "engine_ok (one_dirty m)" and "ring_contents m = []" and "ring_capacity m = 2"
proof -
  have "engine_ok sample_engine" using sample_engine_ok by (simp add: pipeline_ok_def)
  moreover have "(cr_engine (crew_start sample_engine))\<lparr>en_ring := m, en_lsn := lsn_new (1 + 1),
      en_cache := cache_apply seventh (en_cache (cr_engine (crew_start sample_engine)))\<rparr> = one_dirty m" for m
    by (simp add: one_dirty_def crew_start_def) (simp add: sample_engine_def)
  moreover have "queued sample_engine = []" "ring_capacity (en_ring sample_engine) = 2"
    by (simp_all add: sample_engine_def sample_ring ring_capacity_2)
  ultimately show thesis
    using that submit_to_cache [OF crew_reachable.start [of p sample_engine], of 0 seventh 7 1 "[1]" 1 "one_dirty"]
    by (auto simp: crew_start_def sample_engine_def lsn_new_def)
qed

lemma one_dirty_simps:
  "en_lsn (one_dirty m) = lsn_new 2" "en_wal (one_dirty m) = sample_log" "en_store (one_dirty m) = mock_new"
  "dirty_set (one_dirty m) = {7}" "live (en_cache (one_dirty m)) 7 = Some (to_state seventh)" "en_ring (one_dirty m) = m"
  by (simp_all add: one_dirty_def dirty_apply live_apply to_state_def lww_put_def) (simp_all add: sample_engine_def)

text \<open>A flush of the only dirty player, up to the watermark.\<close>

lemma take_one:
  assumes "engine_ok e" and "dirty_set e = {i}" and "live (en_cache e) i = Some st"
  obtains e1 where "take_batch e = ([st], e1)" and "engine_ok e1" and "dirty_set e1 = {}"
    and "live (en_cache e1) = live (en_cache e)" and "e1 = e\<lparr>en_cache := en_cache e1, en_takes := Suc (en_takes e)\<rparr>"
proof -
  obtain sts e1 where t: "take_batch e = (sts, e1)" by fastforce
  have id: "ps_id st = i" using assms(1,3) cache_inv_keyed by (auto simp: engine_ok_def keyed_def)
  have sts: "sts = [st]" by (rule one_taken [OF assms t])
  note k = take_batch_ok [OF assms(1) t]
  show thesis
    by (rule that [OF t [unfolded sts] k(1)]) (use k(3,4) assms(2) id sts take_batch_takes(2) [OF t] in auto)
qed

lemma one_logged:
  assumes c: "crew_reachable p e c" and t: "cr_hands c t = Idle" and ok: "engine_ok (cr_engine c)"
    and d: "dirty_set (cr_engine c) = {i}" "live (en_cache (cr_engine c)) i = Some st"
    and n: "numbers c = lsn_new l" "0 < l" "last_lsn (en_wal (cr_engine c)) \<le> l"
    and w: "steady rs (en_wal (cr_engine c))" "all_fit (stamp l [st])"
  obtains e1 where "crew_reachable p e (with_hand t (Logged [st] l 0) e1 c)" and "engine_ok e1" and "dirty_set e1 = {}"
    and "live (en_cache e1) = live (en_cache (cr_engine c))" and "en_lsn e1 = lsn_new (l + 1)"
    and "steady (rs @ stamp l [st]) (en_wal e1)" and "last_lsn (en_wal e1) = l"
    and "en_store e1 = en_store (cr_engine c)" and "en_ring e1 = en_ring (cr_engine c)"
proof -
  let ?e = "cr_engine c"
  obtain e1 where b: "take_batch ?e = ([st], e1)" and ok1: "engine_ok e1" and d1: "dirty_set e1 = {}"
    "live (en_cache e1) = live (en_cache ?e)" by (rule take_one [OF ok d])
  note f = take_batch_frame [OF b]
  obtain x w1 where x: "append_batch (stamp l [st]) (en_wal ?e) = (x, w1)" by fastforce
  note a = steady_append [OF w _ x]
  have l: "x = Inr l" "last_lsn w1 = l" using a n(3) by (simp_all add: stamp_def enumerate_eq_zip)
  let ?e1 = "e1\<lparr>en_lsn := lsn_new (l + 1), en_wal := w1\<rparr>"
  have "crew_reachable p e (with_hand t (Logged [st] l 0) ?e1 c)"
    by (rule flush_to_logged [OF c t b]) (use x l(1) n(1,2) in \<open>simp_all add: f alloc_block_def lsn_new_def\<close>)
  moreover have "engine_ok ?e1" using ok1 by (simp add: engine_ok_def lsn_inv_def lsn_new_def)
  ultimately show thesis using that d1 a(1) l(2) f by simp
qed

lemma one_weighed:
  assumes c: "crew_reachable mock_persist_batch e c" and t: "cr_hands c t = Logged [st] l k"
    and n: "numbers c = lsn_new n" and s: "en_store (cr_engine c) = mock_new"
  obtains d where "crew_reachable mock_persist_batch e (with_hand t (Weighed l) ((cr_engine c)\<lparr>en_store := d\<rparr>) c)"
    and "mock_load d = [ps_id st \<mapsto> st]"
proof -
  obtain d where d: "mock_persist_batch [st] mock_new = (Inr (), d)" "mock_load d = [ps_id st \<mapsto> st]"
    by (simp add: mock_persist_batch_def mock_new_def mock_load_def Let_def)
  have "weigh l (cr_engine c) = Weighed l"
    by (simp add: weigh_def checkpoint_watermark_def first_pending_def n lsn_new_def)
  then show thesis using that logged_to_stored [OF c t, of d] d s by simp
qed

text \<open>A number that becomes pending after another thread has read its watermark.\<close>

lemma late_window:
  assumes c: "crew_reachable p e c" and h: "cr_hands c t = Numbered r" "cr_hands c u = Weighed k" "t \<noteq> u"
    and w: "steady rs (en_wal (cr_engine c))" "fits (record_of r)" "survivors_of k (rs @ [record_of r]) = []"
  obtains c' where "crew_reachable p e c'" and "cr_hands c' = (cr_hands c)(t := Idle, u := Idle)"
    and "cr_promised c' = r # cr_promised c" and "numbers c' = note_pending (wr_seq r) (numbers c)"
    and "en_store (cr_engine c') = en_store (cr_engine c)" and "steady [] (en_wal (cr_engine c'))"
proof -
  obtain c1 where c1: "c1 = with_hand t (Pinned r) ((cr_engine c)\<lparr>en_lsn := note_pending (wr_seq r) (numbers c)\<rparr>) c"
    by blast
  have 1: "crew_reachable p e c1" unfolding c1 by (rule crew_reachable.step [OF c crew_step.pins [OF h(1)]])
  obtain y w2 where a: "append_batch [record_of r] (en_wal (cr_engine c)) = (y, w2)" by fastforce
  note b = steady_append [OF w(1) _ _ a]
  have st: "steady (rs @ [record_of r]) w2" and y: "\<exists>k. y = Inr k" using b(1,2) w(2) by simp_all
  obtain c2 where c2: "c2 = with_hand t (Written r) ((cr_engine c1)\<lparr>en_wal := w2\<rparr>) c1" by blast
  have 2: "crew_reachable p e c2"
    unfolding c2 using crew_step.writes [of c1 t r "Written r" "(cr_engine c1)\<lparr>en_wal := w2\<rparr>"] a y
    by (intro crew_reachable.step [OF 1]) (auto simp: c1 write_durable_def)
  obtain z m where q: "try_enqueue r (en_ring (cr_engine c2)) = (z, m)" by fastforce
  obtain c3 where c3: "c3 = (with_hand t Idle ((cr_engine c2)\<lparr>en_ring := m\<rparr>) c2)\<lparr>cr_promised := r # cr_promised c2\<rparr>"
    by blast
  have 3: "crew_reachable p e c3"
    unfolding c3 using crew_step.promises [of c2 t r z m] q by (intro crew_reachable.step [OF 2]) (simp add: c2)
  obtain v w4 where k: "checkpoint k w2 = (v, w4)" by fastforce
  obtain c4 where c4: "c4 = with_hand u Idle ((cr_engine c3)\<lparr>en_wal := w4\<rparr>) c3" by blast
  have 4: "crew_reachable p e c4"
    unfolding c4 using crew_step.trims [of c3 u k v w4] k h(2,3)
    by (intro crew_reachable.step [OF 3]) (simp add: c3 c2 c1)
  have "steady [] w4" using steady_checkpoint(1) [OF st k] w(3) by simp
  then show thesis
    by (intro that [OF 4]) (simp_all add: c4 c3 c2 c1)
qed

section \<open>What the documents promise and the interleavings break\<close>

text \<open>
  C12: Two windows overlap.  One thread of \<open>submit_durable\<close> has its number but has not marked
  it pending; a flush reads the watermark above it; the number becomes pending, the record is
  appended and synced and the call returns \<open>Ok\<close>; then the flush checkpoints to its
  watermark and deletes the frame.  Afterwards all threads are idle, the number is pending
  still, and a crash finds the acknowledged write neither in the log nor in the store.
\<close>

theorem overlapping_windows_lose_durable_write:
  "\<exists>c a n. crew_reachable mock_persist_batch sample_engine c \<and> (\<forall>t. cr_hands c t = Idle)
    \<and> cr_promised c = [\<lparr>wr_id = 8, wr_version = 1, wr_blob = [9], wr_seq = 2\<rparr>]
    \<and> 2 \<in> pending_lsns (en_lsn (cr_engine c))
    \<and> can_crash (en_wal (cr_engine c)) a n \<and> restarts_with (en_wal (cr_engine c)) a n []
    \<and> mock_load (en_store (cr_engine c)) 8 = None"
proof -
  let ?r = "\<lparr>wr_id = 8, wr_version = 1, wr_blob = [9], wr_seq = 2\<rparr> :: write_request"
  let ?reach = "crew_reachable mock_persist_batch sample_engine" and ?st = "to_state seventh"
  obtain m where 0: "?reach ((crew_start (one_dirty m))\<lparr>cr_drawn := [seventh], cr_accepted := [?st]\<rparr>)"
    (is "crew_reachable _ _ ?c0") and ok: "engine_ok (one_dirty m)" by (rule one_dirty)
  note E0 = one_dirty_simps [of m]
  obtain c1 where c1: "c1 = (with_hand 0 (Numbered ?r) ((one_dirty m)\<lparr>en_lsn := lsn_new 3\<rparr>) ?c0)\<lparr>cr_drawn := ?r # cr_drawn ?c0\<rparr>"
    by blast
  have "crew_step mock_persist_batch ?c0 c1"
    using crew_step.draws [of ?c0 0 2 "lsn_new 3" Numbered ?r 8 1 "[9]" mock_persist_batch]
    by (simp add: c1 crew_start_def E0 alloc_def lsn_new_def)
  then have 1: "?reach c1" by (rule crew_reachable.step [OF 0])
  have pre: "cr_hands c1 1 = Idle" "engine_ok (cr_engine c1)" "dirty_set (cr_engine c1) = {7}"
    "live (en_cache (cr_engine c1)) 7 = Some ?st" "numbers c1 = lsn_new 3" "steady [] (en_wal (cr_engine c1))"
    "last_lsn (en_wal (cr_engine c1)) = 0" "en_store (cr_engine c1) = mock_new" "cr_promised c1 = []"
    using ok steady_sample by (simp_all add: c1 crew_start_def E0 engine_ok_def lsn_inv_def lsn_new_def sample_log_def)
  have "all_fit (stamp 3 [?st])" by (simp add: stamp_def fits_def layout_defs to_state_def enumerate_eq_zip)
  then obtain e2 where 2: "?reach (with_hand 1 (Logged [?st] 3 0) e2 c1)" (is "crew_reachable _ _ ?c2")
    and e2: "en_lsn e2 = lsn_new 4" "steady (stamp 3 [?st]) (en_wal e2)" "en_store e2 = mock_new"
    using one_logged [OF 1 pre(1-5) _ _ pre(6)] pre(7,8) by auto
  obtain d where 3: "?reach (with_hand 1 (Weighed 3) ((cr_engine ?c2)\<lparr>en_store := d\<rparr>) ?c2)" (is "crew_reachable _ _ ?c3")
    and d: "mock_load d = [ps_id ?st \<mapsto> ?st]" using one_weighed [OF 2, of 1 ?st 3 0 4] e2 by auto
  have "fits (record_of ?r)" "survivors_of 3 (stamp 3 [?st] @ [record_of ?r]) = []"
    by (simp_all add: record_of_def fits_def layout_defs survivors_of_def stamp_def enumerate_eq_zip)
  then obtain c where c: "?reach c" "cr_hands c = (cr_hands ?c3)(0 := Idle, 1 := Idle)" "cr_promised c = [?r]"
    "numbers c = note_pending 2 (lsn_new 4)" "en_store (cr_engine c) = d" "steady [] (en_wal (cr_engine c))"
    using late_window [OF 3, of 0 ?r 1 3 "stamp 3 [?st]"] e2 pre(9) by (auto simp: c1)
  have "\<forall>t. cr_hands c t = Idle" "2 \<in> pending_lsns (numbers c)" "mock_load (en_store (cr_engine c)) 8 = None"
    by (simp_all add: c(2,4,5) d c1 crew_start_def note_pending_def to_state_def)
  then show ?thesis using c(1,3) steady_can_crash [OF c(6)] by blast
qed

text \<open>
  C13: A checkpoint takes the frames of another thread's batch.  A batch of one thread is
  appended and synced; before it reaches the store, a second thread logs and stores another
  batch with higher numbers and checkpoints.  A crash now finds the first batch neither in
  the log nor in the store, although the append had returned \<open>Ok\<close>.
\<close>

theorem checkpoint_takes_other_threads_frames:
  "\<exists>c a n. crew_reachable mock_persist_batch sample_engine c
    \<and> to_state seventh \<in> set (cr_accepted c) \<and> cr_hands c = (\<lambda>_. Idle)(0 := Logged [to_state seventh] 2 0)
    \<and> can_crash (en_wal (cr_engine c)) a n \<and> restarts_with (en_wal (cr_engine c)) a n []
    \<and> mock_load (en_store (cr_engine c)) 7 = None"
proof -
  let ?r = "\<lparr>wr_id = 8, wr_version = 1, wr_blob = [9], wr_seq = 3\<rparr> :: write_request"
  let ?st = "to_state seventh" and ?st' = "to_state ?r"
  let ?reach = "crew_reachable mock_persist_batch sample_engine"
  obtain m where 0: "?reach ((crew_start (one_dirty m))\<lparr>cr_drawn := [seventh], cr_accepted := [?st]\<rparr>)" (is "crew_reachable _ _ ?c0")
    and ok: "engine_ok (one_dirty m)" and ring: "ring_contents m = []" "ring_capacity m = 2" by (rule one_dirty)
  note E0 = one_dirty_simps [of m]
  have pre: "cr_hands ?c0 0 = Idle" "engine_ok (cr_engine ?c0)" "dirty_set (cr_engine ?c0) = {7}"
    "live (en_cache (cr_engine ?c0)) 7 = Some ?st" "numbers ?c0 = lsn_new 2" "steady [] (en_wal (cr_engine ?c0))"
    "last_lsn (en_wal (cr_engine ?c0)) = 0" "en_store (cr_engine ?c0) = mock_new"
    using ok steady_sample by (simp_all add: crew_start_def E0 sample_log_def)
  have fit: "all_fit (stamp 2 [?st])" "all_fit (stamp 4 [?st'])"
    by (simp_all add: stamp_def fits_def layout_defs to_state_def enumerate_eq_zip)
  obtain e1 where 1: "?reach (with_hand 0 (Logged [?st] 2 0) e1 ?c0)" (is "crew_reachable _ _ ?c1")
    and e1: "engine_ok e1" "dirty_set e1 = {}" "live (en_cache e1) = live (en_cache (one_dirty m))" "en_lsn e1 = lsn_new 3"
    "steady (stamp 2 [?st]) (en_wal e1)" "last_lsn (en_wal e1) = 2" "en_store e1 = mock_new" "en_ring e1 = m"
    using one_logged [OF 0 pre(1-5) _ _ pre(6) fit(1)] pre(7,8)
    by (auto simp: crew_start_def E0)
  have e18: "live (en_cache e1) 8 = None" by (simp add: e1(3) one_dirty_def live_apply lww_put_def to_state_def)
  have sub: "cr_hands ?c1 1 = Idle" "engine_ok (cr_engine ?c1)" "queued (cr_engine ?c1) = []"
    "0 < ring_capacity (en_ring (cr_engine ?c1))" "numbers ?c1 = lsn_new 3"
    "?r = \<lparr>wr_id = 8, wr_version = 1, wr_blob = [9], wr_seq = next_lsn (numbers ?c1)\<rparr>"
    using e1 ring by (simp_all add: crew_start_def)
  obtain m2 where 2: "?reach (?c1\<lparr>cr_engine := (cr_engine ?c1)\<lparr>en_ring := m2, en_lsn := lsn_new (3 + 1),
      en_cache := cache_apply ?r (en_cache (cr_engine ?c1))\<rparr>, cr_drawn := ?r # cr_drawn ?c1, cr_accepted := ?st' # cr_accepted ?c1\<rparr>)"
      (is "crew_reachable _ _ ?c2")
    and ok2: "engine_ok ((cr_engine ?c1)\<lparr>en_ring := m2, en_lsn := lsn_new (3 + 1),
      en_cache := cache_apply ?r (en_cache (cr_engine ?c1))\<rparr>)"
    using submit_to_cache [OF 1 sub(1-4,6,5) refl] by blast
  obtain c2 where c2: "c2 = ?c2" by blast
  note 2 = 2 [folded c2]
  have ok2: "engine_ok (cr_engine c2)" using ok2 by (simp add: c2)
  have pre2: "cr_hands c2 1 = Idle" "dirty_set (cr_engine c2) = {8}" "live (en_cache (cr_engine c2)) 8 = Some ?st'"
    "numbers c2 = lsn_new 4" "steady (stamp 2 [?st]) (en_wal (cr_engine c2))" "last_lsn (en_wal (cr_engine c2)) = 2"
    "en_store (cr_engine c2) = mock_new" "cr_hands c2 = (\<lambda>_. Idle)(0 := Logged [?st] 2 0)" "cr_accepted c2 = [?st', ?st]"
    using e1 e18 by (simp_all add: c2 crew_start_def dirty_apply live_apply lww_put_def to_state_def)
  obtain e3 where 3: "?reach (with_hand 1 (Logged [?st'] 4 0) e3 c2)" (is "crew_reachable _ _ ?c3")
    and e3: "en_lsn e3 = lsn_new 5" "steady (stamp 2 [?st] @ stamp 4 [?st']) (en_wal e3)" "en_store e3 = mock_new"
    using one_logged [OF 2 pre2(1) ok2 pre2(2-4) _ _ pre2(5) fit(2)] pre2(6,7) by auto
  obtain d where 4: "?reach (with_hand 1 (Weighed 4) ((cr_engine ?c3)\<lparr>en_store := d\<rparr>) ?c3)" (is "crew_reachable _ _ ?c4")
    and d: "mock_load d = [ps_id ?st' \<mapsto> ?st']" using one_weighed [OF 3, of 1 ?st' 4 0 5] e3 by auto
  obtain v w5 where k: "checkpoint 4 (en_wal e3) = (v, w5)" by fastforce
  obtain c5 where c5: "c5 = with_hand 1 Idle ((cr_engine ?c4)\<lparr>en_wal := w5\<rparr>) ?c4" by blast
  have 5: "?reach c5"
    unfolding c5 using crew_step.trims [of ?c4 1 4 v w5] k by (intro crew_reachable.step [OF 4]) simp
  have "steady [] (en_wal (cr_engine c5))"
    using steady_checkpoint(1) [OF e3(2) k] by (simp add: c5 survivors_of_def stamp_def enumerate_eq_zip)
  moreover have "mock_load (en_store (cr_engine c5)) 7 = None" "to_state seventh \<in> set (cr_accepted c5)"
    "cr_hands c5 = (\<lambda>_. Idle)(0 := Logged [?st] 2 0)"
    by (simp_all add: c5 d pre2(8,9) to_state_def fun_eq_iff)
  ultimately show ?thesis using 5 steady_can_crash by blast
qed

text \<open>
  C14: \<open>flush_now\<close> does not wait for other threads.  While another thread carries a batch that is
  in neither log nor store, \<open>flush_now\<close> finds ring and dirty set empty and returns \<open>Ok(0)\<close>;
  a crash after its return loses the accepted state.
\<close>

theorem flush_now_misses_other_threads_batch:
  "\<exists>c e' a n. crew_reachable mock_persist_batch sample_engine c \<and> to_state seventh \<in> set (cr_accepted c)
    \<and> flush_now mock_persist_batch (cr_engine c) = Some (Inr 0, e')
    \<and> can_crash (en_wal e') a n \<and> restarts_with (en_wal e') a n [] \<and> mock_load (en_store e') 7 = None"
proof -
  let ?st = "to_state seventh"
  let ?reach = "crew_reachable mock_persist_batch sample_engine"
  obtain m where 0: "?reach ((crew_start (one_dirty m))\<lparr>cr_drawn := [seventh], cr_accepted := [?st]\<rparr>)" (is "crew_reachable _ _ ?c0")
    and ok: "engine_ok (one_dirty m)" and ring: "ring_contents m = []" by (rule one_dirty)
  note d = one_dirty_simps(4,5) [of m]
  obtain e1 where t: "take_batch (one_dirty m) = ([?st], e1)" and ok1: "engine_ok e1" and d1: "dirty_set e1 = {}"
    and e1: "e1 = (one_dirty m)\<lparr>en_cache := en_cache e1, en_takes := Suc (en_takes (one_dirty m))\<rparr>"
    by (rule take_one [OF ok d])
  have F1: "en_wal e1 = sample_log" "en_store e1 = mock_new" "queued e1 = []"
    by (subst e1, simp add: one_dirty_def ring sample_engine_def)+
  let ?c1 = "with_hand 1 (Batch [?st]) e1 ?c0"
  have "crew_step mock_persist_batch ?c0 ?c1"
    using crew_step.takes [of ?c0 1 "[?st]" e1] t by (simp add: crew_start_def)
  then have 1: "?reach ?c1" by (rule crew_reachable.step [OF 0])
  have "dirty_len (en_cache e1) = 0" using d1 by (simp add: dirty_len_def)
  then have "flush_now mock_persist_batch e1 = Some (Inr 0, e1)"
    using api_drain_empty [OF ok1 F1(3)] by (simp add: flush_now_def flush_now_loop.simps)
  moreover obtain u n where "can_crash sample_log u n" "restarts_with sample_log u n []"
    using steady_can_crash [OF steady_sample] by blast
  moreover have "mock_load (en_store e1) 7 = None" by (simp add: F1 mock_load_def mock_new_def)
  ultimately show ?thesis
    using 1 F1(1) by (intro exI [of _ ?c1] exI [of _ e1] exI [of _ u] exI [of _ n]) (simp add: crew_start_def)
qed

section \<open>What the floor does guarantee\<close>

text \<open>
  C7: While the two windows stay apart the floor holds. From a fsynced log whose directory entry
  is stable and whose records are settled, on a disk whose calls do not fail, in every
  interleaving in which no thread holds a number that is not yet pending at or below a watermark
  in use, frames fit and the counter does not wrap: as long as the number of an acknowledged
  durable write is pending, every crash is followed by a restart that recovers its record.
\<close>

theorem pending_durable_write_survives:
  assumes "lsn_inv (en_lsn e)" and "steady rs (en_wal e)" and "apart_reachable persist e c"
    and "r \<in> set (cr_promised c)" and "wr_seq r \<in> pending_lsns (en_lsn (cr_engine c))"
    and "can_crash (en_wal (cr_engine c)) a n"
  shows "\<exists>rs'. restarts_with (en_wal (cr_engine c)) a n rs' \<and> record_of r \<in> set rs'"
proof -
  have "pins_ok c" using apart_reachable_ok [OF assms(3,1,2)] by blast
  then obtain rs' where "steady rs' (en_wal (cr_engine c))" "framed rs' c" by (auto simp: pins_ok_def)
  then show ?thesis using assms(4-6) steady_crash unfolding framed_def by blast
qed

theorem pending_durable_write_survives_witness:
  "\<exists>c a n rs'. apart_reachable mock_persist_batch sample_engine c \<and> cr_promised c = [seventh]
    \<and> can_crash (en_wal (cr_engine c)) a n
    \<and> restarts_with (en_wal (cr_engine c)) a n rs' \<and> record_of seventh \<in> set rs'"
proof -
  let ?apart = "apart_reachable mock_persist_batch sample_engine"
  obtain c0 :: "mock_db crew" where c0: "c0 = crew_start sample_engine" by blast
  have 0: "?apart c0" unfolding c0 by (rule apart_reachable.start)
  have E0: "numbers c0 = lsn_new 1" "en_wal (cr_engine c0) = sample_log" "cr_hands c0 = (\<lambda>_. Idle)" "cr_promised c0 = []"
    by (simp_all add: c0 crew_start_def) (simp_all add: sample_engine_def)
  obtain c1 where c1: "c1 = (with_hand 0 (Numbered seventh) ((cr_engine c0)\<lparr>en_lsn := lsn_new 2\<rparr>) c0)
      \<lparr>cr_drawn := seventh # cr_drawn c0\<rparr>" by blast
  have "crew_step mock_persist_batch c0 c1"
    using crew_step.draws [of c0 0 1 "lsn_new 2" Numbered seventh 7 1 "[1]" mock_persist_batch]
    by (simp add: c1 E0 alloc_def lsn_new_def)
  then have 1: "?apart c1"
    by (rule apart_reachable.step [OF 0]) (simp_all add: c1 E0 windows_apart_def frames_fit_def lsn_new_def)
  obtain c2 where c2: "c2 = with_hand 0 (Pinned seventh) ((cr_engine c1)\<lparr>en_lsn := note_pending 1 (numbers c1)\<rparr>) c1" by blast
  have "crew_step mock_persist_batch c1 c2" unfolding c2 using crew_step.pins [of c1 0 seventh] by (simp add: c1)
  moreover have fit: "all_fit [record_of seventh]" by (simp add: record_of_def fits_def layout_defs)
  ultimately have 2: "?apart c2"
    by (intro apart_reachable.step [OF 1]) (simp_all add: c2 c1 E0 windows_apart_def frames_fit_def note_pending_def)
  obtain x w where a: "append_batch [record_of seventh] sample_log = (x, w)" by fastforce
  have x: "\<exists>k. x = Inr k" using steady_append(2) [OF steady_sample fit _ a] by simp
  obtain c3 where c3: "c3 = with_hand 0 (Written seventh) ((cr_engine c2)\<lparr>en_wal := w\<rparr>) c2" by blast
  have "crew_step mock_persist_batch c2 c3"
    unfolding c3 using crew_step.writes [of c2 0 seventh "Written seventh" "(cr_engine c2)\<lparr>en_wal := w\<rparr>"] a x
    by (auto simp: c2 c1 E0 write_durable_def)
  then have 3: "?apart c3"
    by (rule apart_reachable.step [OF 2]) (simp_all add: c3 c2 c1 E0 windows_apart_def frames_fit_def)
  obtain z m where q: "try_enqueue seventh (en_ring (cr_engine c3)) = (z, m)" by fastforce
  obtain c4 where c4: "c4 = (with_hand 0 Idle ((cr_engine c3)\<lparr>en_ring := m\<rparr>) c3)\<lparr>cr_promised := seventh # cr_promised c3\<rparr>" by blast
  have "crew_step mock_persist_batch c3 c4" unfolding c4 using crew_step.promises [of c3 0 seventh z m] q by (simp add: c3)
  then have 4: "?apart c4"
    by (rule apart_reachable.step [OF 3]) (simp_all add: c4 c3 c2 c1 E0 windows_apart_def frames_fit_def)
  have F4: "cr_promised c4 = [seventh]" "1 \<in> pending_lsns (numbers c4)"
    by (simp_all add: c4 c3 c2 c1 E0 note_pending_def)
  have inv: "lsn_inv (en_lsn sample_engine)" "steady [] (en_wal sample_engine)"
    using steady_sample by (simp_all add: sample_engine_def lsn_inv_def lsn_new_def)
  have "pins_ok c4" using apart_reachable_ok [OF 4 inv] by blast
  then obtain a n where "can_crash (en_wal (cr_engine c4)) a n" using steady_can_crash unfolding pins_ok_def by blast
  then show ?thesis using pending_durable_write_survives [OF inv 4, of seventh a n] F4 4 by auto
qed

end
