(* ===== verification/Crew_Calls.thy ===== *)
theory Crew_Calls
  imports Crew_Safety
begin

text \<open>
  The methods of \<open>Engine\<close>, run alone by one thread, are runs of the step relation of \<open>Crew\<close>:
  the worker's loop with its final drain, \<open>flush_now\<close>, \<open>submit\<close> and \<open>submit_durable\<close>.  What
  holds in every reachable state of the threads therefore holds between any two calls.
\<close>

section \<open>One thread's steps\<close>

abbreviation crew_run :: "'d persist \<Rightarrow> 'd crew \<Rightarrow> 'd crew \<Rightarrow> bool" where
  "crew_run p \<equiv> (crew_step p)\<^sup>*\<^sup>*"

lemma with_hand_twice [simp]: "with_hand t h' e' (with_hand t h e c) = with_hand t h' e' c"
  by (simp add: with_hand_def)

lemma with_hand_engine [simp]: "(with_hand t h e c)\<lparr>cr_engine := e'\<rparr> = with_hand t h e' c"
  by (simp add: with_hand_def)

lemma with_hand_same: "cr_hands c t = h \<Longrightarrow> with_hand t h e c = c\<lparr>cr_engine := e\<rparr>"
  by (auto simp: with_hand_def)

lemma crew_run_reachable: "crew_run p c c' \<Longrightarrow> crew_reachable p e c \<Longrightarrow> crew_reachable p e c'"
  by (induction rule: rtranclp_induct) (auto intro: crew_reachable.step)

lemma run_step: "crew_run p c c1 \<Longrightarrow> crew_step p c1 c2 \<Longrightarrow> crew_run p c c2"
  by (rule rtranclp.rtrancl_into_rtrancl)

lemma run_count: "crew_run p (with_hand t h e c) (with_hand t h (e\<lparr>en_metrics := m, en_clock := k\<rparr>) c)"
  using crew_step.counts [of p "with_hand t h e c" k m] by auto

lemma run_bump: "crew_run p (with_hand t h e c) (with_hand t h (bump f e) c)"
  using run_count [of p t h e c "en_clock e" "f (en_metrics e)"] by (simp add: bump_def)

lemma run_elapsed: "elapsed e = (n, e') \<Longrightarrow> crew_run p (with_hand t h e c) (with_hand t h e' c)"
  using run_count [of p t h e c "tl (en_clock e)" "en_metrics e"] by (auto simp: elapsed_def split: list.splits)

section \<open>Draining\<close>

lemma run_pops:
  "ring_inv m \<Longrightarrow> drain_into n m = (rs, m') \<Longrightarrow>
    crew_run p (with_hand t (carry qs) (e\<lparr>en_ring := m\<rparr>) c) (with_hand t (carry (qs @ rs)) (e\<lparr>en_ring := m'\<rparr>) c)"
proof (induction n arbitrary: m rs qs)
  case (Suc n)
  let ?c = "with_hand t (carry qs) (e\<lparr>en_ring := m\<rparr>) c"
  show ?case
    using Suc.prems(1)
  proof (cases rule: ring_dequeue_cases)
    case (1 x)
    obtain rs' where rs': "drain_into n (popped m) = (rs', m')" "rs = x # rs'"
      using Suc.prems(2) 1(2) by (auto split: prod.splits)
    have "ring_inv (popped m)" using ringq.inv_dequeue [OF Suc.prems(1)] 1(2) by simp
    from Suc.IH [OF this rs'(1), of "qs @ [x]"] have
      "crew_run p (with_hand t (Carrying (qs @ [x])) (e\<lparr>en_ring := popped m\<rparr>) c) (with_hand t (carry (qs @ rs)) (e\<lparr>en_ring := m'\<rparr>) c)"
      by (simp add: carry_def rs'(2))
    moreover have "crew_step p ?c (with_hand t (Carrying (qs @ [x])) (e\<lparr>en_ring := popped m\<rparr>) c)"
      using crew_step.pops [of ?c t qs x "popped m" p] 1(2) by simp
    ultimately show ?thesis by (blast intro: converse_rtranclp_into_rtranclp)
  next
    case 2
    then show ?thesis using Suc.prems(2) by simp
  qed
qed simp

lemma run_applies: "crew_run p (with_hand t (carry rs) e c) (with_hand t Idle (fold apply_drained rs e) c)"
proof (induction rs arbitrary: e)
  case (Cons r rs)
  let ?c0 = "with_hand t (Carrying (r # rs)) e c"
  let ?e1 = "e\<lparr>en_lsn := note_drained (wr_seq r) (en_lsn e)\<rparr>"
  let ?c1 = "with_hand t (Lifted (r # rs)) ?e1 c"
  have 1: "crew_step p ?c0 ?c1" using crew_step.lifts [of ?c0 t r rs p] by simp
  have 2: "crew_step p ?c1 (with_hand t (carry rs) (apply_drained r e) c)"
    using crew_step.applies [of ?c1 t r rs p] by (simp add: apply_drained_def)
  from Cons.IH [of "apply_drained r e"] show ?case
    using 1 2 by (auto simp: carry_def [of "r # rs"] intro: converse_rtranclp_into_rtranclp)
qed (simp add: carry_def)

lemma run_drain:
  assumes "engine_ok e" and "drain_up_to n e = (k, e')"
  shows "crew_run p (with_hand t Idle e c) (with_hand t Idle e' c)"
proof -
  obtain rs m where d: "drain_into n (en_ring e) = (rs, m)" by fastforce
  have e': "e' = fold apply_drained rs (e\<lparr>en_ring := m\<rparr>)" using assms(2) by (auto simp: drain_up_to_def d)
  have "ring_inv (en_ring e)" using assms(1) by (simp add: engine_ok_def)
  from run_pops [OF this d, where qs = "[]" and e = e]
  have "crew_run p (with_hand t Idle e c) (with_hand t (carry rs) (e\<lparr>en_ring := m\<rparr>) c)" by (simp add: carry_def)
  then show ?thesis using run_applies [of p t rs "e\<lparr>en_ring := m\<rparr>" c] unfolding e' by (rule rtranclp_trans)
qed

section \<open>Flushing\<close>

lemma run_persist:
  "persist_loop p sts k e = (r, e') \<Longrightarrow>
    crew_run p (with_hand t (Logged sts l k) e c) (with_hand t (if r = Persisted then Stored l else Refused sts) e' c)"
proof (induction "limit_of e - k" arbitrary: k e rule: less_induct)
  case less
  let ?c = "with_hand t (Logged sts l k) e c"
  obtain x d where x: "p sts (en_store e) = (x, d)" by fastforce
  have step: "crew_step p ?c (with_hand t h (e\<lparr>en_store := d\<rparr>) c)"
    if "try_store p sts l k e = (h, e\<lparr>en_store := d\<rparr>)" for h
    using crew_step.persists [of ?c t sts l k p h "e\<lparr>en_store := d\<rparr>"] that by simp
  show ?case
  proof (cases "retry_again x \<and> Suc k < limit_of e")
    case True
    let ?e = "bump record_store_retry (e\<lparr>en_store := d\<rparr>)"
    obtain err where err: "x = Inl err" using True by (auto simp: retry_again_def)
    have "persist_loop p sts (Suc k) ?e = (r, e')" using less.prems True x by (simp add: persist_loop_eq [of p sts k e] err)
    moreover have "limit_of ?e - Suc k < limit_of e - k" using True by (simp add: diff_less_mono2)
    ultimately have "crew_run p (with_hand t (Logged sts l (Suc k)) ?e c)
        (with_hand t (if r = Persisted then Stored l else Refused sts) e' c)" using less.hyps by blast
    moreover have "crew_step p ?c (with_hand t (Logged sts l (Suc k)) (e\<lparr>en_store := d\<rparr>) c)"
      by (rule step) (use True x err in \<open>auto simp: try_store_def retry_again_def\<close>)
    ultimately show ?thesis
      using run_bump by (meson converse_rtranclp_into_rtranclp rtranclp_trans)
  next
    case False
    then have "e' = e\<lparr>en_store := d\<rparr>" "r = (if x = Inr () then Persisted else Failed)"
      using less.prems x by (cases x; auto simp: persist_loop_eq [of p sts k e])+
    moreover have "try_store p sts l k e = (if x = Inr () then Stored l else Refused sts, e\<lparr>en_store := d\<rparr>)"
      using False x by (cases x) (auto simp: try_store_def retry_again_def)
    ultimately show ?thesis using step by auto
  qed
qed

lemma run_weigh:
  "crew_run p (with_hand t (Stored l) e c) (with_hand t Idle
    (case checkpoint_watermark (en_lsn e) l of Some s \<Rightarrow> e\<lparr>en_wal := snd (checkpoint s (en_wal e))\<rparr> | None \<Rightarrow> e) c)"
proof -
  let ?c = "with_hand t (Stored l) e c"
  have 1: "crew_step p ?c (with_hand t (weigh l e) e c)" using crew_step.weighs [of ?c t l p] by simp
  show ?thesis
  proof (cases "checkpoint_watermark (en_lsn e) l")
    case (Some s)
    let ?c1 = "with_hand t (Weighed s) e c"
    obtain x w where k: "checkpoint s (en_wal e) = (x, w)" by fastforce
    have "crew_step p ?c1 (with_hand t Idle (e\<lparr>en_wal := w\<rparr>) c)" using crew_step.trims [of ?c1 t s x w p] k by simp
    then show ?thesis using 1 by (simp add: weigh_def Some k)
  qed (use 1 in \<open>simp add: weigh_def r_into_rtranclp\<close>)
qed

lemma run_requeue:
  "crew_run p (with_hand t (Refused sts) e c) (with_hand t Idle (e\<lparr>en_cache := requeue_dirty sts (en_cache e)\<rparr>) c)"
  using crew_step.requeues [of "with_hand t (Refused sts) e c" t sts p] by auto

text \<open>Numbering and logging a batch.\<close>

lemma run_log:
  assumes "alloc_block (word_of_nat (length sts)) (en_lsn e) = (l, s)" and "append_batch (stamp l sts) (en_wal e) = (x, w)"
  shows "crew_run p (with_hand t (Batch sts) e c)
    (with_hand t (fst (append_stamped b sts l (e\<lparr>en_lsn := s\<rparr>))) (e\<lparr>en_lsn := s, en_wal := w\<rparr>) c)"
proof -
  let ?c = "with_hand t (Batch sts) e c" and ?c1 = "with_hand t (Stamped sts l) (e\<lparr>en_lsn := s\<rparr>) c"
  have 1: "crew_step p ?c ?c1" using crew_step.stamps [of ?c t sts l s p] assms(1) by simp
  have "append_stamped b sts l (e\<lparr>en_lsn := s\<rparr>)
      = (fst (append_stamped b sts l (e\<lparr>en_lsn := s\<rparr>)), e\<lparr>en_lsn := s, en_wal := w\<rparr>)"
    using assms(2) by (simp add: append_stamped_def Let_def split: sum.split)
  then have "crew_step p ?c1 (with_hand t (fst (append_stamped b sts l (e\<lparr>en_lsn := s\<rparr>))) (e\<lparr>en_lsn := s, en_wal := w\<rparr>) ?c1)"
    by (intro crew_step.logs) simp_all
  then have 2: "crew_step p ?c1 (with_hand t (fst (append_stamped b sts l (e\<lparr>en_lsn := s\<rparr>))) (e\<lparr>en_lsn := s, en_wal := w\<rparr>) c)"
    by (simp only: with_hand_twice)
  show ?thesis by (rule converse_rtranclp_into_rtranclp [OF 1 r_into_rtranclp [of "crew_step p", OF 2]])
qed

lemma run_flush_batch:
  assumes "flush_batch p sts e = (ok, e')"
  shows "crew_run p (with_hand t (Batch sts) e c) (with_hand t Idle e' c)"
proof -
  let ?run = "crew_run p"
  obtain l s where l: "alloc_block (word_of_nat (length sts)) (en_lsn e) = (l, s)" by fastforce
  obtain x w where a: "append_batch (stamp l sts) (en_wal e) = (x, w)" by fastforce
  let ?e1 = "e\<lparr>en_lsn := s, en_wal := w\<rparr>"
  note log = run_log [OF l a, of p t c True]
  show ?thesis
  proof (cases x)
    case (Inl err)
    let ?e2 = "?e1\<lparr>en_cache := requeue_dirty sts (en_cache e)\<rparr>"
    have "e' = bump record_store_error ?e2" using assms l a Inl by (simp add: flush_batch_def)
    moreover have "?run (with_hand t (Batch sts) e c) (with_hand t (Refused sts) ?e1 c)"
      using log a Inl by (simp add: append_stamped_def Let_def)
    moreover have "?run (with_hand t (Refused sts) ?e1 c) (with_hand t Idle ?e2 c)"
      using run_requeue [of p t sts ?e1 c] by simp
    ultimately show ?thesis using run_bump by (metis rtranclp_trans)
  next
    case (Inr k)
    let ?k = "if k = 0 then (if sts = [] then 0 else wal_lsn (last (stamp l sts))) else k"
    obtain n e1 where n: "elapsed ?e1 = (n, e1)" by fastforce
    let ?e2 = "bump (record_wal_append (length (stamp l sts)) n) e1"
    obtain r e3 where r: "persist_loop p sts 0 ?e2 = (r, e3)" by fastforce
    have 1: "?run (with_hand t (Batch sts) e c) (with_hand t (Logged sts ?k 0) ?e1 c)"
      using log a Inr by (simp add: append_stamped_def Let_def)
    have 2: "?run (with_hand t (Logged sts ?k 0) ?e1 c) (with_hand t (Logged sts ?k 0) ?e2 c)"
      using run_elapsed [OF n] run_bump by (rule rtranclp_trans)
    note 3 = run_persist [OF r, of t ?k c]
    note up = rtranclp_trans [OF rtranclp_trans [OF 1 2] 3]
    show ?thesis
    proof (cases r)
      case Persisted
      let ?e4 = "case checkpoint_watermark (en_lsn e3) ?k of
        Some s \<Rightarrow> e3\<lparr>en_wal := snd (checkpoint s (en_wal e3))\<rparr> | None \<Rightarrow> e3"
      obtain m e5 where m: "elapsed ?e4 = (m, e5)" by fastforce
      have "e' = bump (record_flush (length sts) m) e5"
        using assms l a Inr n r m Persisted
        by (simp add: flush_batch_def persist_with_retry_def Let_def split: if_splits)
      moreover have "?run (with_hand t (Batch sts) e c) (with_hand t (Stored ?k) e3 c)"
        using up by (simp only: Persisted simp_thms if_True)
      from rtranclp_trans [OF rtranclp_trans [OF this run_weigh] run_elapsed [OF m]]
      have "?run (with_hand t (Batch sts) e c) (with_hand t Idle e5 c)" .
      ultimately show ?thesis using run_bump by (metis rtranclp_trans)
    next
      case Failed
      have "e' = bump record_store_error (e3\<lparr>en_cache := requeue_dirty sts (en_cache e3)\<rparr>)"
        using assms l a Inr n r Failed by (simp add: flush_batch_def persist_with_retry_def Let_def)
      moreover have "?run (with_hand t (Batch sts) e c) (with_hand t (Refused sts) e3 c)"
        using up by (simp add: Failed)
      from rtranclp_trans [OF this run_requeue]
      have "?run (with_hand t (Batch sts) e c) (with_hand t Idle (e3\<lparr>en_cache := requeue_dirty sts (en_cache e3)\<rparr>) c)" .
      ultimately show ?thesis using run_bump by (metis rtranclp_trans)
    qed
  qed
qed

lemma run_take:
  assumes "take_batch e = (sts, e1)"
  shows "crew_run p (with_hand t Idle e c) (with_hand t (if sts = [] then Idle else Batch sts) e1 c)"
  using crew_step.takes [of "with_hand t Idle e c" t sts e1 p] assms by auto

lemma run_take_some:
  assumes "take_batch e = (sts, e1)" and "sts \<noteq> []"
  shows "crew_run p (with_hand t Idle e c) (with_hand t (Batch sts) e1 c)"
  using run_take [OF assms(1), of p t c] assms(2) by simp

section \<open>The worker\<close>

definition alone :: "'d persist \<Rightarrow> nat \<Rightarrow> 'd crew \<Rightarrow> 'd engine \<Rightarrow> 'd engine \<Rightarrow> bool" where
  "alone p t c e e' \<longleftrightarrow> crew_run p (with_hand t Idle e c) (with_hand t Idle e' c)"

lemma alone_trans: "alone p t c e1 e2 \<Longrightarrow> alone p t c e2 e3 \<Longrightarrow> alone p t c e1 e3"
  unfolding alone_def by (rule rtranclp_trans)

lemma alone_refl [simp]: "alone p t c e e"
  by (simp add: alone_def)

lemma alone_flush_batch:
  assumes "take_batch e = (sts, e1)" and "sts \<noteq> []" and "flush_batch p sts e1 = (ok, e2)"
  shows "alone p t c e e2"
  unfolding alone_def by (rule rtranclp_trans [OF run_take_some [OF assms(1,2)] run_flush_batch [OF assms(3)]])

lemma alone_flush:
  assumes "engine_ok e" and "flush p e = Some e'"
  shows "alone p t c e e'"
proof -
  have "\<exists>e'. flush p e = Some e' \<and> alone p t c e e'"
    using assms(1)
  proof (induction rule: flush_induct)
    case (clean e e1)
    then show ?case using run_take [OF clean(2), of p t c] by (simp add: alone_def)
  next
    case (failed e sts e1 e2)
    then show ?case by (blast intro: alone_flush_batch)
  next
    case (persisted e sts e1 e2 e3)
    then show ?case by (blast intro: alone_flush_batch alone_trans)
  qed
  then show ?thesis using assms(2) by simp
qed

lemma alone_drain: "engine_ok e \<Longrightarrow> drain_up_to n e = (k, e') \<Longrightarrow> alone p t c e e'"
  unfolding alone_def by (rule run_drain)

lemma flush_engine_ok: "engine_ok e \<Longrightarrow> flush p e = Some e' \<Longrightarrow> engine_ok e'"
  using flush_ok [of e p] by auto

lemma alone_final_drain:
  assumes "engine_ok e" and "final_drain p k e = Some e'"
  shows "alone p t c e e'"
proof -
  have drain: "engine_ok a1 \<and> alone p t c a a1" if "engine_ok a" "drain_ring_into_cache a = (j, a1)" for a j a1
    using alone_drain [OF that(1) that(2) [unfolded drain_ring_is]] drain_ok [OF that] by simp
  have flush: "engine_ok a1 \<and> alone p t c a a1" if "engine_ok a" "flush p a = Some a1" for a a1
    using alone_flush [OF that] flush_engine_ok [OF that] by simp
  have "\<exists>x. final_drain p k e = Some x \<and> engine_ok x \<and> alone p t c e x \<and>
    (ring_is_empty (en_ring x) \<and> dirty_set x = {}
     \<or> (\<exists>y. engine_ok y \<and> flush p y = Some x \<and> dirty_set y \<noteq> {} \<and> dirty_len (en_cache y) \<le> dirty_len (en_cache x)))"
    by (rule final_drain_rule [where I = engine_ok and Q = "alone p t c", OF assms(1)];
        (assumption | erule (1) drain | erule (1) flush | erule (1) alone_trans))
  then show ?thesis using assms(2) by auto
qed

lemma alone_worker_step:
  assumes "engine_ok e" and "worker_step p tick e = Some e'"
  shows "alone p t c e e' \<and> engine_ok e'"
proof -
  obtain k e1 where d: "drain_up_to (drain_size e) e = (k, e1)" by fastforce
  have d1: "alone p t c e e1" "engine_ok e1" using alone_drain [OF assms(1) d] drain_up_to_effect(5) [OF assms(1) d] by simp_all
  have "worker_step p tick e = flush p e1 \<or> worker_step p tick e = Some e1"
    by (simp add: worker_step_def drain_ring_is d Let_def)
  then consider "flush p e1 = Some e'" | "e' = e1" using assms(2) by auto
  then show ?thesis
  proof cases
    case 1
    then show ?thesis
      using alone_trans [OF d1(1) alone_flush [OF d1(2)]] flush_engine_ok [OF d1(2)] by simp
  qed (use d1 in simp)
qed

lemma alone_worker: "engine_ok e \<Longrightarrow> run p ts e = Some e' \<Longrightarrow> alone p t c e e'"
proof (induction ts arbitrary: e)
  case Nil
  then show ?case using alone_final_drain by simp
next
  case (Cons tick ts)
  then obtain e1 where e1: "worker_step p tick e = Some e1" "run p ts e1 = Some e'" by (auto simp: bind_eq_Some_conv)
  note w = alone_worker_step [OF Cons.prems(1) e1(1), of t c]
  show ?case by (rule alone_trans [OF conjunct1 [OF w] Cons.IH [OF conjunct2 [OF w] e1(2)]])
qed

section \<open>The engine's methods\<close>

lemma run_flush_states_loop:
  "flush_states_loop p sts l k e = (r, e') \<Longrightarrow> crew_run p (with_hand t (Logged sts l k) e c) (with_hand t Idle e' c)"
proof (induction "limit_of e - k" arbitrary: k e rule: less_induct)
  case less
  let ?c = "with_hand t (Logged sts l k) e c"
  obtain x d where x: "p sts (en_store e) = (x, d)" by fastforce
  let ?e1 = "e\<lparr>en_store := d\<rparr>"
  have step: "crew_run p ?c (with_hand t h ?e1 c)" if "try_store p sts l k e = (h, ?e1)" for h
    using crew_step.persists [of ?c t sts l k p h ?e1] that by auto
  show ?case
  proof (cases x)
    case (Inr u)
    let ?w = "case checkpoint_watermark (en_lsn ?e1) l of Some s \<Rightarrow> ?e1\<lparr>en_wal := snd (checkpoint s (en_wal ?e1))\<rparr> | None \<Rightarrow> ?e1"
    have "crew_run p ?c (with_hand t (Stored l) ?e1 c)" by (rule step) (simp add: try_store_def x Inr)
    then have 1: "crew_run p ?c (with_hand t Idle ?w c)" using run_weigh by (rule rtranclp_trans)
    obtain n e2 where el: "elapsed ?w = (n, e2)" by fastforce
    have "e' = ?w \<or> e' = bump (record_flush (length sts) n) e2"
      using less.prems el
      by (auto simp: flush_states_loop.simps [of p sts l k e] x Inr Let_def split: option.splits sum.splits prod.splits)
    then show ?thesis
    proof
      assume "e' = ?w"
      then show ?thesis using 1 by (simp only:)
    next
      assume "e' = bump (record_flush (length sts) n) e2"
      then show ?thesis using rtranclp_trans [OF rtranclp_trans [OF 1 run_elapsed [OF el]] run_bump] by (simp only:)
    qed
  next
    case (Inl err)
    show ?thesis
    proof (cases "\<not> is_retryable err \<or> limit_of e \<le> Suc k")
      case True
      have "crew_run p ?c (with_hand t (Refused sts) ?e1 c)"
        by (rule step) (use True in \<open>simp add: try_store_def x Inl\<close>)
      from rtranclp_trans [OF this run_requeue]
      have "crew_run p ?c (with_hand t Idle (?e1\<lparr>en_cache := requeue_dirty sts (en_cache ?e1)\<rparr>) c)" .
      moreover have "e' = bump record_store_error (?e1\<lparr>en_cache := requeue_dirty sts (en_cache ?e1)\<rparr>)"
        using less.prems True by (simp add: flush_states_loop.simps [of p sts l k e] x Inl)
      ultimately show ?thesis using run_bump by (metis rtranclp_trans)
    next
      case False
      let ?e2 = "bump record_store_retry ?e1"
      have "crew_run p ?c (with_hand t (Logged sts l (Suc k)) ?e1 c)"
        by (rule step) (use False in \<open>simp add: try_store_def x Inl\<close>)
      then have 1: "crew_run p ?c (with_hand t (Logged sts l (Suc k)) ?e2 c)" using run_bump by (rule rtranclp_trans)
      have "flush_states_loop p sts l (Suc k) ?e2 = (r, e')"
        using less.prems False by (simp add: flush_states_loop.simps [of p sts l k e] x Inl)
      moreover have "limit_of ?e2 - Suc k < limit_of e - k" using False by (simp add: diff_less_mono2)
      ultimately have "crew_run p (with_hand t (Logged sts l (Suc k)) ?e2 c) (with_hand t Idle e' c)" using less.hyps by blast
      with 1 show ?thesis by (rule rtranclp_trans)
    qed
  qed
qed

lemma run_flush_states:
  assumes "flush_states p sts e = (r, e')"
  shows "crew_run p (with_hand t (Batch sts) e c) (with_hand t Idle e' c)"
proof -
  obtain l s where l: "alloc_block (word_of_nat (length sts)) (en_lsn e) = (l, s)" by fastforce
  obtain x w where a: "append_batch (stamp l sts) (en_wal e) = (x, w)" by fastforce
  let ?e1 = "e\<lparr>en_lsn := s, en_wal := w\<rparr>"
  note log = run_log [OF l a, of p t c False]
  show ?thesis
  proof (cases x)
    case (Inl err)
    have "e' = ?e1\<lparr>en_cache := requeue_dirty sts (en_cache ?e1)\<rparr>" using assms l a Inl by (simp add: flush_states_def)
    moreover have "crew_run p (with_hand t (Batch sts) e c) (with_hand t (Refused sts) ?e1 c)"
      using log a Inl by (simp add: append_stamped_def Let_def)
    ultimately show ?thesis using run_requeue by (metis rtranclp_trans)
  next
    case (Inr k)
    obtain n e1 where n: "elapsed ?e1 = (n, e1)" by fastforce
    have 1: "crew_run p (with_hand t (Batch sts) e c) (with_hand t (Logged sts k 0) ?e1 c)"
      using log a Inr by (simp add: append_stamped_def Let_def)
    have "flush_states_loop p sts k 0 (bump (record_wal_append (length (stamp l sts)) n) e1) = (r, e')"
      using assms l a Inr n by (simp add: flush_states_def)
    from rtranclp_trans [OF rtranclp_trans [OF rtranclp_trans [OF 1 run_elapsed [OF n]] run_bump] run_flush_states_loop [OF this]]
    show ?thesis .
  qed
qed

lemma alone_api_drain:
  "engine_ok e \<Longrightarrow> api_drain e = Some e' \<Longrightarrow> alone p t c e e'"
proof (induction "length (queued e)" arbitrary: e rule: less_induct)
  case less
  let ?n = "cfg_flush_max_batch (en_config e)"
  obtain k e1 where d: "drain_up_to ?n e = (k, e1)" by fastforce
  note dr = drain_up_to_effect [OF less.prems(1) d] and a = alone_drain [OF less.prems(1) d, of p t c]
  have n: "0 < ?n" using less.prems(1) by (simp add: engine_ok_def)
  show ?case
  proof (cases "k < ?n")
    case True
    then have "api_drain e = Some e1" by (subst api_drain.simps) (simp add: d)
    then show ?thesis using a less.prems(2) by simp
  next
    case False
    then have k: "k = ?n" "?n \<le> length (queued e)" using dr(1) by (simp_all add: min_def split: if_splits)
    have "api_drain e = api_drain e1" using k n by (subst api_drain.simps) (simp add: d)
    moreover have "length (queued e1) < length (queued e)" using dr(2) k n by (simp del: length_contents)
    ultimately show ?thesis using less.hyps [of e1] less.prems(2) dr(5) a alone_trans by metis
  qed
qed

lemma alone_flush_now:
  assumes "engine_ok e" and "flush_now p e = Some (r, e')"
  shows "alone p t c e e'"
proof -
  obtain e1 where e1: "api_drain e = Some e1" "engine_ok e1" "queued e1 = []"
    using api_drain_effect [OF assms(1)] by blast
  have take: "engine_ok a1 \<and> alone p t c a a1" if "engine_ok a" "take_batch a = ([], a1)" for a a1
    using take_batch_ok(1) [OF that] run_take [OF that(2), of p t c] by (simp add: alone_def)
  have round: "engine_ok a2 \<and> alone p t c a a2"
    if "engine_ok a" "take_batch a = (sts, a1)" "sts \<noteq> []" "flush_states p sts a1 = (x, a2)" for a sts a1 x a2
    using flush_states_ok(1) [OF take_batch_ok(1) [OF that(1,2)] that(4)]
      rtranclp_trans [OF run_take_some [OF that(2,3), of p t c] run_flush_states [OF that(4), of t c]]
    by (simp add: alone_def)
  have "\<exists>x y. flush_now_loop p 0 e1 = Some (x, y) \<and> engine_ok y \<and> alone p t c e1 y \<and> queued y = []
    \<and> ((\<exists>m. x = Inr m) \<longrightarrow> dirty_set y = {})"
    by (rule flush_now_loop_rule [where I = engine_ok and Q = "alone p t c", OF e1(2,3)];
        (assumption | erule (3) round | erule (1) take | erule (1) alone_trans | rule alone_refl))
  then have "alone p t c e1 e'" using assms(2) e1(1) by (auto simp: flush_now_def)
  then show ?thesis using alone_trans [OF alone_api_drain [OF assms(1) e1(1)]] by blast
qed

lemma run_submit:
  assumes "cr_hands c t = Idle" and "submit i v b (cr_engine c) = (out, e')"
  shows "crew_run p c (c\<lparr>cr_engine := e', cr_drawn := the_request i v b (cr_engine c) # cr_drawn c,
    cr_accepted := (if out = Enqueued then [\<lparr>ps_id = i, ps_version = v, ps_blob = b\<rparr>] else []) @ cr_accepted c\<rparr>)"
proof -
  let ?e = "cr_engine c"
  obtain seq s where al: "alloc (en_lsn ?e) = (seq, s)" by fastforce
  let ?r = "\<lparr>wr_id = i, wr_version = v, wr_blob = b, wr_seq = seq\<rparr>" and ?e1 = "?e\<lparr>en_lsn := s\<rparr>"
  obtain x m where q: "try_enqueue ?r (en_ring ?e) = (x, m)" by fastforce
  let ?acc = "(if out = Enqueued then [\<lparr>ps_id = i, ps_version = v, ps_blob = b\<rparr>] else []) @ cr_accepted c"
  let ?c1 = "(with_hand t (Drawn ?r) ?e1 c)\<lparr>cr_drawn := ?r # cr_drawn c\<rparr>"
  let ?e2 = "?e1\<lparr>en_ring := m\<rparr>"
  let ?c2 = "(with_hand t Idle ?e2 ?c1)\<lparr>cr_accepted := ?acc\<rparr>"
  obtain n e3 where el: "elapsed ?e2 = (n, e3)" by fastforce
  have out: "out = (case x of Inr u \<Rightarrow> Enqueued | Inl u \<Rightarrow> Dropped)" and e': "\<exists>f. e' = bump f e3 \<or> e' = bump f ?e2"
    using assms(2) al q el by (auto simp: submit_def Let_def split: sum.splits)
  have "crew_step p c ?c1" using crew_step.draws [OF assms(1) al, of Drawn ?r i v b p] by simp
  moreover have "crew_step p ?c1 ?c2"
    using crew_step.offers [of ?c1 t ?r x m p] q out by (cases x) (simp_all add: to_state_def)
  ultimately have 1: "crew_run p c ?c2" by auto
  let ?c3 = "c\<lparr>cr_drawn := ?r # cr_drawn c, cr_accepted := ?acc\<rparr>"
  have c2: "?c2 = with_hand t Idle ?e2 ?c3" by (simp add: with_hand_def)
  have "crew_run p (with_hand t Idle ?e2 ?c3) (with_hand t Idle e' ?c3)"
    using e' rtranclp_trans [OF run_elapsed [OF el] run_bump] run_bump by blast
  with 1 have "crew_run p c (with_hand t Idle e' ?c3)" unfolding c2 by (rule rtranclp_trans)
  moreover have "with_hand t Idle e' ?c3 = c\<lparr>cr_engine := e', cr_drawn := the_request i v b ?e # cr_drawn c, cr_accepted := ?acc\<rparr>"
    using al by (simp add: with_hand_def fun_upd_idem assms(1) the_request_def alloc_def)
  ultimately show ?thesis by simp
qed

lemma run_submit_durable:
  assumes "cr_hands c t = Idle" and "submit_durable i v b (cr_engine c) = (res, e')"
  shows "crew_run p c (c\<lparr>cr_engine := e', cr_drawn := the_request i v b (cr_engine c) # cr_drawn c,
    cr_promised := (if res = Inr () then [the_request i v b (cr_engine c)] else []) @ cr_promised c\<rparr>)"
proof -
  let ?e = "cr_engine c"
  obtain l s where al: "alloc (en_lsn ?e) = (l, s)" by fastforce
  have l: "l = next_lsn (en_lsn ?e)" using al by (simp add: alloc_def)
  let ?r = "\<lparr>wr_id = i, wr_version = v, wr_blob = b, wr_seq = l\<rparr>"
  let ?e1 = "?e\<lparr>en_lsn := s\<rparr>" and ?e2 = "?e\<lparr>en_lsn := note_pending l s\<rparr>"
  let ?d = "c\<lparr>cr_drawn := ?r # cr_drawn c\<rparr>"
  let ?c1 = "with_hand t (Numbered ?r) ?e1 ?d" and ?c2 = "with_hand t (Pinned ?r) ?e2 ?d"
  have r: "the_request i v b ?e = ?r" by (simp add: the_request_def l)
  have idle: "cr_hands ?d t = Idle" using assms(1) by simp
  have order: "?d\<lparr>cr_engine := e'\<rparr> = c\<lparr>cr_engine := e', cr_drawn := ?r # cr_drawn c\<rparr>"
    by (cases c) simp
  have draw: "(with_hand t h ?e1 c)\<lparr>cr_drawn := ?r # cr_drawn c\<rparr> = with_hand t h ?e1 ?d" for h
    by (simp add: with_hand_def)
  obtain x w where a: "append_batch [record_of ?r] (en_wal ?e) = (x, w)" by fastforce
  have "crew_step p c ?c1" using crew_step.draws [OF assms(1) al, of Numbered ?r i v b p] by (simp add: draw)
  moreover have "crew_step p ?c1 ?c2" using crew_step.pins [of ?c1 t ?r p] by simp
  ultimately have 2: "crew_run p c ?c2" by auto
  show ?thesis
  proof (cases x)
    case (Inl err)
    let ?e3 = "?e\<lparr>en_wal := w, en_lsn := note_pending l s\<rparr>"
    have e': "res = Inl err" "e' = ?e\<lparr>en_wal := w, en_lsn := note_drained l (note_pending l s)\<rparr>"
      using assms(2) al a Inl by (simp_all add: submit_durable_def record_of_def)
    have same: "?e2\<lparr>en_wal := w\<rparr> = ?e3" by simp
    have "crew_step p ?c2 (with_hand t (Unlogged l) ?e3 ?d)"
      using crew_step.writes [of ?c2 t ?r "Unlogged l" ?e3 p] a Inl by (simp add: write_durable_def same)
    moreover have "crew_step p (with_hand t (Unlogged l) ?e3 ?d) (with_hand t Idle e' ?d)"
      using crew_step.unpins [of "with_hand t (Unlogged l) ?e3 ?d" t l p] by (simp add: e'(2))
    ultimately have "crew_run p c (with_hand t Idle e' ?d)" using 2 by auto
    then show ?thesis by (simp add: e'(1) with_hand_same [OF idle] r order)
  next
    case (Inr k)
    obtain y m where q: "try_enqueue ?r (en_ring ?e) = (y, m)" by fastforce
    let ?e3 = "?e\<lparr>en_wal := w, en_lsn := note_pending l s\<rparr>"
    have e': "res = Inr ()" "e' = ?e3\<lparr>en_ring := m\<rparr>"
      using assms(2) al a Inr q by (simp_all add: submit_durable_def record_of_def)
    let ?c3 = "with_hand t (Written ?r) ?e3 ?d"
    have "crew_step p ?c2 ?c3"
      using crew_step.writes [of ?c2 t ?r "Written ?r" ?e3 p] a Inr by (simp add: write_durable_def)
    moreover have "crew_step p ?c3 ((with_hand t Idle e' ?d)\<lparr>cr_promised := ?r # cr_promised ?d\<rparr>)"
      using crew_step.promises [of ?c3 t ?r y m p] q by (simp add: e'(2))
    ultimately have "crew_run p c ((with_hand t Idle e' ?d)\<lparr>cr_promised := ?r # cr_promised ?d\<rparr>)" using 2 by auto
    then show ?thesis by (simp add: e'(1) with_hand_same [OF idle] r order)
  qed
qed

section \<open>Every method is a run\<close>

text \<open>
  C6: The methods are runs of the interleaved system.  From any state in which a thread is idle
  and the engine well formed, whatever the other threads hold, the worker's whole loop with
  its final drain, \<open>flush_now\<close>, \<open>submit\<close> and \<open>submit_durable\<close>, executed without a pause, are
  sequences of that thread's steps with exactly the effect of the sequential model.
\<close>

theorem methods_are_runs:
  assumes "engine_ok (cr_engine c)" and "cr_hands c t = Idle"
  shows "(\<forall>ts e'. run persist ts (cr_engine c) = Some e' \<longrightarrow> (crew_step persist)\<^sup>*\<^sup>* c (c\<lparr>cr_engine := e'\<rparr>))
    \<and> (\<forall>r e'. flush_now persist (cr_engine c) = Some (r, e') \<longrightarrow> (crew_step persist)\<^sup>*\<^sup>* c (c\<lparr>cr_engine := e'\<rparr>))
    \<and> (\<forall>i v b out e'. submit i v b (cr_engine c) = (out, e') \<longrightarrow> (crew_step persist)\<^sup>*\<^sup>* c (c\<lparr>cr_engine := e',
         cr_drawn := the_request i v b (cr_engine c) # cr_drawn c, cr_accepted := (if out = Enqueued then [\<lparr>ps_id = i, ps_version = v, ps_blob = b\<rparr>] else []) @ cr_accepted c\<rparr>))
    \<and> (\<forall>i v b res e'. submit_durable i v b (cr_engine c) = (res, e') \<longrightarrow> (crew_step persist)\<^sup>*\<^sup>* c (c\<lparr>cr_engine := e',
         cr_drawn := the_request i v b (cr_engine c) # cr_drawn c,
         cr_promised := (if res = Inr () then [the_request i v b (cr_engine c)] else []) @ cr_promised c\<rparr>))"
proof -
  have alone: "crew_run persist c (c\<lparr>cr_engine := e'\<rparr>)" if "alone persist t c (cr_engine c) e'" for e'
    using that by (simp add: alone_def with_hand_same [OF assms(2)])
  show ?thesis
    by (intro conjI allI impI; elim alone [OF alone_worker [OF assms(1)]] alone [OF alone_flush_now [OF assms(1)]]
        run_submit [OF assms(2)] run_submit_durable [OF assms(2)])
qed

theorem methods_are_runs_witness:
  "\<exists>e'. run mock_persist_batch [True] sample_engine = Some e'
    \<and> (crew_step mock_persist_batch)\<^sup>*\<^sup>* (crew_start sample_engine) (crew_start e')"
proof -
  have ok: "engine_ok (cr_engine (crew_start sample_engine))"
    using sample_engine_ok by (simp add: pipeline_ok_def crew_start_def)
  obtain e' where e': "run mock_persist_batch [True] sample_engine = Some e'"
    using run_total [of sample_engine mock_persist_batch "[True]"] ok by (auto simp: crew_start_def)
  have "cr_hands (crew_start sample_engine) 0 = Idle" by (simp add: crew_start_def)
  from methods_are_runs [OF ok this, of mock_persist_batch] e' show ?thesis by (auto simp: crew_start_def simp del: run.simps)
qed

end
