(* ===== verification/Kv_Frame.thy ===== *)
theory Kv_Frame
  imports Lww Framing
begin

text \<open>
  The frame codec of \<open>examples/disk_kv_store.rs\<close>: \<open>encode_record\<close>, \<open>decode_record\<close> and
  the example's own copy of CRC-32, and the loop of \<open>rebuild_index\<close> that replays a data
  file into an index.  Decoding inverts encoding, every cut frame is a torn tail, and the
  replay of a file is the last-write-wins merge of the longest readable prefix.
\<close>

section \<open>The codec\<close>

definition REC_MAGIC :: u32 where "REC_MAGIC = 0x4B564442"
definition REC_HEADER_LEN :: nat where "REC_HEADER_LEN = 4 + 4 + 8 + 8 + 4"
definition REC_CRC_LEN :: nat where "REC_CRC_LEN = 4"

text \<open>One turn of the inner loop that fills the table.\<close>

definition kv_bit :: "u32 \<Rightarrow> u32" where
  "kv_bit crc = (if crc AND 1 \<noteq> 0 then drop_bit 1 crc XOR 0xEDB88320 else drop_bit 1 crc)"

definition kv_table :: "u32 list" where
  "kv_table = map (\<lambda>i. (kv_bit ^^ 8) (word_of_nat i)) [0..<256]"

definition kv_crc32 :: "u8 list \<Rightarrow> u32" where
  "kv_crc32 bytes =
     foldl (\<lambda>crc b. let idx = unat ((crc XOR ucast b) AND 0xFF) in drop_bit 8 crc XOR kv_table ! idx)
       0xFFFFFFFF bytes XOR 0xFFFFFFFF"

definition record_body :: "player_state \<Rightarrow> u8 list" where
  "record_body st =
     (let blob_len = length (ps_blob st);
          frame_len = REC_HEADER_LEN + blob_len + REC_CRC_LEN
      in u32_to_le_bytes REC_MAGIC
         @ u32_to_le_bytes (word_of_nat frame_len)
         @ u64_to_le_bytes (ps_id st)
         @ u64_to_le_bytes (ps_version st)
         @ u32_to_le_bytes (word_of_nat blob_len)
         @ ps_blob st)"

definition encode_record :: "player_state \<Rightarrow> u8 list" where
  "encode_record st = (let buf = record_body st; crc = kv_crc32 buf in buf @ u32_to_le_bytes crc)"

datatype decode_one = Record player_state nat | TornTail

definition decode_record :: "u8 list \<Rightarrow> decode_one" where
  "decode_record buf =
     (if length buf < REC_HEADER_LEN then TornTail
      else if u32_from_le_bytes (slice 0 4 buf) \<noteq> REC_MAGIC then TornTail
      else
        let frame_len = unat (u32_from_le_bytes (slice 4 8 buf)) in
        if frame_len < REC_HEADER_LEN + REC_CRC_LEN \<or> length buf < frame_len then TornTail
        else
          let blob_len = unat (u32_from_le_bytes (slice 24 28 buf)) in
          if frame_len \<noteq> REC_HEADER_LEN + blob_len + REC_CRC_LEN then TornTail
          else
            let body_end = frame_len - REC_CRC_LEN;
                stored_crc = u32_from_le_bytes (slice body_end frame_len buf);
                actual_crc = kv_crc32 (take body_end buf)
            in if stored_crc \<noteq> actual_crc then TornTail
               else Record \<lparr>ps_id = u64_from_le_bytes (slice 8 16 buf),
                            ps_version = u64_from_le_bytes (slice 16 24 buf),
                            ps_blob = slice REC_HEADER_LEN (REC_HEADER_LEN + blob_len) buf\<rparr>
                      frame_len)"

section \<open>The checksum is the one of the log\<close>

lemma kv_bits: "(kv_bit ^^ j) crc = crc_bits j crc"
proof (induction j arbitrary: crc)
  case (Suc j)
  then show ?case by (simp only: funpow_Suc_right comp_apply crc_bits.simps kv_bit_def crc_bit_def)
qed simp

lemma kv_crc32_eq: "kv_crc32 = crc32"
  by (rule ext) (simp add: kv_crc32_def crc32_def crc32_step_def [abs_def] kv_table_def crc32_table_def kv_bits)

section \<open>Shape of a frame\<close>

definition kv_fits :: "player_state \<Rightarrow> bool" where
  "kv_fits st \<longleftrightarrow> REC_HEADER_LEN + length (ps_blob st) + REC_CRC_LEN < 2 ^ 32"

lemmas kv_layout = REC_HEADER_LEN_def REC_CRC_LEN_def

lemma length_record_body: "length (record_body st) = 28 + length (ps_blob st)"
  by (simp add: record_body_def Let_def)

lemma encode_record_split: "encode_record st = record_body st @ u32_to_le_bytes (crc32 (record_body st))"
  by (simp add: encode_record_def Let_def kv_crc32_eq)

lemma length_encode_record: "length (encode_record st) = 32 + length (ps_blob st)"
  by (simp add: encode_record_split length_record_body)

lemma record_body_slices:
  "slice 0 4 (record_body st) = u32_to_le_bytes REC_MAGIC"
  "slice 4 8 (record_body st) = u32_to_le_bytes (word_of_nat (32 + length (ps_blob st)))"
  "slice 8 16 (record_body st) = u64_to_le_bytes (ps_id st)"
  "slice 16 24 (record_body st) = u64_to_le_bytes (ps_version st)"
  "slice 24 28 (record_body st) = u32_to_le_bytes (word_of_nat (length (ps_blob st)))"
  "slice 28 (28 + length (ps_blob st)) (record_body st) = ps_blob st"
  by (simp_all add: record_body_def Let_def slice_def kv_layout add.commute)

lemma kv_fits_len:
  assumes "kv_fits st"
  shows "unat (word_of_nat (32 + length (ps_blob st)) :: u32) = 32 + length (ps_blob st)"
    and "unat (word_of_nat (length (ps_blob st)) :: u32) = length (ps_blob st)"
  using assms by (auto simp: kv_fits_def kv_layout intro!: unat_word_of_nat_u32 simp del: of_nat_add)

section \<open>Decoding\<close>

lemma decode_record_encode:
  assumes "kv_fits st"
  shows "decode_record (encode_record st @ rest) = Record st (length (encode_record st))"
proof -
  let ?n = "length (ps_blob st)" and ?crc = "u32_to_le_bytes (crc32 (record_body st))"
  let ?buf = "record_body st @ ?crc @ rest"
  have in_body: "j \<le> 28 + ?n \<Longrightarrow> slice i j ?buf = slice i j (record_body st)" for i j
    by (simp add: slice_append_left length_record_body)
  have len: "unat (u32_from_le_bytes (slice 4 8 ?buf)) = 32 + ?n"
    by (simp add: in_body record_body_slices kv_fits_len [OF assms] del: of_nat_add)
  have blob: "unat (u32_from_le_bytes (slice 24 28 ?buf)) = ?n"
    by (simp add: in_body record_body_slices kv_fits_len [OF assms])
  have crc: "slice (28 + ?n) (32 + ?n) ?buf = ?crc"
    by (simp add: slice_def length_record_body)
  have body: "take (28 + ?n) ?buf = record_body st" by (simp add: length_record_body)
  have "decode_record ?buf = Record st (32 + ?n)"
    by (simp add: decode_record_def Let_def kv_layout len blob crc body in_body record_body_slices
        length_record_body kv_fits_len [OF assms] kv_crc32_eq del: of_nat_add)
  then show ?thesis by (simp add: encode_record_split length_record_body)
qed

lemma decode_record_cut:
  assumes "kv_fits st" and "k < length (encode_record st)"
  shows "decode_record (take k (encode_record st)) = TornTail"
proof (cases "k < 28")
  case True
  then show ?thesis by (simp add: decode_record_def kv_layout min_less_iff_disj)
next
  case False
  let ?buf = "take k (encode_record st)" and ?n = "length (ps_blob st)"
  have k: "length ?buf = k" "k < 32 + ?n" using assms(2) by (simp_all add: length_encode_record)
  have "slice i j ?buf = slice i j (record_body st)" if "j \<le> 28" for i j
    using that False by (simp add: slice_take encode_record_split slice_append_left length_record_body)
  then have "slice 0 4 ?buf = slice 0 4 (record_body st)" "slice 4 8 ?buf = slice 4 8 (record_body st)"
    by simp_all
  then show ?thesis
    using k False
    by (simp add: decode_record_def Let_def kv_layout record_body_slices kv_fits_len [OF assms(1)]
        del: of_nat_add)
qed

lemma decode_record_Record:
  assumes "decode_record buf = Record st n"
  shows "kv_fits st \<and> n = length (encode_record st) \<and> take n buf = encode_record st"
proof -
  define bl where "bl = unat (u32_from_le_bytes (slice 24 28 buf))"
  have magic: "u32_from_le_bytes (slice 0 4 buf) = REC_MAGIC"
    and fl: "unat (u32_from_le_bytes (slice 4 8 buf)) = n"
    and n: "n = 32 + bl" "n \<le> length buf"
    and crc: "u32_from_le_bytes (slice (28 + bl) n buf) = crc32 (take (28 + bl) buf)"
    and st: "st = \<lparr>ps_id = u64_from_le_bytes (slice 8 16 buf), ps_version = u64_from_le_bytes (slice 16 24 buf),
                   ps_blob = slice 28 (28 + bl) buf\<rparr>"
    using assms by (auto simp: decode_record_def Let_def kv_layout kv_crc32_eq bl_def split: if_splits)
  have len: "length (ps_blob st) = bl" using st n by simp
  have n32: "n < 2 ^ 32" using unat_u32_bound [of "u32_from_le_bytes (slice 4 8 buf)"] fl by simp
  have w: "word_of_nat (32 + bl) = u32_from_le_bytes (slice 4 8 buf)"
    "word_of_nat bl = u32_from_le_bytes (slice 24 28 buf)"
    using fl n(1) by (metis of_nat_unat ucast_id) (simp add: bl_def)
  have "take (28 + bl) buf = slice 0 4 buf @ slice 4 8 buf @ slice 8 16 buf @ slice 16 24 buf
          @ slice 24 28 buf @ slice 28 (28 + bl) buf"
    using take_slice_append [of 28 "28 + bl" buf] take_slice_append [of 24 28 buf]
      take_slice_append [of 16 24 buf] take_slice_append [of 8 16 buf] take_slice_append [of 4 8 buf]
    by (simp add: slice_0)
  moreover have "u32_to_le_bytes (u32_from_le_bytes (slice 0 4 buf)) = slice 0 4 buf"
    "u32_to_le_bytes (u32_from_le_bytes (slice 4 8 buf)) = slice 4 8 buf"
    "u64_to_le_bytes (u64_from_le_bytes (slice 8 16 buf)) = slice 8 16 buf"
    "u64_to_le_bytes (u64_from_le_bytes (slice 16 24 buf)) = slice 16 24 buf"
    "u32_to_le_bytes (u32_from_le_bytes (slice 24 28 buf)) = slice 24 28 buf"
    using n by (auto intro!: u32_to_from_le_bytes u64_to_from_le_bytes)
  ultimately have body: "record_body st = take (28 + bl) buf"
    using len by (simp add: record_body_def len Let_def kv_layout magic [symmetric] st w del: of_nat_add)
  have "take n buf = take (28 + bl) buf @ slice (28 + bl) n buf"
    using n by (intro take_slice_append) simp
  moreover have "u32_to_le_bytes (u32_from_le_bytes (slice (28 + bl) n buf)) = slice (28 + bl) n buf"
    using n by (intro u32_to_from_le_bytes) simp
  ultimately have "take n buf = encode_record st" by (simp add: encode_record_split body crc)
  moreover have "kv_fits st" using n32 n len by (simp add: kv_fits_def kv_layout)
  moreover have "n = length (encode_record st)" by (simp add: length_encode_record len n)
  ultimately show ?thesis by blast
qed

section \<open>Replaying a data file\<close>

text \<open>The merge of one state, in the replay and in \<open>persist_batch\<close>.\<close>

definition index_put :: "player_state \<Rightarrow> table \<Rightarrow> table" where
  "index_put st index =
     (case index (ps_id st) of
        Some existing \<Rightarrow>
          if ps_version st < ps_version existing then index else index(ps_id st \<mapsto> st)
      | None \<Rightarrow> index(ps_id st \<mapsto> st))"

text \<open>The loop of \<open>rebuild_index\<close>.\<close>

function rebuild_loop :: "u8 list \<Rightarrow> nat \<Rightarrow> nat \<Rightarrow> table \<Rightarrow> table \<times> nat" where
  "rebuild_loop bytes offset good_len index =
     (if offset < length bytes
      then case decode_record (drop offset bytes) of
             Record state consumed \<Rightarrow>
               rebuild_loop bytes (offset + consumed) (offset + consumed) (index_put state index)
           | TornTail \<Rightarrow> (index, good_len)
      else (index, good_len))"
  by pat_completeness auto
termination
  by (relation "measure (\<lambda>(bytes, offset, good_len, index). length bytes - offset)")
    (auto dest!: decode_record_Record simp: length_encode_record)

declare rebuild_loop.simps [simp del]

text \<open>The states that the loop meets, apart from the index.\<close>

function kv_scan :: "u8 list \<Rightarrow> nat \<Rightarrow> player_state list \<times> nat" where
  "kv_scan bytes pos =
     (if bytes = [] then ([], pos)
      else case decode_record bytes of
             Record st n \<Rightarrow> (let (sts, e) = kv_scan (drop n bytes) (pos + n) in (st # sts, e))
           | TornTail \<Rightarrow> ([], pos))"
  by pat_completeness auto
termination
  by (relation "measure (\<lambda>(bytes, pos). length bytes)")
    (auto dest!: decode_record_Record simp: length_encode_record)

declare kv_scan.simps [simp del]

definition kv_decoded :: "u8 list \<Rightarrow> (player_state \<times> nat) option" where
  "kv_decoded bs = (case decode_record bs of Record st n \<Rightarrow> Some (st, n) | TornTail \<Rightarrow> None)"

lemma encode_record_nonempty [simp]: "encode_record st \<noteq> []"
  using length_encode_record [of st] by auto

interpretation kvf: frame_scan encode_record kv_decoded kv_fits kv_scan
proof
  show "torn_for kv_decoded bs \<Longrightarrow> kv_scan bs pos = ([], pos)" for bs pos
    by (auto simp: torn_for_def kv_decoded_def kv_scan.simps [of bs] split: decode_one.splits)
  show "bs \<noteq> [] \<Longrightarrow> kv_decoded bs = Some (st, n) \<Longrightarrow>
      kv_scan bs pos = (st # fst (kv_scan (drop n bs) (pos + n)), snd (kv_scan (drop n bs) (pos + n)))"
    for bs st n pos
    by (auto simp: kv_decoded_def kv_scan.simps [of bs] split: decode_one.splits prod.splits)
qed (auto simp: kv_decoded_def decode_record_encode decode_record_cut dest!: decode_record_Record
    split: decode_one.splits)

lemma index_put_lww: "index_put st index = lww_put st index"
  by (simp add: index_put_def lww_put_def)

lemma rebuild_loop_scan:
  "offset \<le> length bytes \<Longrightarrow> rebuild_loop bytes offset offset index =
    (lww_all (fst (kv_scan (drop offset bytes) offset)) index, snd (kv_scan (drop offset bytes) offset))"
proof (induction "length bytes - offset" arbitrary: offset index rule: less_induct)
  case less
  show ?case
  proof (cases "offset < length bytes")
    case True
    show ?thesis
    proof (cases "decode_record (drop offset bytes)")
      case (Record st n)
      note d = decode_record_Record [OF Record]
      then have "length (take n (drop offset bytes)) = n" by (metis)
      then have n: "0 < n" "offset + n \<le> length bytes"
        using d True by (auto simp: length_encode_record min_def split: if_splits)
      have "length bytes - (offset + n) < length bytes - offset" using n(1) True by linarith
      from less.hyps [OF this n(2)] show ?thesis
        using True Record
        by (simp add: rebuild_loop.simps [of bytes offset] kv_scan.simps [of "drop offset bytes"]
            index_put_lww add.commute split: prod.split)
    next
      case TornTail
      then show ?thesis
        using True by (simp add: rebuild_loop.simps [of bytes offset] kv_scan.simps [of "drop offset bytes"])
    qed
  next
    case False
    then show ?thesis
      by (simp add: rebuild_loop.simps [of bytes offset] kv_scan.simps [of "[]"])
  qed
qed

end
