(* ===== verification/Kv_Store.thy ===== *)
theory Kv_Store
  imports Kv_Frame Disk Traits
begin

text \<open>
  \<open>examples/disk_kv_store.rs\<close>: a store that appends every batch to a data file before it
  merges it into an index in memory, and rebuilds the index from the file when it is
  opened.  The data file is the active file of the disk of \<open>Disk\<close>, with its failing and
  short system calls; a file opened for appending is written at its end.

  It implements the contract of a store, so every property of the engine holds over it, and
  it keeps what it acknowledged: after a process kill at any moment, reopening finds every
  state the index had, as long as frames are below the capacity of the buffered writer.
\<close>

section \<open>Operations\<close>

record kv =
  kv_disk :: wal
  kv_index :: table

text \<open>\<open>File::open\<close> and \<open>read_to_end\<close>; a missing file is no error.\<close>

definition read_file :: "(u8 list option) io" where
  "read_file = try_io sys_call (\<lambda>_ w.
     (case fs_active w of
        None \<Rightarrow> (Inr None, w)
      | Some n \<Rightarrow> try_io sys_call (\<lambda>_ w. (Inr (Some (data_of w n)), w)) w))"

definition rebuild_index :: "(table \<times> nat) io" where
  "rebuild_index = try_io read_file (\<lambda>file w.
     (Inr (case file of
             None \<Rightarrow> (Map.empty, 0)
           | Some bytes \<Rightarrow> rebuild_loop bytes 0 0 Map.empty), w))"

definition kv_open_file :: "table io" where
  "kv_open_file =
     try_io rebuild_index (\<lambda>(index, good_len).
       try_io create_active (\<lambda>n.
         try_io sys_call (\<lambda>_ w.                                     \<comment> \<open>metadata\<close>
           try_io (\<lambda>w. if good_len < length (data_of w n)
                       then try_io (set_len n good_len) (\<lambda>_. sync_data n) w
                       else (Inr (), w))
             (\<lambda>_. try_io create_active (\<lambda>m w.
               (Inr index, w\<lparr>wr_file := m, wr_pos := length (data_of w m), wr_buf := []\<rparr>))) w)))"

definition kv_open :: "wal \<Rightarrow> (io_error \<times> wal) + kv" where
  "kv_open w =
     (case kv_open_file w of
        (Inl e, w') \<Rightarrow> Inl (e, w')
      | (Inr index, w') \<Rightarrow> Inr \<lparr>kv_disk = w', kv_index = index\<rparr>)"

fun append_states :: "player_state list \<Rightarrow> unit io" where
  "append_states [] w = (Inr (), w)"
| "append_states (st # sts) w =
     try_io (bw_write_all (encode_record st)) (\<lambda>_. append_states sts) w"

text \<open>The text of the I/O error is left out of the messages.\<close>

definition kv_persist_batch :: "player_state list \<Rightarrow> kv \<Rightarrow> (store_error + unit) \<times> kv" where
  "kv_persist_batch states kv =
     (if states = [] then (Inr (), kv)
      else case append_states states (kv_disk kv) of
        (Inl e, w) \<Rightarrow> (Inl (Transient ''disk append failed''), kv\<lparr>kv_disk := w\<rparr>)
      | (Inr u, w) \<Rightarrow>
          (case bw_flush w of
             (Inl e, w) \<Rightarrow> (Inl (Transient ''disk flush failed''), kv\<lparr>kv_disk := w\<rparr>)
           | (Inr u, w) \<Rightarrow>
               (case sync_data (wr_file w) w of
                  (Inl e, w) \<Rightarrow> (Inl (Transient ''disk sync_data failed''), kv\<lparr>kv_disk := w\<rparr>)
                | (Inr u, w) \<Rightarrow>
                    (Inr (), \<lparr>kv_disk = w, kv_index = fold index_put states (kv_index kv)\<rparr>))))"

definition kv_load :: "kv \<Rightarrow> table" where
  "kv_load kv = (\<lambda>id. kv_index kv id)"

definition kv_count :: "kv \<Rightarrow> nat" where
  "kv_count kv = card (dom (kv_index kv))"

section \<open>The contract of a store\<close>

lemma fold_index_put: "fold index_put sts index = lww_all sts index"
  by (simp add: lww_all_def index_put_lww [abs_def])

interpretation diskkv: store_trait kv_persist_batch kv_load
  by unfold_locales
    (auto simp: kv_persist_batch_def kv_load_def fold_index_put split: if_splits prod.splits sum.splits)

section \<open>Process kills\<close>

text \<open>The process dies and the files stay as the kernel has them; the calls of the next
  process have the outcomes of \<open>events\<close>.\<close>

definition killed :: "io_event list \<Rightarrow> kv \<Rightarrow> wal" where
  "killed events kv = (kv_disk kv)\<lparr>fs_events := events\<rparr>"

abbreviation kv_image :: "player_state list \<Rightarrow> u8 list" where
  "kv_image \<equiv> image_of encode_record"

text \<open>
  The file and the buffer hold the frames of \<open>sts\<close>, the first \<open>n\<close> of them are in the file,
  and these cover the index.
\<close>

definition kv_holds :: "player_state list \<Rightarrow> nat \<Rightarrow> kv \<Rightarrow> bool" where
  "kv_holds sts n kv \<longleftrightarrow> writer_ok (kv_disk kv) \<and> fs_active (kv_disk kv) = Some (wr_file (kv_disk kv))
     \<and> content (kv_disk kv) = kv_image sts \<and> list_all kv_fits sts \<and> n \<le> length sts
     \<and> length (kv_image (take n sts)) \<le> length (data_of (kv_disk kv) (wr_file (kv_disk kv)))
     \<and> grows (kv_index kv) (lww_all (take n sts) Map.empty)"

definition small_frames :: "player_state list \<Rightarrow> bool" where
  "small_frames sts \<longleftrightarrow> (\<forall>st \<in> set sts. length (encode_record st) < BUF_CAPACITY)"

lemma small_frames_simps [simp]:
  "small_frames []"
  "small_frames (st # sts) \<longleftrightarrow> length (encode_record st) < BUF_CAPACITY \<and> small_frames sts"
  by (auto simp: small_frames_def)

lemma small_fits: "small_frames sts \<Longrightarrow> list_all kv_fits sts"
  by (auto simp: small_frames_def list_all_iff length_encode_record kv_fits_def kv_layout BUF_CAPACITY_def)

text \<open>What appending a batch leaves, whether it succeeds or not.\<close>

lemma append_states_accepts:
  "writer_ok w \<Longrightarrow> small_frames sts \<or> r = Inr () \<Longrightarrow> append_states sts w = (r, w') \<Longrightarrow>
    \<exists>k \<le> length sts. accepts (kv_image (take k sts)) w w' \<and> (r = Inr () \<longrightarrow> k = length sts)"
proof (induction sts arbitrary: w)
  case Nil
  then show ?case by (simp add: accepts_refl)
next
  case (Cons st sts)
  obtain r1 w1 where w1: "bw_write_all (encode_record st) w = (r1, w1)" by fastforce
  show ?case
  proof (cases r1)
    case (Inl e)
    then have "accepts [] w w1" "r = Inl e" "w' = w1"
      using bw_write_all_accepts(2) [OF Cons.prems(1) w1] Cons.prems(2,3) w1 by (auto simp: try_io_def)
    then show ?thesis by (intro exI [of _ 0]) simp
  next
    case (Inr u)
    then have acc: "accepts (encode_record st) w w1" using bw_write_all_accepts(1) [OF Cons.prems(1) w1] by simp
    have "append_states sts w1 = (r, w')" using Cons.prems(3) w1 Inr by (simp add: try_io_def)
    from Cons.IH [OF accepts_content(2) [OF acc Cons.prems(1)] _ this] Cons.prems(2)
    obtain k where k: "k \<le> length sts" "accepts (kv_image (take k sts)) w1 w'" "r = Inr () \<longrightarrow> k = length sts"
      by auto
    have "accepts (encode_record st @ kv_image (take k sts)) w w'"
      using accepts_trans [OF acc k(2)] Cons.prems(1) by (simp add: writer_ok_def)
    then show ?thesis using k(1,3) by (intro exI [of _ "Suc k"]) simp
  qed
qed

text \<open>The writer took \<open>x\<close>, and the file did not shrink.\<close>

definition stores :: "u8 list \<Rightarrow> wal \<Rightarrow> wal \<Rightarrow> bool" where
  "stores x w w' \<longleftrightarrow> writer_ok w' \<and> content w' = content w @ x \<and> wr_file w' = wr_file w
     \<and> fs_active w' = fs_active w \<and> length (data_of w (wr_file w)) \<le> length (data_of w' (wr_file w'))"

lemma stores_accepts: "writer_ok w \<Longrightarrow> accepts x w w' \<Longrightarrow> stores x w w'"
  using accepts_content [of x w w'] accepts_facts [of x w w'] by (simp add: stores_def)

lemma stores_refl: "writer_ok w \<Longrightarrow> stores [] w w"
  by (simp add: stores_def)

lemma stores_trans: "stores x w w1 \<Longrightarrow> stores y w1 w2 \<Longrightarrow> stores (x @ y) w w2"
  unfolding stores_def by (metis append_assoc order_trans)

lemma stores_sync_data:
  assumes ok: "writer_ok w" and "sync_data (wr_file w) w = (r, w')"
  shows "stores [] w w'" and "wr_buf w' = wr_buf w"
proof -
  obtain r1 w1 where s: "sys_call w = (r1, w1)" by fastforce
  obtain ev where ev: "w1 = w\<lparr>fs_events := ev\<rparr>" using sys_call_events [OF s] .
  have n: "wr_file w < length (fs_inodes w)" using ok by (simp add: writer_ok_def)
  consider "w' = w\<lparr>fs_events := ev\<rparr>"
    | "w' = upd_inode (wr_file w) (\<lambda>i. i\<lparr>ino_synced := length (ino_data i)\<rparr>) (w\<lparr>fs_events := ev\<rparr>)"
    using assms(2) s ev by (cases r1) (auto simp: sync_data_def try_io_def)
  then show "stores [] w w'" and "wr_buf w' = wr_buf w"
    using ok n
    by (cases; simp add: stores_def writer_ok_def content_def data_of_upd synced_of_upd; simp add: data_of_def)+
qed

lemma persist_effect:
  assumes ok: "writer_ok (kv_disk kv)" and small: "small_frames b \<or> r = Inr ()"
    and p: "kv_persist_batch b kv = (r, kv')"
  shows "\<exists>k. stores (kv_image (take k b)) (kv_disk kv) (kv_disk kv')
    \<and> (r = Inr () \<longrightarrow> take k b = b \<and> (b \<noteq> [] \<longrightarrow> wr_buf (kv_disk kv') = []) \<and> kv_index kv' = lww_all b (kv_index kv))
    \<and> (r \<noteq> Inr () \<longrightarrow> kv_index kv' = kv_index kv)"
proof (cases "b = []")
  case True
  then show ?thesis using p stores_refl [OF ok] by (auto simp: kv_persist_batch_def)
next
  case False
  obtain r1 w1 where w1: "append_states b (kv_disk kv) = (r1, w1)" by fastforce
  obtain r2 w2 where w2: "bw_flush w1 = (r2, w2)" by fastforce
  obtain r3 w3 where w3: "sync_data (wr_file w2) w2 = (r3, w3)" by fastforce
  obtain k where k: "accepts (kv_image (take k b)) (kv_disk kv) w1" "r1 = Inr () \<longrightarrow> k = length b"
  proof -
    have "small_frames b \<or> r1 = Inr ()" using small p w1 False by (cases r1) (auto simp: kv_persist_batch_def)
    from append_states_accepts [OF ok this w1] that show ?thesis by blast
  qed
  let ?x = "kv_image (take k b)"
  have s1: "stores ?x (kv_disk kv) w1" by (rule stores_accepts [OF ok k(1)])
  have ok1: "writer_ok w1" using s1 by (simp add: stores_def)
  have s2: "stores ?x (kv_disk kv) w2"
    using stores_trans [OF s1 stores_accepts [OF ok1 bw_flush_accepts(1) [OF ok1 w2]]] by simp
  have ok2: "writer_ok w2" using s2 by (simp add: stores_def)
  have s3: "stores ?x (kv_disk kv) w3" using stores_trans [OF s2 stores_sync_data(1) [OF ok2 w3]] by simp
  have buf: "r2 = Inr () \<Longrightarrow> wr_buf w3 = []"
    using bw_flush_accepts(2) [OF ok1 w2] stores_sync_data(2) [OF ok2 w3] by simp
  show ?thesis
    using p w1 w2 w3 False s1 s2 s3 buf k(2)
    by (intro exI [of _ k]) (auto simp: kv_persist_batch_def fold_index_put split: sum.splits)
qed

lemma kv_holds_persist:
  assumes "kv_holds sts n kv" and "small_frames b" and p: "kv_persist_batch b kv = (r, kv')"
  shows "\<exists>k m. kv_holds (sts @ take k b) m kv'"
proof -
  have ok: "writer_ok (kv_disk kv)" using assms(1) by (simp add: kv_holds_def)
  obtain k where s: "stores (kv_image (take k b)) (kv_disk kv) (kv_disk kv')"
    and good: "r = Inr () \<Longrightarrow> take k b = b \<and> (b \<noteq> [] \<longrightarrow> wr_buf (kv_disk kv') = [])
        \<and> kv_index kv' = lww_all b (kv_index kv)"
    and failed: "r \<noteq> Inr () \<Longrightarrow> kv_index kv' = kv_index kv"
    using persist_effect [OF ok _ p] assms(2) by blast
  have fit: "list_all kv_fits (take k b)" using small_fits [OF assms(2)] by (auto simp: list_all_iff dest: in_set_takeD)
  show ?thesis
  proof (cases "r = Inr () \<and> b \<noteq> []")
    case True
    have "covers (lww_all sts Map.empty) s" if "covers (kv_index kv) s" for s
      using assms(1) that by (auto simp: kv_holds_def grows_def covers_lww_all_iff dest: in_set_takeD)
    then have "grows (lww_all b (kv_index kv)) (lww_all (sts @ b) Map.empty)"
      by (auto simp: grows_def covers_lww_all_iff)
    then have "kv_holds (sts @ take k b) (length (sts @ take k b)) kv'"
      using True assms(1) s good fit by (auto simp: kv_holds_def stores_def content_def)
    then show ?thesis by blast
  next
    case False
    then have "kv_index kv' = kv_index kv" using failed good by auto
    then have "kv_holds (sts @ take k b) n kv'" using assms(1) s fit by (auto simp: kv_holds_def stores_def)
    then show ?thesis by blast
  qed
qed

section \<open>Opening\<close>

text \<open>A disk whose data file, if there is one, is an image that may be cut short.\<close>

definition kv_file :: "wal \<Rightarrow> nat \<Rightarrow> u8 list \<Rightarrow> bool" where
  "kv_file w i bs \<longleftrightarrow> fs_active w = Some i \<and> i < length (fs_inodes w) \<and> data_of w i = bs
     \<and> synced_of w i \<le> length bs"

abbreviation kv_runs :: "(wal \<Rightarrow> bool) \<Rightarrow> 'a io \<Rightarrow> ('a \<Rightarrow> wal \<Rightarrow> bool) \<Rightarrow> bool" where
  "kv_runs P m Q \<equiv> runs P m Q (\<lambda>_. True)"

lemma kv_file_call: "kv_runs (\<lambda>w. kv_file w i bs) sys_call (\<lambda>_ w. kv_file w i bs)"
  by (rule runs_call) (simp_all add: kv_file_def)

lemma kv_file_create: "kv_runs (\<lambda>w. kv_file w i bs) create_active (\<lambda>n w. n = i \<and> kv_file w i bs)"
  unfolding create_active_def
  by (rule runs_try [OF kv_file_call]) (auto simp: runs_def kv_file_def)

lemma kv_file_rebuild:
  "kv_runs (\<lambda>w. kv_file w i bs) rebuild_index
    (\<lambda>x w. x = rebuild_loop bs 0 0 Map.empty \<and> kv_file w i bs)"
proof -
  have read: "kv_runs (\<lambda>w. kv_file w i bs) (try_io sys_call (\<lambda>_ w. (Inr (Some (data_of w i)), w)))
      (\<lambda>file w. file = Some bs \<and> kv_file w i bs)"
    by (rule runs_try [OF kv_file_call]) (auto simp: runs_def kv_file_def)
  have "kv_runs (\<lambda>w. kv_file w i bs) read_file (\<lambda>file w. file = Some bs \<and> kv_file w i bs)"
    unfolding read_file_def
  proof (rule runs_try [OF kv_file_call], rule runsI)
    fix w r w'
    assume w: "kv_file w i bs" and r: "(case fs_active w of None \<Rightarrow> (Inr None, w)
      | Some n \<Rightarrow> try_io sys_call (\<lambda>_ w. (Inr (Some (data_of w n)), w)) w) = (r, w')"
    then have "try_io sys_call (\<lambda>_ w. (Inr (Some (data_of w i)), w)) w = (r, w')" by (simp add: kv_file_def)
    then show "case r of Inr x \<Rightarrow> x = Some bs \<and> kv_file w' i bs | Inl e \<Rightarrow> True"
      using read w unfolding runs_def by blast
  qed
  then show ?thesis
    unfolding rebuild_index_def by (rule runs_try) (auto simp: runs_def)
qed

lemma kv_file_truncate:
  assumes "n \<le> length bs"
  shows "kv_runs (\<lambda>w. kv_file w i bs)
    (\<lambda>w. if n < length (data_of w i) then try_io (set_len i n) (\<lambda>_. sync_data i) w else (Inr (), w))
    (\<lambda>_ w. kv_file w i (take n bs))"
proof -
  have sync: "kv_runs (\<lambda>w. kv_file w i (take n bs)) (sync_data i) (\<lambda>_ w. kv_file w i (take n bs))"
    unfolding sync_data_def
    by (rule runs_try [OF kv_file_call])
      (auto simp: runs_def kv_file_def data_of_upd synced_of_upd; auto simp: data_of_def)
  have "kv_runs (\<lambda>w. kv_file w i bs) (set_len i n) (\<lambda>_ w. kv_file w i (take n bs))"
    unfolding set_len_def
    by (rule runs_try [OF kv_file_call])
      (use assms in \<open>auto simp: runs_def kv_file_def data_of_upd synced_of_upd; auto simp: data_of_def\<close>)
  from runs_try [OF this sync]
  have "kv_runs (\<lambda>w. kv_file w i bs) (try_io (set_len i n) (\<lambda>_. sync_data i)) (\<lambda>_ w. kv_file w i (take n bs))" .
  moreover have "kv_file w i bs \<Longrightarrow> \<not> n < length (data_of w i) \<Longrightarrow> take n bs = bs" for w
    by (simp add: kv_file_def)
  ultimately show ?thesis by (auto simp: runs_def)
qed

text \<open>What \<open>open\<close> does after it has read the file.\<close>

definition kv_reopen :: "table \<Rightarrow> nat \<Rightarrow> nat \<Rightarrow> table io" where
  "kv_reopen index good n =
     try_io sys_call (\<lambda>_ w.
       try_io (\<lambda>w. if good < length (data_of w n) then try_io (set_len n good) (\<lambda>_. sync_data n) w else (Inr (), w))
         (\<lambda>_. try_io create_active (\<lambda>m w.
           (Inr index, w\<lparr>wr_file := m, wr_pos := length (data_of w m), wr_buf := []\<rparr>))) w)"

definition opened :: "table \<Rightarrow> nat \<Rightarrow> u8 list \<Rightarrow> table \<Rightarrow> wal \<Rightarrow> bool" where
  "opened index i bs x w \<longleftrightarrow> x = index \<and> kv_file w i bs \<and> wr_file w = i \<and> wr_pos w = length bs \<and> wr_buf w = []"

lemma kv_open_file_eq:
  "kv_open_file = try_io rebuild_index (\<lambda>(index, good). try_io create_active (kv_reopen index good))"
  by (simp add: kv_open_file_def kv_reopen_def [abs_def])

lemma kv_file_reopen:
  assumes "good \<le> length bs"
  shows "kv_runs (\<lambda>w. n = i \<and> kv_file w i bs) (kv_reopen index good n) (opened index i (take good bs))"
proof (cases "n = i")
  case True
  have "kv_runs (\<lambda>w. kv_file w i (take good bs))
      (try_io create_active (\<lambda>m w. (Inr index, w\<lparr>wr_file := m, wr_pos := length (data_of w m), wr_buf := []\<rparr>)))
      (opened index i (take good bs))"
    by (rule runs_try [OF kv_file_create])
      (use assms in \<open>auto simp: runs_def opened_def kv_file_def data_of_def synced_of_def\<close>)
  from runs_try [OF kv_file_call runs_try [OF kv_file_truncate [OF assms] this]]
  show ?thesis unfolding kv_reopen_def True by (simp only: simp_thms)
qed (simp add: runs_def)

lemma kv_file_open:
  assumes "rebuild_loop bs 0 0 Map.empty = (index, good)" and "good \<le> length bs"
  shows "kv_runs (\<lambda>w. kv_file w i bs) kv_open_file (opened index i (take good bs))"
  unfolding kv_open_file_eq
  by (rule runs_try [OF kv_file_rebuild])
    (use runs_try [OF kv_file_create kv_file_reopen [OF assms(2)]] assms(1) in \<open>auto simp: runs_def\<close>)

lemma kv_fresh_open: "kv_runs (\<lambda>w. fs_active w = None) kv_open_file (\<lambda>x w. \<exists>i. opened Map.empty i [] x w)"
proof -
  have call: "kv_runs (\<lambda>w. fs_active w = None) sys_call (\<lambda>_ w. fs_active w = None)"
    by (rule runs_call) simp_all
  have "kv_runs (\<lambda>w. fs_active w = None) read_file (\<lambda>x w. x = None \<and> fs_active w = None)"
    unfolding read_file_def by (rule runs_try [OF call]) (auto simp: runs_def)
  then have read: "kv_runs (\<lambda>w. fs_active w = None) rebuild_index (\<lambda>x w. x = (Map.empty, 0) \<and> fs_active w = None)"
    unfolding rebuild_index_def by (rule runs_try) (auto simp: runs_def)
  have create: "kv_runs (\<lambda>w. fs_active w = None) create_active (\<lambda>n w. kv_file w n [])"
    unfolding create_active_def
    by (rule runs_try [OF call]) (auto simp: runs_def kv_file_def Let_def data_of_def synced_of_def)
  have "kv_runs (\<lambda>w. kv_file w n []) (kv_reopen Map.empty 0 n) (\<lambda>x w. \<exists>i. opened Map.empty i [] x w)" for n
    using kv_file_reopen [of 0 "[]" n n Map.empty] by (rule runs_weaken) auto
  from runs_try [OF create this]
  have "kv_runs (\<lambda>w. x = (Map.empty, 0) \<and> fs_active w = None)
      (case x of (index, good) \<Rightarrow> try_io create_active (kv_reopen index good))
      (\<lambda>x w. \<exists>i. opened Map.empty i [] x w)" for x
    by (cases x) (auto simp: runs_def)
  from runs_try [OF read this] show ?thesis unfolding kv_open_file_eq .
qed

lemma opened_holds:
  assumes "opened (lww_all sts Map.empty) i (kv_image sts) x w" and "list_all kv_fits sts"
  shows "kv_holds sts (length sts) \<lparr>kv_disk = w, kv_index = x\<rparr>"
  using assms by (auto simp: opened_def kv_file_def kv_holds_def writer_ok_def content_def)

lemma kv_fresh_holds:
  assumes "fs_active w = None" and "kv_open w = Inr kv"
  shows "kv_holds [] 0 kv" and "wr_buf (kv_disk kv) = []" and "kv_index kv = Map.empty"
proof -
  obtain w' where o: "kv_open_file w = (Inr (kv_index kv), w')" "kv = \<lparr>kv_disk = w', kv_index = kv_index kv\<rparr>"
    using assms(2) by (auto simp: kv_open_def split: prod.splits sum.splits)
  obtain i where op: "opened Map.empty i [] (kv_index kv) w'" using runs_Inr [OF kv_fresh_open assms(1) o(1)] by blast
  then have "kv_holds [] 0 \<lparr>kv_disk = w', kv_index = kv_index kv\<rparr>" using opened_holds [of "[]"] by simp
  then show "kv_holds [] 0 kv" by (subst o(2))
  show "wr_buf (kv_disk kv) = []" using op by (subst o(2)) (simp add: opened_def)
  show "kv_index kv = Map.empty" using op by (simp add: opened_def)
qed

lemma kv_reopen_holds:
  assumes h: "kv_holds sts n kv" and o: "kv_open (killed ev kv) = Inr kv'"
  shows "\<exists>k \<le> length sts. n \<le> k \<and> kv_holds (take k sts) k kv' \<and> kv_index kv' = lww_all (take k sts) Map.empty"
proof -
  let ?w = "kv_disk kv" and ?i = "wr_file (kv_disk kv)"
  let ?bs = "data_of ?w ?i"
  have fit: "list_all kv_fits sts" using h by (simp add: kv_holds_def)
  have found: "kv_file (killed ev kv) ?i ?bs"
    using h by (simp add: kv_holds_def kv_file_def killed_def writer_ok_def)
  have bs: "?bs = take (length ?bs) (kv_image sts)"
    using h by (auto simp: kv_holds_def content_def) (metis append_eq_conv_conj)
  obtain k where k: "k \<le> length sts" "kv_scan ?bs 0 = (take k sts, length (kv_image (take k sts)))"
    "length (kv_image (take k sts)) \<le> length ?bs"
    "k < length sts \<longrightarrow> length ?bs < length (kv_image (take (Suc k) sts))"
    using kvf.scan_cut [OF fit, of "length ?bs" 0] bs by (metis add_0)
  have nk: "n \<le> k"
  proof (rule ccontr)
    assume "\<not> n \<le> k"
    then have "Suc k \<le> n" "k < length sts" using h by (auto simp: kv_holds_def)
    then have "take n sts = take (Suc k) sts @ take (n - Suc k) (drop (Suc k) sts)"
      by (metis add_diff_inverse_nat not_less take_add)
    then have "length (kv_image (take (Suc k) sts)) \<le> length (kv_image (take n sts))" by simp
    then show False using k(4) \<open>k < length sts\<close> h by (simp add: kv_holds_def)
  qed
  have image: "take (length (kv_image (take k sts))) ?bs = kv_image (take k sts)"
  proof -
    have "kv_image sts = kv_image (take k sts) @ kv_image (drop k sts)"
      by (metis append_take_drop_id image_of_simps(3))
    then show ?thesis using bs k(3) by (metis append_eq_conv_conj min.absorb1 take_take)
  qed
  have loop: "rebuild_loop ?bs 0 0 Map.empty = (lww_all (take k sts) Map.empty, length (kv_image (take k sts)))"
    using rebuild_loop_scan [of 0 ?bs] k(2) by simp
  obtain w' where w': "kv_open_file (killed ev kv) = (Inr (kv_index kv'), w')" "kv' = \<lparr>kv_disk = w', kv_index = kv_index kv'\<rparr>"
    using o by (auto simp: kv_open_def split: prod.splits sum.splits)
  have op: "opened (lww_all (take k sts) Map.empty) ?i (kv_image (take k sts)) (kv_index kv') w'"
    using runs_Inr [OF kv_file_open [OF loop k(3)] found w'(1)] by (simp only: image)
  have "list_all kv_fits (take k sts)" using fit by (auto simp: list_all_iff dest: in_set_takeD)
  from opened_holds [OF op this] have "kv_holds (take k sts) k kv'" using k(1) w'(2) by simp
  then show ?thesis using k(1) nk op by (auto simp: opened_def)
qed

end
