(* ===== verification/Kv_Durability.thy ===== *)
theory Kv_Durability
  imports Kv_Store
begin

text \<open>
  What the disk key-value store of \<open>examples/disk_kv_store.rs\<close> keeps over restarts: it is
  driven through batches, process kills and reopenings, every system call failing or
  writing less than asked at will.
\<close>

section \<open>Runs of the store\<close>

inductive kv_reachable :: "kv \<Rightarrow> bool" where
  fresh: "fs_active w = None \<Longrightarrow> kv_open w = Inr kv \<Longrightarrow> kv_reachable kv"
| persist: "kv_reachable kv \<Longrightarrow> small_frames b \<Longrightarrow> kv_persist_batch b kv = (r, kv') \<Longrightarrow> kv_reachable kv'"
| restart: "kv_reachable kv \<Longrightarrow> kv_open (killed events kv) = Inr kv' \<Longrightarrow> kv_reachable kv'"

lemma kv_reachable_holds: "kv_reachable kv \<Longrightarrow> \<exists>sts n. kv_holds sts n kv"
proof (induction rule: kv_reachable.induct)
  case (fresh w kv)
  then show ?case using kv_fresh_holds by blast
next
  case (persist kv b r kv')
  then show ?case using kv_holds_persist by blast
next
  case (restart kv events kv')
  then show ?case using kv_reopen_holds by blast
qed

text \<open>Batches that are all accepted.\<close>

fun kv_accepts :: "player_state list list \<Rightarrow> kv \<Rightarrow> kv option" where
  "kv_accepts [] kv = Some kv"
| "kv_accepts (b # bs) kv =
     (case kv_persist_batch b kv of
        (Inr u, kv') \<Rightarrow> kv_accepts bs kv'
      | (Inl e, kv') \<Rightarrow> None)"

text \<open>The index is the merge of all frames, and the buffer is empty.\<close>

definition kv_exact :: "player_state list \<Rightarrow> kv \<Rightarrow> bool" where
  "kv_exact sts kv \<longleftrightarrow> kv_holds sts (length sts) kv \<and> wr_buf (kv_disk kv) = []
     \<and> kv_index kv = lww_all sts Map.empty"

lemma kv_exact_persist:
  assumes e: "kv_exact sts kv" and "list_all kv_fits b" and p: "kv_persist_batch b kv = (Inr (), kv')"
  shows "kv_exact (sts @ b) kv'"
proof (cases "b = []")
  case True
  then show ?thesis using assms by (simp add: kv_persist_batch_def)
next
  case False
  have ok: "writer_ok (kv_disk kv)" using e by (simp add: kv_exact_def kv_holds_def)
  obtain k where "stores (kv_image (take k b)) (kv_disk kv) (kv_disk kv')" "take k b = b"
    "wr_buf (kv_disk kv') = []" "kv_index kv' = lww_all b (kv_index kv)"
    using persist_effect [OF ok _ p] False by blast
  then show ?thesis
    using e assms(2) by (auto simp: kv_exact_def kv_holds_def stores_def content_def)
qed

lemma kv_accepts_exact:
  "kv_accepts bs kv = Some kv' \<Longrightarrow> kv_exact sts kv \<Longrightarrow> list_all (list_all kv_fits) bs \<Longrightarrow>
    kv_exact (sts @ concat bs) kv'"
proof (induction bs arbitrary: sts kv)
  case (Cons b bs)
  obtain kv1 where "kv_persist_batch b kv = (Inr (), kv1)" "kv_accepts bs kv1 = Some kv'"
    using Cons.prems(1) by (auto split: prod.splits sum.splits)
  then show ?case using Cons.IH [of kv1 "sts @ b"] kv_exact_persist [OF Cons.prems(2)] Cons.prems(3) by simp
qed simp

lemma kv_fresh_exact: "fs_active w = None \<Longrightarrow> kv_open w = Inr kv \<Longrightarrow> kv_exact [] kv"
  using kv_fresh_holds [of w kv] by (simp add: kv_exact_def)

section \<open>Without failing calls\<close>

lemma kv_open_quiet:
  assumes "fs_events w = []"
  shows "\<exists>kv. kv_open w = Inr kv \<and> fs_events (kv_disk kv) = []"
proof -
  have create: "\<exists>n w'. create_active w = (Inr n, w') \<and> fs_events w' = []" if "fs_events w = []" for w
    using that by (cases "fs_active w") (simp_all add: create_active_def try_io_quiet sys_call_quiet Let_def)
  have "\<exists>x. rebuild_index w = (Inr x, w)"
    using assms
    by (cases "fs_active w") (simp_all add: rebuild_index_def read_file_def try_io_quiet sys_call_quiet)
  then obtain index good where 1: "rebuild_index w = (Inr (index, good), w)" by auto
  obtain n w2 where 2: "create_active w = (Inr n, w2)" "fs_events w2 = []" using create [OF assms] by blast
  define w3 where "w3 = snd ((if good < length (data_of w2 n) then try_io (set_len n good) (\<lambda>_. sync_data n) w2
      else (Inr (), w2)) :: (io_error + unit) \<times> wal)"
  have 3: "(if good < length (data_of w2 n) then try_io (set_len n good) (\<lambda>_. sync_data n) w2 else (Inr (), w2))
      = (Inr (), w3)" "fs_events w3 = []"
    using 2(2) by (simp_all add: w3_def set_len_def try_io_quiet sys_call_quiet sync_data_quiet)
  obtain m w4 where 4: "create_active w3 = (Inr m, w4)" "fs_events w4 = []" using create [OF 3(2)] by blast
  have "kv_reopen index good n w2 = (Inr index, w4\<lparr>wr_file := m, wr_pos := length (data_of w4 m), wr_buf := []\<rparr>)"
    by (simp only: kv_reopen_def try_io_def sys_call_quiet [OF 2(2)] 3(1) [unfolded try_io_def] 4(1) prod.case sum.case)
  then have "kv_open_file w = (Inr index, w4\<lparr>wr_file := m, wr_pos := length (data_of w4 m), wr_buf := []\<rparr>)"
    by (simp only: kv_open_file_eq try_io_def 1 2(1) prod.case sum.case)
  then show ?thesis using 4(2) by (simp add: kv_open_def)
qed

lemma append_states_quiet:
  "fs_events w = [] \<Longrightarrow> \<exists>w'. append_states sts w = (Inr (), w') \<and> fs_events w' = []"
proof (induction sts arbitrary: w)
  case (Cons st sts)
  obtain w1 where "bw_write_all (encode_record st) w = (Inr (), w1)" "fs_events w1 = []"
    using bw_write_all_quiet [OF Cons.prems, of "encode_record st"] by auto
  with Cons.IH [of w1] show ?case by (simp add: try_io_quiet)
qed simp

lemma kv_persist_quiet:
  assumes "fs_events (kv_disk kv) = []"
  shows "\<exists>kv'. kv_persist_batch b kv = (Inr (), kv') \<and> fs_events (kv_disk kv') = []"
proof (cases "b = []")
  case True
  then show ?thesis using assms by (simp add: kv_persist_batch_def)
next
  case False
  obtain w1 where "append_states b (kv_disk kv) = (Inr (), w1)" "fs_events w1 = []"
    using append_states_quiet [OF assms] by blast
  moreover obtain w2 where "bw_flush w1 = (Inr (), w2)" "fs_events w2 = []"
    using bw_flush_quiet [OF \<open>fs_events w1 = []\<close>] by blast
  ultimately show ?thesis using False by (simp add: kv_persist_batch_def sync_data_quiet)
qed

section \<open>A store on an empty directory\<close>

definition blank_disk :: "io_event list \<Rightarrow> wal" where
  "blank_disk events =
     \<lparr>fs_inodes = [], fs_active = None, fs_temp = None, fs_after_crash = [None], fs_events = events,
      wal_fsync = True, wr_file = 0, wr_pos = 0, wr_buf = [], write_offset = 0, last_lsn = 0\<rparr>"

definition blank_store :: "io_event list \<Rightarrow> kv" where
  "blank_store events =
     \<lparr>kv_disk = \<lparr>fs_inodes = [\<lparr>ino_data = [], ino_synced = 0\<rparr>], fs_active = Some 0, fs_temp = None,
        fs_after_crash = [Some 0, None], fs_events = events, wal_fsync = True, wr_file = 0, wr_pos = 0,
        wr_buf = [], write_offset = 0, last_lsn = 0\<rparr>,
      kv_index = Map.empty\<rparr>"

lemma open_blank: "kv_open (blank_disk (Good # Good # Good # Good # events)) = Inr (blank_store events)"
  by (simp add: kv_open_def kv_open_file_def rebuild_index_def read_file_def try_io_def sys_call_def
      next_event_def blank_disk_def blank_store_def create_active_def Let_def data_of_def)

lemma blank_reachable: "kv_reachable (blank_store events)"
  by (rule kv_reachable.fresh [OF _ open_blank]) (simp add: blank_disk_def)

definition sample_state :: player_state where
  "sample_state = \<lparr>ps_id = 7, ps_version = 3, ps_blob = [1, 2, 3]\<rparr>"

lemma small_sample: "small_frames [sample_state]"
  by (simp add: sample_state_def length_encode_record BUF_CAPACITY_def)

lemma sample_persisted:
  obtains kv1 where "kv_persist_batch [sample_state] (blank_store []) = (Inr (), kv1)"
proof -
  have "fs_events (kv_disk (blank_store [])) = []" by (simp add: blank_store_def)
  from kv_persist_quiet [OF this] that show ?thesis by blast
qed

text \<open>One stray byte in front of a frame hides it.\<close>

lemma decode_record_shifted: "decode_record (x # encode_record st) = TornTail"
proof -
  let ?buf = "x # encode_record st"
  have "take 3 (encode_record st) = take 3 (u32_to_le_bytes REC_MAGIC)"
    by (simp add: encode_record_split record_body_def Let_def)
  moreover have "u32_to_le_bytes REC_MAGIC = [0x42, 0x44, 0x56, 0x4B]"
  proof -
    have "unat REC_MAGIC = 0x4B564442" by (simp add: REC_MAGIC_def)
    moreover have "(4::nat) = Suc (Suc (Suc (Suc 0)))" by simp
    ultimately show ?thesis by (simp only: u32_to_le_bytes_def le_bytes.simps) simp
  qed
  ultimately have "slice 0 4 ?buf = [x, 0x42, 0x44, 0x56]"
    by (simp add: slice_def numeral_eq_Suc)
  moreover have "u32_from_le_bytes [x, 0x42, 0x44, 0x56] \<noteq> REC_MAGIC"
  proof
    assume "u32_from_le_bytes [x, 0x42, 0x44, 0x56] = REC_MAGIC"
    then have "unat (u32_from_le_bytes [x, 0x42, 0x44, 0x56]) = 0x4B564442"
      by (simp add: REC_MAGIC_def)
    moreover have "unat (u32_from_le_bytes [x, 0x42, 0x44, 0x56]) = unat x + 0x56444200"
      using unat_u8_bound [of x] by (simp add: u32_from_le_bytes_def unat_word_of_nat_u32 del: of_nat_add of_nat_mult)
    ultimately show False by simp
  qed
  moreover have "\<not> length ?buf < REC_HEADER_LEN" by (simp add: length_encode_record REC_HEADER_LEN_def)
  ultimately show ?thesis by (simp add: decode_record_def)
qed

text \<open>What a failed append of a large frame leaves.\<close>

lemma large_append_fails:
  assumes "BUF_CAPACITY \<le> length (encode_record st)"
  shows "\<exists>x kv1. kv_persist_batch [st] (blank_store [Short 1, Fail OtherIo]) = (Inl (Transient ''disk append failed''), kv1)
    \<and> writer_ok (kv_disk kv1) \<and> content (kv_disk kv1) = [x] \<and> fs_events (kv_disk kv1) = []
    \<and> fs_active (kv_disk kv1) = Some (wr_file (kv_disk kv1)) \<and> kv_index kv1 = Map.empty"
proof -
  let ?w = "kv_disk (blank_store [Short 1, Fail OtherIo])"
  obtain x xs where enc: "encode_record st = x # xs" by (cases "encode_record st") simp_all
  have long: "8192 \<le> Suc (length xs)" "xs \<noteq> []" using assms by (auto simp: enc BUF_CAPACITY_def)
  define w1 where "w1 = ?w\<lparr>fs_inodes := [\<lparr>ino_data = [x], ino_synced = 0\<rparr>], fs_events := [], wr_pos := 1\<rparr>"
  have f: "file_write_all 0 0 (x # xs) ?w = (Inl OtherIo, 1, w1\<lparr>wr_pos := 0\<rparr>)"
    using long by (simp add: file_write_all.simps sys_write_def next_event_def put_bytes_def upd_inode_def
        blank_store_def overwrite_def w1_def)
  have b: "bw_flush ?w = (Inr (), ?w)" by (simp add: bw_flush_def blank_store_def file_write_all.simps)
  have "bw_write_all (encode_record st) ?w = (Inl OtherIo, w1)"
    using long f b
    by (simp add: bw_write_all_def Let_def BUF_CAPACITY_def enc try_io_def) (simp add: blank_store_def w1_def)
  then have "kv_persist_batch [st] (blank_store [Short 1, Fail OtherIo])
      = (Inl (Transient ''disk append failed''), (blank_store [Short 1, Fail OtherIo])\<lparr>kv_disk := w1\<rparr>)"
    by (simp add: kv_persist_batch_def try_io_def)
  then show ?thesis
    by (intro exI conjI) (auto simp: w1_def blank_store_def writer_ok_def content_def data_of_def synced_of_def)
qed

section \<open>Properties\<close>

text \<open>
  the frame of a player state decodes to that state, whatever follows it in the data
  file, and every proper prefix of the frame is a torn tail.
\<close>

theorem kv_record_roundtrip:
  assumes "length (ps_blob st) + 32 < 2 ^ 32"
  shows "decode_record (encode_record st @ rest) = Record st (32 + length (ps_blob st))
    \<and> (\<forall>k < length (encode_record st). decode_record (take k (encode_record st)) = TornTail)"
proof -
  have "kv_fits st" using assms by (simp add: kv_fits_def kv_layout)
  then show ?thesis
    using decode_record_encode decode_record_cut by (simp add: length_encode_record)
qed

theorem kv_record_roundtrip_witness:
  "decode_record (encode_record sample_state @ [9]) = Record sample_state 35
    \<and> decode_record (take 34 (encode_record sample_state)) = TornTail"
  using kv_record_roundtrip [of sample_state "[9]"] by (simp add: sample_state_def length_encode_record)

lemma kv_killed_grows:
  assumes "kv_reachable kv"
  shows "(\<exists>kv'. kv_open (killed [] kv) = Inr kv')
    \<and> (\<forall>events kv'. kv_open (killed events kv) = Inr kv' \<longrightarrow> grows (kv_load kv) (kv_load kv'))"
proof (intro conjI allI impI)
  show "\<exists>kv'. kv_open (killed [] kv) = Inr kv'" using kv_open_quiet [of "killed [] kv"] by (auto simp: killed_def)
next
  fix events kv'
  assume o: "kv_open (killed events kv) = Inr kv'"
  obtain sts n where h: "kv_holds sts n kv" using kv_reachable_holds [OF assms] by blast
  obtain k where k: "n \<le> k" "kv_index kv' = lww_all (take k sts) Map.empty"
    using kv_reopen_holds [OF h o] by blast
  have "set (take n sts) \<subseteq> set (take k sts)" using k(1) by (simp add: set_take_subset_set_take)
  then have "grows (lww_all (take n sts) Map.empty) (lww_all (take k sts) Map.empty)"
    by (auto simp: grows_def covers_lww_all_iff)
  then have "grows (kv_index kv) (kv_index kv')" using h k(2) grows_trans by (simp add: kv_holds_def) blast
  then show "grows (kv_load kv) (kv_load kv')" by (simp add: kv_load_def)
qed

text \<open>
  C20: What the store has acknowledged survives a process kill. After any history of accepted,
  failed and partly written batches whose frames are below the 8 KiB of the buffered writer, and
  of earlier restarts, a store that is killed at any moment can be opened again, and each time
  it opens it holds every player at the version it had or at a newer one.
\<close>

theorem disk_store_survives_kill:
  assumes "kv_reachable kv"
  shows "(\<exists>kv'. kv_open (killed [] kv) = Inr kv')
    \<and> (\<forall>events kv'. kv_open (killed events kv) = Inr kv' \<longrightarrow> grows (kv_load kv) (kv_load kv'))"
  using assms by (rule kv_killed_grows)

theorem disk_store_survives_kill_witness:
  "\<exists>kv1. kv_persist_batch [sample_state] (blank_store []) = (Inr (), kv1)
    \<and> (\<forall>events kv2. kv_open (killed events kv1) = Inr kv2 \<longrightarrow> covers (kv_load kv2) sample_state)"
proof -
  obtain kv1 where p: "kv_persist_batch [sample_state] (blank_store []) = (Inr (), kv1)" by (rule sample_persisted)
  have "kv_reachable kv1" by (rule kv_reachable.persist [OF blank_reachable small_sample p])
  note safe = disk_store_survives_kill [OF this]
  have "covers (kv_load kv1) sample_state" using diskkv.persist_covers [OF p] by simp
  then show ?thesis using p safe unfolding grows_def by blast
qed

text \<open>
  C21: reopening reproduces the index.  A store that was opened on an empty directory and
  has accepted a sequence of batches holds their merge, and a store opened on its file
  holds exactly the same.
\<close>

theorem disk_store_reopens_exactly:
  assumes "fs_active w = None" and "kv_open w = Inr kv" and "kv_accepts bs kv = Some kv1"
    and "\<forall>b \<in> set bs. \<forall>st \<in> set b. length (ps_blob st) + 32 < 2 ^ 32"
    and "kv_open (killed events kv1) = Inr kv2"
  shows "kv_load kv1 = lww_all (concat bs) Map.empty \<and> kv_load kv2 = kv_load kv1"
proof -
  have "list_all (list_all kv_fits) bs" using assms(4) by (simp add: list_all_iff kv_fits_def kv_layout)
  from kv_accepts_exact [OF assms(3) kv_fresh_exact [OF assms(1,2)] this]
  have e: "kv_exact (concat bs) kv1" by simp
  obtain k where "k \<le> length (concat bs)" "length (concat bs) \<le> k"
    "kv_index kv2 = lww_all (take k (concat bs)) Map.empty"
    using kv_reopen_holds [OF _ assms(5)] e unfolding kv_exact_def by blast
  then show ?thesis using e by (simp add: kv_exact_def kv_load_def)
qed

theorem disk_store_reopens_exactly_witness:
  "\<exists>kv1 kv2. kv_accepts [[sample_state]] (blank_store []) = Some kv1 \<and> kv_open (killed [] kv1) = Inr kv2
    \<and> kv_load kv2 7 = Some sample_state"
proof -
  obtain kv1 where p: "kv_persist_batch [sample_state] (blank_store []) = (Inr (), kv1)" by (rule sample_persisted)
  then have acc: "kv_accepts [[sample_state]] (blank_store []) = Some kv1" by simp
  obtain kv2 where o: "kv_open (killed [] kv1) = Inr kv2"
    using kv_open_quiet [of "killed [] kv1"] by (auto simp: killed_def)
  have "kv_load kv1 = lww_all (concat [[sample_state]]) Map.empty \<and> kv_load kv2 = kv_load kv1"
    by (rule disk_store_reopens_exactly [OF _ open_blank acc _ o]) (simp_all add: blank_disk_def sample_state_def)
  then show ?thesis using acc o by (simp add: lww_put_def sample_state_def)
qed

text \<open>
  a failed write of a large state hides what is stored later.  A frame of at least
  8 KiB bypasses the write buffer; when the file takes one byte of it and then fails, the
  store reports a retryable error, but the byte stays.  The next batch is acknowledged and
  served by \<open>load\<close>, and after a restart the store is empty.
\<close>

theorem disk_store_failed_append_hides_later:
  assumes "BUF_CAPACITY \<le> length (encode_record st)"
  shows "\<exists>kv1 kv2 kv3. kv_persist_batch [st] (blank_store [Short 1, Fail OtherIo]) = (Inl (Transient ''disk append failed''), kv1)
    \<and> kv_persist_batch [st'] kv1 = (Inr (), kv2) \<and> kv_load kv2 (ps_id st') = Some st'
    \<and> kv_open (killed [] kv2) = Inr kv3 \<and> kv_load kv3 = Map.empty"
proof -
  obtain x kv1 where 1: "kv_persist_batch [st] (blank_store [Short 1, Fail OtherIo]) = (Inl (Transient ''disk append failed''), kv1)"
    "writer_ok (kv_disk kv1)" "content (kv_disk kv1) = [x]" "fs_events (kv_disk kv1) = []"
    "fs_active (kv_disk kv1) = Some (wr_file (kv_disk kv1))" "kv_index kv1 = Map.empty"
    using large_append_fails [OF assms] by blast
  obtain kv2 where 2: "kv_persist_batch [st'] kv1 = (Inr (), kv2)" using kv_persist_quiet [OF 1(4)] by blast
  let ?w = "kv_disk kv2" and ?bs = "x # encode_record st'"
  have st: "stores (encode_record st') (kv_disk kv1) ?w" and buf: "wr_buf ?w = []"
    and index: "kv_index kv2 = lww_all [st'] (kv_index kv1)"
    using persist_effect [OF 1(2) _ 2] by auto
  have "content ?w = ?bs" using st 1(3) by (simp add: stores_def)
  then have data: "data_of ?w (wr_file ?w) = ?bs" using buf by (simp add: content_def)
  have "writer_ok ?w" "fs_active ?w = Some (wr_file ?w)" using st 1(5) by (simp_all add: stores_def)
  then have "kv_file (killed [] kv2) (wr_file ?w) ?bs"
    using data by (simp add: kv_file_def killed_def writer_ok_def)
  moreover have "rebuild_loop ?bs 0 0 Map.empty = (Map.empty, 0)"
    by (simp add: rebuild_loop.simps [of ?bs 0] decode_record_shifted)
  moreover obtain kv3 where 3: "kv_open (killed [] kv2) = Inr kv3"
    using kv_open_quiet [of "killed [] kv2"] by (auto simp: killed_def)
  moreover obtain w' where "kv_open_file (killed [] kv2) = (Inr (kv_index kv3), w')"
    using 3 by (auto simp: kv_open_def split: prod.splits sum.splits)
  ultimately have "opened Map.empty (wr_file ?w) [] (kv_index kv3) w'"
    using runs_Inr [OF kv_file_open [of ?bs Map.empty 0]] by fastforce
  then have "kv_load kv3 = Map.empty" by (simp add: opened_def kv_load_def)
  moreover have "kv_load kv2 (ps_id st') = Some st'" using index 1(6) by (simp add: kv_load_def lww_put_def)
  ultimately show ?thesis using 1(1) 2 3 by blast
qed

definition large_state :: player_state where
  "large_state = \<lparr>ps_id = 1, ps_version = 1, ps_blob = replicate 8160 0\<rparr>"

theorem disk_store_failed_append_hides_later_witness:
  "\<exists>kv1 kv2 kv3. kv_persist_batch [large_state] (blank_store [Short 1, Fail OtherIo]) = (Inl (Transient ''disk append failed''), kv1)
    \<and> kv_persist_batch [sample_state] kv1 = (Inr (), kv2)
    \<and> kv_open (killed [] kv2) = Inr kv3 \<and> kv_load kv3 = Map.empty"
  using disk_store_failed_append_hides_later [of large_state sample_state]
  by (auto simp: length_encode_record large_state_def BUF_CAPACITY_def)

end
