(* ===== verification/Crew_Disk.thy ===== *)
theory Crew_Disk
  imports Crew_Calls Kv_Durability
begin

text \<open>
  The pipeline over the disk store of \<open>examples/disk_kv_store.rs\<close>: what the threads of
  \<open>Crew\<close> have brought into the store is still there after a process kill.  The states that
  travel through the pipeline stay small because the submitted ones are, which is what the
  store's file format asks for; the store is therefore always in a state from which it
  reopens.
\<close>

section \<open>What travels through the pipeline\<close>

fun calling :: "hand \<Rightarrow> write_request set" where
  "calling (Drawn r) = {r}"
| "calling (Numbered r) = {r}"
| "calling (Pinned r) = {r}"
| "calling (Written r) = {r}"
| "calling h = {}"

definition hand_all :: "hand \<Rightarrow> player_state set" where
  "hand_all h = hand_states h \<union> to_state ` (carried h \<union> calling h)"

definition everywhere :: "(player_state \<Rightarrow> bool) \<Rightarrow> 'd crew \<Rightarrow> bool" where
  "everywhere P c \<longleftrightarrow> (\<forall>r \<in> set (queued (cr_engine c)). P (to_state r))
     \<and> (\<forall>i st. live (en_cache (cr_engine c)) i = Some st \<longrightarrow> P st) \<and> (\<forall>t. \<forall>s \<in> hand_all (cr_hands c t). P s)"

lemma hand_all_simps [simp]:
  "hand_all Idle = {}" "hand_all (Drawn r) = {to_state r}" "hand_all (Numbered r) = {to_state r}"
  "hand_all (Pinned r) = {to_state r}" "hand_all (Unlogged l) = {}" "hand_all (Written r) = {to_state r}"
  "hand_all (Carrying rs) = to_state ` set rs" "hand_all (carry rs) = to_state ` set rs"
  "hand_all (Lifted rs) = to_state ` set rs" "hand_all (Batch sts) = set sts" "hand_all (Stamped sts l) = set sts"
  "hand_all (Logged sts l k) = set sts" "hand_all (Stored l) = {}" "hand_all (Weighed l) = {}"
  "hand_all (Refused sts) = set sts" "hand_all (weigh l e) = {}"
  by (auto simp: hand_all_def carry_def weigh_def split: option.split)

lemma everywhere_with_hand:
  assumes "everywhere P c" and "\<forall>s \<in> hand_all h. P s" and "\<forall>r \<in> set (queued e'). P (to_state r)"
    and "\<forall>i st. live (en_cache e') i = Some st \<longrightarrow> P st"
  shows "everywhere P (with_hand t h e' c)"
  using assms by (simp add: everywhere_def)

lemma everywhere_other [simp]:
  "everywhere P (c\<lparr>cr_accepted := a\<rparr>) = everywhere P c" "everywhere P (c\<lparr>cr_promised := ps\<rparr>) = everywhere P c"
  "everywhere P (c\<lparr>cr_drawn := ds\<rparr>) = everywhere P c"
  by (simp_all add: everywhere_def)

text \<open>Steps that leave ring and cache alone.\<close>

lemma everywhere_aside:
  assumes "everywhere P c" and "\<forall>s \<in> hand_all h. P s" and "en_ring e' = en_ring (cr_engine c)"
    and "en_cache e' = en_cache (cr_engine c)"
  shows "everywhere P (with_hand t h e' c)"
  using assms by (simp add: everywhere_def)

lemma lww_all_origin: "lww_all sts m i = Some st \<Longrightarrow> st \<in> set sts \<or> m i = Some st"
proof (induction sts arbitrary: m)
  case (Cons s sts)
  from Cons.IH [of "lww_put s m"] Cons.prems show ?case
    by (auto simp: lww_put_def split: option.splits if_splits)
qed simp

lemma everywhere_step:
  assumes "crew_step p c c'" and ok: "engine_ok (cr_engine c)" and ev: "everywhere P c"
    and new: "\<forall>r \<in> set (cr_drawn c'). P (to_state r)"
  shows "everywhere P c'"
proof -
  let ?e = "cr_engine c"
  have hand: "\<forall>s \<in> hand_all (cr_hands c t). P s" for t using ev by (simp add: everywhere_def)
  have live: "live (en_cache ?e) i = Some st \<Longrightarrow> P st" for i st using ev by (simp add: everywhere_def)
  have q: "r \<in> set (queued ?e) \<Longrightarrow> P (to_state r)" for r using ev by (simp add: everywhere_def)
  have inv: "ring_inv (en_ring ?e)" "cache_inv (en_cache ?e)" using ok by (simp_all add: engine_ok_def)
  have enq: "r' \<in> set (ring_contents m) \<Longrightarrow> r' = r \<or> r' \<in> set (queued ?e)"
    if "try_enqueue r (en_ring ?e) = (out, m)" for r r' out m
    using ringq.enqueue_contents [OF inv(1), of r] that by (auto split: if_splits)
  show ?thesis
    using assms(1)
  proof (cases rule: crew_step.cases)
    case (draws t seq s h r i v b)
    have "\<forall>s \<in> hand_all (h r). P s" using new draws(1,4) by auto
    then show ?thesis unfolding draws(1) by (simp, intro everywhere_aside [OF ev]) auto
  next
    case (offers t r out m)
    have "P (to_state r)" using hand [of t] offers(2) by simp
    then show ?thesis
      unfolding offers(1) using enq [OF offers(3)] q live by (simp, intro everywhere_with_hand [OF ev]) auto
  next
    case (pins t r)
    then show ?thesis using hand [of t] by (simp, intro everywhere_aside [OF ev]) auto
  next
    case (writes t r h e')
    have "hand_all h \<subseteq> {to_state r}" "en_ring e' = en_ring ?e" "en_cache e' = en_cache ?e"
      using writes(3) by (auto simp: write_durable_def split: sum.splits prod.splits)
    then show ?thesis unfolding writes(1) using hand [of t] writes(2) by (intro everywhere_aside [OF ev]) auto
  next
    case (unpins t l)
    then show ?thesis by (simp, intro everywhere_aside [OF ev]) auto
  next
    case (promises t r out m)
    have "P (to_state r)" using hand [of t] promises(2) by simp
    then show ?thesis
      unfolding promises(1) using enq [OF promises(3)] q live by (simp, intro everywhere_with_hand [OF ev]) auto
  next
    case (pops t rs r m)
    have c: "queued ?e = r # ring_contents m"
      using ringq.dequeue_some [OF inv(1)] ringq.dequeue_none [OF inv(1)] pops(3) by (cases "queued ?e") simp_all
    show ?thesis
      unfolding pops(1) using hand [of t] pops(2) q live c by (intro everywhere_with_hand [OF ev]) auto
  next
    case (lifts t r rs)
    then show ?thesis using hand [of t] by (simp, intro everywhere_aside [OF ev]) auto
  next
    case (applies t r rs)
    have "live (cache_apply r (en_cache ?e)) i = Some st \<Longrightarrow> P st" for i st
      using hand [of t] applies(2) live by (auto simp: live_apply lww_put_def split: option.splits if_splits)
    then show ?thesis
      unfolding applies(1) using hand [of t] applies(2) q by (intro everywhere_with_hand [OF ev]) auto
  next
    case (takes t states e')
    note k = take_dirty_spec [OF inv(2) take_batch_takes(1) [OF takes(3)]] and f = take_batch_frame [OF takes(3)]
    have "\<forall>s \<in> set states. P s" using k(3) live by blast
    then show ?thesis
      unfolding takes(1) using k(1) f q live by (intro everywhere_with_hand [OF ev]) auto
  next
    case (stamps t states l s)
    then show ?thesis using hand [of t] by (simp, intro everywhere_aside [OF ev]) auto
  next
    case (logs t states l fallback h e')
    have "hand_all h \<subseteq> set states" "en_ring e' = en_ring ?e" "en_cache e' = en_cache ?e"
      using logs(3) by (auto simp: append_stamped_def Let_def split: sum.splits prod.splits)
    then show ?thesis unfolding logs(1) using hand [of t] logs(2) by (intro everywhere_aside [OF ev]) auto
  next
    case (persists t states l k h e')
    have "hand_all h \<subseteq> set states" "en_ring e' = en_ring ?e" "en_cache e' = en_cache ?e"
      using persists(3) by (auto simp: try_store_def split: sum.splits prod.splits if_splits)
    then show ?thesis unfolding persists(1) using hand [of t] persists(2) by (intro everywhere_aside [OF ev]) auto
  next
    case (weighs t l)
    then show ?thesis by (simp, intro everywhere_aside [OF ev]) auto
  next
    case (trims t l out w)
    then show ?thesis by (simp, intro everywhere_aside [OF ev]) auto
  next
    case (requeues t states)
    have "live (requeue_dirty states (en_cache ?e)) i = Some st \<Longrightarrow> P st" for i st
      using hand [of t] requeues(2) live lww_all_origin [of states "live (en_cache ?e)" i st] by (auto simp: live_requeue)
    then show ?thesis
      unfolding requeues(1) using q by (intro everywhere_with_hand [OF ev]) auto
  next
    case (counts m k)
    then show ?thesis using ev by (simp add: everywhere_def)
  qed
qed

text \<open>The store sees only calls of \<open>persist\<close> with states that satisfy \<open>P\<close>.\<close>

lemma store_step:
  assumes "crew_step p c c'" and ev: "everywhere P c" and i: "I (en_store (cr_engine c))"
    and calls: "\<And>b d r d'. I d \<Longrightarrow> \<forall>s \<in> set b. P s \<Longrightarrow> p b d = (r, d') \<Longrightarrow> I d'"
  shows "I (en_store (cr_engine c'))"
  using assms(1)
proof (cases rule: crew_step.cases)
  case (persists t states l k h e')
  obtain r d where d: "p states (en_store (cr_engine c)) = (r, d)" by fastforce
  have "\<forall>s \<in> hand_all (cr_hands c t). P s" using ev by (simp add: everywhere_def)
  then have "I d" using calls [OF i _ d] persists(2) by simp
  then show ?thesis using persists(1,3) d by (auto simp: try_store_def)
next
  case (writes t r h e')
  then show ?thesis using i write_durable_facts(1) [OF writes(3)] by simp (metis engine.select_convs(4) engine.surjective engine.update_convs(3))
next
  case (takes t states e')
  then show ?thesis using i take_batch_frame [OF takes(3)] by simp
next
  case (logs t states l fallback h e')
  then show ?thesis using i append_stamped_facts(1) [OF logs(3)] by simp (metis engine.select_convs(4) engine.surjective engine.update_convs(3))
qed (use i in simp_all)

lemma drawn_grows: "crew_step p c c' \<Longrightarrow> set (cr_drawn c) \<subseteq> set (cr_drawn c')"
  by (cases rule: crew_step.cases) auto

lemma reachable_store:
  assumes "store_trait p load" and "pipeline_ok load e" and "everywhere P (crew_start e)" and "I (en_store e)"
    and calls: "\<And>b d r d'. I d \<Longrightarrow> \<forall>s \<in> set b. P s \<Longrightarrow> p b d = (r, d') \<Longrightarrow> I d'"
    and "crew_reachable p e c" and "\<forall>r \<in> set (cr_drawn c). P (to_state r)"
  shows "I (en_store (cr_engine c)) \<and> everywhere P c"
  using assms(6,7)
proof induction
  case start
  then show ?case using assms(3,4) by (simp add: crew_start_def)
next
  case (step c c')
  have "\<forall>r \<in> set (cr_drawn c). P (to_state r)" using step.prems drawn_grows [OF step.hyps(2)] by blast
  then have c: "I (en_store (cr_engine c))" "everywhere P c" using step.IH by blast+
  have "engine_ok (cr_engine c)"
    using store_trait.crew_ok_reachable [OF assms(1) step.hyps(1) assms(2)] by (simp add: crew_ok_def)
  then have "everywhere P c'" using everywhere_step [OF step.hyps(2)] c(2) step.prems by blast
  moreover have "I (en_store (cr_engine c'))"
    by (rule store_step [where I = I and P = P, OF step.hyps(2)]) (use c calls in blast)+
  ultimately show ?case by blast
qed

section \<open>Nothing is invented\<close>

text \<open>
  C5: Nothing is invented.  From an engine with empty ring, cache and store, in every
  interleaving and whatever disk and store answer, each state in the ring, in the cache, in
  some thread's hands or in the store is the state of a request that some thread submitted.
\<close>

theorem every_state_was_submitted:
  assumes "store_trait persist load" and "engine_ok e" and "queued e = []" and "en_cache e = cache_new"
    and "load (en_store e) = Map.empty" and "crew_reachable persist e c"
    and "(\<exists>r \<in> set (queued (cr_engine c)). st = to_state r) \<or> live (en_cache (cr_engine c)) i = Some st
      \<or> st \<in> hand_states (cr_hands c t) \<or> st \<in> to_state ` carried (cr_hands c t)
      \<or> load (en_store (cr_engine c)) i = Some st"
  shows "\<exists>r \<in> set (cr_drawn c). st = to_state r"
proof -
  let ?P = "\<lambda>st. \<exists>r \<in> set (cr_drawn c). st = to_state r"
  let ?I = "\<lambda>d. \<forall>i st. load d i = Some st \<longrightarrow> ?P st"
  have ok: "pipeline_ok load e" using assms(2,4) by (simp add: pipeline_ok_def backed_def)
  have ev: "everywhere ?P (crew_start e)" using assms(3,4) by (simp add: everywhere_def crew_start_def)
  have calls: "?I d'" if "?I d" "\<forall>s \<in> set b. ?P s" "persist b d = (x, d')" for b d x d'
  proof (intro allI impI)
    fix i st assume st: "load d' i = Some st"
    have "load d' = load d \<or> load d' = lww_all b (load d)"
      using store_trait.persist_ok [OF assms(1), of b d d'] store_trait.persist_err [OF assms(1), of b d _ d'] that(3)
      by (cases x) auto
    then have "load d i = Some st \<or> st \<in> set b" using st lww_all_origin [of b "load d" i st] by auto
    then show "?P st" using that(1,2) by blast
  qed
  have "?I (en_store (cr_engine c)) \<and> everywhere ?P c"
    by (rule reachable_store [where I = ?I and P = ?P, OF assms(1) ok ev _ calls assms(6)]) (auto simp: assms(5))
  then show ?thesis using assms(7) unfolding everywhere_def hand_all_def by blast
qed

theorem every_state_was_submitted_witness:
  "\<exists>c. crew_reachable mock_persist_batch sample_engine c
    \<and> (\<exists>r \<in> set (queued (cr_engine c)). to_state seventh = to_state r) \<and> seventh \<in> set (cr_drawn c)"
proof -
  obtain m where m: "crew_reachable mock_persist_batch sample_engine ((crew_start (sample_engine\<lparr>en_lsn := lsn_new 2, en_ring := m\<rparr>))
      \<lparr>cr_drawn := [seventh], cr_accepted := [to_state seventh]\<rparr>)" (is "crew_reachable _ _ ?c")
    and q: "ring_contents m = [seventh]" by (rule seventh_accepted)
  have s: "engine_ok sample_engine" "queued sample_engine = []" "en_cache sample_engine = cache_new"
    "mock_load (en_store sample_engine) = Map.empty"
    using sample_engine_ok by (simp_all add: pipeline_ok_def sample_engine_def sample_ring mock_load_def mock_new_def)
  have "\<exists>r \<in> set (queued (cr_engine ?c)). to_state seventh = to_state r" using q by (simp add: crew_start_def)
  with every_state_was_submitted [OF mock.store_trait_axioms s m, of "to_state seventh"] show ?thesis
    using m by (intro exI [of _ ?c]) auto
qed

section \<open>From submit to the next process\<close>

text \<open>
  C4: End to end over the disk store, for submitted blobs below 8160 bytes, whose frames are
  below the 8 KiB of the buffered writer, and from an empty ring and cache over a reachable
  store. However the threads interleaved and whatever calls of the file system failed or fell
  short: once the threads are idle with ring and dirty set empty, every state that
  \<open>submit\<close> accepted survives a kill of the process, and the next
  \<open>open\<close> of the store's file, when it succeeds, finds it or a newer version.
\<close>

theorem accepted_states_survive_kill:
  assumes "pipeline_ok kv_load e" and "kv_reachable (en_store e)" and "queued e = []" and "en_cache e = cache_new"
    and "crew_reachable kv_persist_batch e c" and "\<forall>r \<in> set (cr_drawn c). length (wr_blob r) + 32 < 8192"
    and "\<forall>t. cr_hands c t = Idle" and "queued (cr_engine c) = []" and "dirty_set (cr_engine c) = {}"
    and "kv_open (killed events (en_store (cr_engine c))) = Inr kv'" and "st \<in> set (cr_accepted c)"
  shows "covers (kv_load kv') st"
proof -
  note tr = diskkv.store_trait_axioms
  let ?P = "\<lambda>st. length (encode_record st) < BUF_CAPACITY"
  have "everywhere ?P (crew_start e)" using assms(3,4) by (simp add: everywhere_def crew_start_def)
  moreover have "\<forall>r \<in> set (cr_drawn c). ?P (to_state r)"
    using assms(6) by (simp add: length_encode_record BUF_CAPACITY_def to_state_def)
  moreover have "kv_reachable d'" if "kv_reachable d" "\<forall>s \<in> set b. ?P s" "kv_persist_batch b d = (r, d')" for b d r d'
    using that kv_reachable.persist by (simp add: small_frames_def)
  ultimately have kv: "kv_reachable (en_store (cr_engine c))"
    using reachable_store [where P = ?P and I = kv_reachable, OF tr assms(1) _ assms(2) _ assms(5)] by blast
  have "covers (kv_load (en_store (cr_engine c))) st"
    using threads_lose [OF tr assms(1,5,11)] assms(7-9) by simp
  moreover have "grows (kv_load (en_store (cr_engine c))) (kv_load kv')"
    using kv_killed_grows [OF kv] assms(10) by blast
  ultimately show ?thesis unfolding grows_def by blast
qed

text \<open>A small engine over a store on an empty directory, and a submit followed by \<open>flush_now\<close>.\<close>

definition disk_engine :: "kv engine" where
  "disk_engine =
     \<lparr>en_ring = ring_new 2, en_cache = cache_new, en_wal = sample_log, en_store = blank_store [],
      en_metrics = metrics_new, en_lsn = lsn_new 1, en_config = sample_config,
      en_order = (\<lambda>_. ascending), en_takes = 0, en_clock = []\<rparr>"

lemma disk_engine_ok: "pipeline_ok kv_load disk_engine"
  by (simp add: pipeline_ok_def engine_ok_def disk_engine_def sample_config_def sample_ring backed_def)

lemma kv_always_up: "always_up kv_persist_batch (\<lambda>kv. fs_events (kv_disk kv) = [])"
  using kv_persist_quiet by (simp add: always_up_def)

theorem accepted_states_survive_kill_witness:
  "\<exists>c kv'. crew_reachable kv_persist_batch disk_engine c \<and> to_state seventh \<in> set (cr_accepted c)
    \<and> kv_open (killed [] (en_store (cr_engine c))) = Inr kv' \<and> covers (kv_load kv') (to_state seventh)"
proof -
  let ?p = kv_persist_batch and ?c0 = "crew_start disk_engine"
  note ok = disk_engine_ok
  have e0: "ring_inv (en_ring disk_engine)" "queued disk_engine = []" "ring_capacity (en_ring disk_engine) = 2"
    "en_cache disk_engine = cache_new" "next_lsn (en_lsn disk_engine) = 1"
    "fs_events (kv_disk (en_store disk_engine)) = []" "works (en_wal disk_engine)" "cr_engine ?c0 = disk_engine"
    by (simp_all add: disk_engine_def sample_ring ring_capacity_def blank_store_def sample_log_def works_def
        lsn_new_def crew_start_def) (simp add: ring_new_def Let_def next_power_of_two_def pow2_from.simps)
  have kv0: "kv_reachable (en_store disk_engine)" by (simp add: disk_engine_def blank_reachable)
  obtain out e1 where s: "submit 7 1 [1] disk_engine = (out, e1)" by fastforce
  have out: "out = Enqueued" using submit_ring(1) [OF e0(1) s] e0(2,3) by simp
  have r: "the_request 7 1 [1] disk_engine = seventh" by (simp add: the_request_def e0(5))
  let ?c1 = "?c0\<lparr>cr_engine := e1, cr_drawn := [seventh], cr_accepted := [to_state seventh]\<rparr>"
  have "crew_run ?p ?c0 ?c1"
    using run_submit [of ?c0 0 7 1 "[1]" out e1 ?p] s out r by (simp add: crew_start_def to_state_def)
  then have 1: "crew_reachable ?p disk_engine ?c1" by (rule crew_run_reachable [OF _ crew_reachable.start])
  have ok1: "pipeline_ok kv_load e1" using submit_no_loss(1) [OF ok s] by simp
  then have "all_well (\<lambda>kv. fs_events (kv_disk kv) = []) e1"
    using e0(6,7) submit_effect [OF s] by (simp add: all_well_def pipeline_ok_def)
  from flush_now_up [OF kv_always_up this] obtain n e2 where f: "flush_now ?p e1 = Some (Inr n, e2)"
    and up: "fs_events (kv_disk (en_store e2)) = []" by (auto simp: all_well_def)
  have done_: "queued e2 = []" "dirty_set e2 = {}" using store_trait.flush_now_no_loss [OF diskkv.store_trait_axioms ok1] f by auto
  let ?c2 = "?c1\<lparr>cr_engine := e2\<rparr>"
  have "crew_run ?p ?c1 ?c2"
    using alone_flush_now [OF _ f, of 0 ?c1] ok1
    by (simp add: alone_def with_hand_def crew_start_def fun_upd_idem pipeline_ok_def)
  then have 2: "crew_reachable ?p disk_engine ?c2" using 1 by (rule crew_run_reachable)
  obtain kv' where k: "kv_open (killed [] (en_store e2)) = Inr kv'"
    using kv_open_quiet [of "killed [] (en_store e2)"] by (auto simp: killed_def)
  have "covers (kv_load kv') (to_state seventh)"
    by (rule accepted_states_survive_kill [OF ok kv0 e0(2,4) 2 _ _ _ _ _, where events = "[]"])
      (use done_ k in \<open>simp_all add: crew_start_def\<close>)
  then show ?thesis using 2 k by (intro exI [of _ ?c2] exI [of _ kv']) simp
qed

end
