(* ===== verification/Redis_Store.thy ===== *)
theory Redis_Store
  imports Lww Traits
begin

text \<open>
  \<open>examples/redis_store.rs\<close>: a store over any connection that offers a pipelined SET and
  a GET.  The connection is the locale \<open>redis_conn\<close>, the code's trait \<open>RedisConn\<close>; the
  in-memory \<open>FakeRedis\<close> is its interpretation.  The server itself is not part of the
  repository.  A failed pipeline may have applied any prefix of its commands.

  The store writes unconditionally, so it merges under last-write-wins only when no state
  of a batch is older than the stored one.
\<close>

section \<open>Keys and values\<close>

text \<open>Decimal digits, as \<open>format!\<close> prints an unsigned number.\<close>

fun decimal :: "nat \<Rightarrow> string" where
  "decimal n = (if n < 10 then [char_of (48 + n)] else decimal (n div 10) @ [char_of (48 + n mod 10)])"

declare decimal.simps [simp del]

definition player_key :: "player_id \<Rightarrow> string" where
  "player_key i = ''player:'' @ decimal (unat i)"

definition encode_value :: "player_state \<Rightarrow> u8 list" where
  "encode_value st = u64_to_le_bytes (ps_version st) @ ps_blob st"

definition decode_value :: "u8 list \<Rightarrow> (u64 \<times> u8 list) option" where
  "decode_value bytes =
     (if length bytes < 8 then None
      else Some (u64_from_le_bytes (slice 0 8 bytes), drop 8 bytes))"

lemma decode_encode_value: "decode_value (encode_value st) = Some (ps_version st, ps_blob st)"
  by (simp add: decode_value_def encode_value_def slice_def)

text \<open>The number that a string of digits denotes.\<close>

definition digits_value :: "string \<Rightarrow> nat" where
  "digits_value s = foldl (\<lambda>a c. 10 * a + (of_char c - 48)) 0 s"

lemma digits_value_decimal: "digits_value (decimal n) = n"
proof (induction n rule: decimal.induct)
  case (1 n)
  have "of_char (char_of (48 + d :: nat) :: char) = 48 + d" if "d < 10" for d :: nat
    using that by simp
  then show ?case
    using 1 by (subst decimal.simps) (auto simp: digits_value_def)
qed

lemma player_key_inject [simp]: "player_key i = player_key j \<longleftrightarrow> i = j"
  by (metis append_same_eq digits_value_decimal player_key_def same_append_eq word_unat_eq_iff)

section \<open>Connections\<close>

fun put_all :: "(string \<times> u8 list) list \<Rightarrow> (string \<rightharpoonup> u8 list) \<Rightarrow> (string \<rightharpoonup> u8 list)" where
  "put_all [] m = m"
| "put_all ((k, v) # kv) m = put_all kv (m(k \<mapsto> v))"

locale redis_conn =
  fixes pipeline_set :: "(string \<times> u8 list) list \<Rightarrow> 'c \<Rightarrow> (string + unit) \<times> 'c"
    and get :: "string \<Rightarrow> 'c \<Rightarrow> (string + u8 list option) \<times> 'c"
    and keyspace :: "'c \<Rightarrow> (string \<rightharpoonup> u8 list)"
  assumes set_ok: "pipeline_set kv c = (Inr (), c') \<Longrightarrow> keyspace c' = put_all kv (keyspace c)"
    and set_err: "pipeline_set kv c = (Inl e, c') \<Longrightarrow> \<exists>k. keyspace c' = put_all (take k kv) (keyspace c)"
    and get_ok: "get key c = (Inr v, c') \<Longrightarrow> v = keyspace c key \<and> keyspace c' = keyspace c"

record fake_redis =
  fr_map :: "string \<rightharpoonup> u8 list"

definition fake_new :: fake_redis where
  "fake_new = \<lparr>fr_map = Map.empty\<rparr>"

definition fake_pipeline_set ::
    "(string \<times> u8 list) list \<Rightarrow> fake_redis \<Rightarrow> (string + unit) \<times> fake_redis" where
  "fake_pipeline_set kv c = (Inr (), c\<lparr>fr_map := put_all kv (fr_map c)\<rparr>)"

definition fake_get :: "string \<Rightarrow> fake_redis \<Rightarrow> (string + u8 list option) \<times> fake_redis" where
  "fake_get key c = (Inr (fr_map c key), c)"

interpretation faker: redis_conn fake_pipeline_set fake_get fr_map
  by unfold_locales (auto simp: fake_pipeline_set_def fake_get_def)

section \<open>The store\<close>

text \<open>Generic over the connection, as \<open>RedisStore<C>\<close>; the text of the transport error is
  left out of the message.\<close>

definition redis_persist_batch ::
    "((string \<times> u8 list) list \<Rightarrow> 'c \<Rightarrow> (string + unit) \<times> 'c) \<Rightarrow> player_state list \<Rightarrow> 'c
      \<Rightarrow> (store_error + unit) \<times> 'c" where
  "redis_persist_batch pipeline_set states c =
     (if states = [] then (Inr (), c)
      else
        let kv = map (\<lambda>st. (player_key (ps_id st), encode_value st)) states in
        case pipeline_set kv c of
          (Inl e, c') \<Rightarrow> (Inl (Transient ''redis pipeline SET failed''), c')
        | (Inr u, c') \<Rightarrow> (Inr (), c'))"

definition redis_load ::
    "(string \<Rightarrow> 'c \<Rightarrow> (string + u8 list option) \<times> 'c) \<Rightarrow> player_id \<Rightarrow> 'c \<Rightarrow> player_state option" where
  "redis_load get i c =
     (case get (player_key i) c of
        (Inl e, c') \<Rightarrow> None
      | (Inr None, c') \<Rightarrow> None
      | (Inr (Some raw), c') \<Rightarrow>
          (case decode_value raw of
             None \<Rightarrow> None
           | Some (version, blob) \<Rightarrow> Some \<lparr>ps_id = i, ps_version = version, ps_blob = blob\<rparr>))"

definition redis_count :: "'c \<Rightarrow> nat" where
  "redis_count c = 0"

text \<open>The states in a keyspace.\<close>

definition redis_table :: "(string \<rightharpoonup> u8 list) \<Rightarrow> table" where
  "redis_table m = (\<lambda>i.
     case m (player_key i) of
       None \<Rightarrow> None
     | Some raw \<Rightarrow>
         (case decode_value raw of
            None \<Rightarrow> None
          | Some (version, blob) \<Rightarrow> Some \<lparr>ps_id = i, ps_version = version, ps_blob = blob\<rparr>))"

lemma redis_table_set:
  "redis_table (m(player_key (ps_id st) \<mapsto> encode_value st)) = (redis_table m)(ps_id st \<mapsto> st)"
  by (rule ext) (auto simp: redis_table_def decode_encode_value)

text \<open>A batch that is not older than the table, for each id at most one state.\<close>

definition newer_batch :: "player_state list \<Rightarrow> table \<Rightarrow> bool" where
  "newer_batch states t \<longleftrightarrow> distinct (map ps_id states)
     \<and> (\<forall>st \<in> set states. \<forall>e. t (ps_id st) = Some e \<longrightarrow> ps_version e \<le> ps_version st)"

lemma put_all_newer:
  "newer_batch states (redis_table m) \<Longrightarrow>
    redis_table (put_all (map (\<lambda>st. (player_key (ps_id st), encode_value st)) states) m)
      = lww_all states (redis_table m)"
proof (induction states arbitrary: m)
  case (Cons st states)
  let ?m = "m(player_key (ps_id st) \<mapsto> encode_value st)"
  have put: "redis_table ?m = lww_put st (redis_table m)"
    using Cons.prems by (auto simp: redis_table_set lww_put_def newer_batch_def split: option.splits)
  have "newer_batch states (redis_table ?m)"
    using Cons.prems by (auto simp: redis_table_set newer_batch_def image_iff)
  from Cons.IH [OF this] show ?case by (simp only: list.map put_all.simps lww_all_simps put)
qed simp

context redis_conn
begin

lemma load_table: "get (player_key i) c = (Inr v, c') \<Longrightarrow> redis_load get i c = redis_table (keyspace c) i"
  using get_ok [of "player_key i" c v c'] by (auto simp: redis_load_def redis_table_def split: option.splits)

lemma persist_newer:
  assumes "redis_persist_batch pipeline_set states c = (r, c')" and "newer_batch states (redis_table (keyspace c))"
  shows "\<exists>k. redis_table (keyspace c') = lww_all (take k states) (redis_table (keyspace c))
    \<and> (r = Inr () \<longrightarrow> take k states = states)"
proof -
  let ?kv = "map (\<lambda>st. (player_key (ps_id st), encode_value st)) states"
  have part: "newer_batch (take k states) (redis_table (keyspace c))" for k
    using assms(2) by (auto simp: newer_batch_def take_map [symmetric] dest: in_set_takeD)
  consider "states = []" "c' = c" | "pipeline_set ?kv c = (Inr (), c')"
    | e where "pipeline_set ?kv c = (Inl e, c')" "r \<noteq> Inr ()"
    using assms(1) by (auto simp: redis_persist_batch_def Let_def split: if_splits prod.splits sum.splits)
  then show ?thesis
  proof cases
    case 1
    then show ?thesis by simp
  next
    case 2
    from set_ok [OF this] show ?thesis
      using put_all_newer [OF assms(2)] by (intro exI [of _ "length states"]) simp
  next
    case 3
    then obtain k where "keyspace c' = put_all (take k ?kv) (keyspace c)" using set_err by blast
    then show ?thesis using put_all_newer [OF part] 3(2) by (intro exI [of _ k]) (simp add: take_map)
  qed
qed

end

text \<open>What a batch leaves under the id of one of its states.\<close>

lemma put_all_other:
  "i \<notin> ps_id ` set states \<Longrightarrow>
    redis_table (put_all (map (\<lambda>st. (player_key (ps_id st), encode_value st)) states) m) i = redis_table m i"
  by (induction states arbitrary: m) (auto simp: redis_table_set)

lemma put_all_last:
  "distinct (map ps_id states) \<Longrightarrow> st \<in> set states \<Longrightarrow>
    redis_table (put_all (map (\<lambda>st. (player_key (ps_id st), encode_value st)) states) m) (ps_id st) = Some st"
proof (induction states arbitrary: m)
  case (Cons s states)
  show ?case
  proof (cases "st = s")
    case True
    then show ?thesis using Cons.prems by (simp add: put_all_other redis_table_set)
  next
    case False
    then show ?thesis using Cons by simp
  qed
qed simp

section \<open>Properties\<close>

text \<open>
  the store is last-write-wins exactly for batches that are not older than what it
  holds.  Over any connection that keeps the contract, an accepted batch with one state per
  player gives the merge by version if and only if no stored state is newer than the one
  in the batch; otherwise the plain SET puts the older state back.
\<close>

theorem redis_merges_iff_not_older:
  assumes conn: "redis_conn pipeline_set get keyspace"
    and ok: "redis_persist_batch pipeline_set states c = (Inr (), c')" and dist: "distinct (map ps_id states)"
  shows "redis_table (keyspace c') = lww_all states (redis_table (keyspace c)) \<longleftrightarrow>
    (\<forall>st \<in> set states. \<forall>e. redis_table (keyspace c) (ps_id st) = Some e \<longrightarrow> ps_version e \<le> ps_version st)"
proof
  assume "\<forall>st \<in> set states. \<forall>e. redis_table (keyspace c) (ps_id st) = Some e \<longrightarrow> ps_version e \<le> ps_version st"
  then have "newer_batch states (redis_table (keyspace c))" using dist by (simp add: newer_batch_def)
  from redis_conn.persist_newer [OF conn ok this]
  show "redis_table (keyspace c') = lww_all states (redis_table (keyspace c))" by auto
next
  let ?kv = "map (\<lambda>st. (player_key (ps_id st), encode_value st)) states"
  assume merged: "redis_table (keyspace c') = lww_all states (redis_table (keyspace c))"
  show "\<forall>st \<in> set states. \<forall>e. redis_table (keyspace c) (ps_id st) = Some e \<longrightarrow> ps_version e \<le> ps_version st"
  proof (intro ballI allI impI, rule ccontr)
    fix st e
    assume st: "st \<in> set states" and e: "redis_table (keyspace c) (ps_id st) = Some e" "\<not> ps_version e \<le> ps_version st"
    have "\<forall>s \<in> set states. ps_id s = ps_id st \<longrightarrow> ps_version s < ps_version e"
      using dist st e(2) by (metis (mono_tags) distinct_map inj_onD not_le)
    from lww_all_keeps [of "redis_table (keyspace c)", OF e(1) this] merged
    have "redis_table (keyspace c') (ps_id st) = Some e" by simp
    moreover have "keyspace c' = put_all ?kv (keyspace c)"
      using ok st redis_conn.set_ok [OF conn]
      by (auto simp: redis_persist_batch_def Let_def split: if_splits prod.splits sum.splits)
    ultimately show False using put_all_last [OF dist st, of "keyspace c"] e(2) by simp
  qed
qed

definition old_state :: player_state where
  "old_state = \<lparr>ps_id = 7, ps_version = 3, ps_blob = [1]\<rparr>"

definition new_state :: player_state where
  "new_state = \<lparr>ps_id = 7, ps_version = 5, ps_blob = [2]\<rparr>"

theorem redis_merges_iff_not_older_witness:
  "\<exists>c c'. redis_load fake_get 7 c = Some new_state
    \<and> redis_persist_batch fake_pipeline_set [old_state] c = (Inr (), c')
    \<and> redis_load fake_get 7 c' = Some old_state
    \<and> redis_table (fr_map c') \<noteq> lww_all [old_state] (redis_table (fr_map c))"
proof -
  define c where "c = snd (redis_persist_batch fake_pipeline_set [new_state] fake_new)"
  define c' where "c' = snd (redis_persist_batch fake_pipeline_set [old_state] c)"
  have ok: "redis_persist_batch fake_pipeline_set [old_state] c = (Inr (), c')"
    by (simp add: c'_def redis_persist_batch_def fake_pipeline_set_def)
  have table: "redis_table (fr_map c) = (redis_table Map.empty)(7 \<mapsto> new_state)"
    using redis_table_set [of Map.empty new_state]
    by (simp add: c_def redis_persist_batch_def fake_pipeline_set_def fake_new_def new_state_def)
  have "redis_table (fr_map c') = (redis_table (fr_map c))(7 \<mapsto> old_state)"
    using redis_table_set [of "fr_map c" old_state]
    by (simp add: c'_def redis_persist_batch_def fake_pipeline_set_def old_state_def)
  then have "redis_load fake_get 7 c' = Some old_state" "redis_load fake_get 7 c = Some new_state"
    using table faker.load_table [of 7 c] faker.load_table [of 7 c'] by (simp_all add: fake_get_def)
  moreover have "redis_table (fr_map c') \<noteq> lww_all [old_state] (redis_table (fr_map c))"
    using redis_merges_iff_not_older [OF faker.redis_conn_axioms ok] table
    by (simp add: old_state_def new_state_def)
  ultimately show ?thesis using ok by blast
qed

end
