(* ===== verification/Crash_Child.thy ===== *)
theory Crash_Child
  imports Crew_Disk
begin

text \<open>
  \<open>src/bin/crash_child.rs\<close>, the process that the crash test kills: its main thread submits
  durable writes one after the other and announces each on standard output once it has
  returned \<open>Ok\<close>, while the engine's worker drains the ring, flushes to the store and
  checkpoints.  Both are threads of \<open>Crew\<close>, the main thread with number 0 and the worker with
  number 1, interleaved at every operation on shared state.  \<open>pipe i\<close> tells whether printing and
  flushing the line of write \<open>i\<close> succeed.
\<close>

definition child_config :: "string \<Rightarrow> flux_config" where
  "child_config dir = with_wal_dir dir
     (default_config\<lparr>cfg_wal_fsync := True, cfg_ring_capacity := 2 ^ 12, cfg_flush_max_batch := 256,
        cfg_flush_interval := 50000000\<rparr>)"

definition upper_bound :: "u64 \<Rightarrow> u64" where
  "upper_bound ack_target =
     max (if unat ack_target * 1000 < 2 ^ 64 then ack_target * 1000 else - 1) (ack_target + 1000000)"

text \<open>Where the main thread is: at the head of the loop, inside \<open>submit_durable\<close>, or past the loop.\<close>

datatype child_pc = Next u64 | In_Call u64 | Stopped

record child =
  ch_crew :: "mock_db crew"
  ch_pc :: child_pc
  ch_acks :: "u64 list"                      \<comment> \<open>the announced writes, in order\<close>
  ch_checkpointed :: bool                    \<comment> \<open>the worker has begun a checkpoint\<close>

abbreviation child_log :: "child \<Rightarrow> wal" where
  "child_log s \<equiv> en_wal (cr_engine (ch_crew s))"

definition child_start :: "mock_db engine \<Rightarrow> child" where
  "child_start e = \<lparr>ch_crew = crew_start e, ch_pc = Next 0, ch_acks = [], ch_checkpointed = False\<rparr>"

definition child_request :: "u64 \<Rightarrow> lsn \<Rightarrow> write_request" where
  "child_request i seq = \<lparr>wr_id = i, wr_version = 1, wr_blob = u64_to_le_bytes i, wr_seq = seq\<rparr>"

text \<open>The match on the result of \<open>submit_durable\<close> and the end of the loop's body.\<close>

definition announce :: "u64 \<Rightarrow> bool \<Rightarrow> bool \<times> bool \<Rightarrow> child \<Rightarrow> child" where
  "announce i ok sent s =
     (let (printed, flushed) = sent in
      if ok then
        (if \<not> printed then s\<lparr>ch_pc := Stopped\<rparr>
         else if \<not> flushed then s\<lparr>ch_acks := ch_acks s @ [i], ch_pc := Stopped\<rparr>
         else s\<lparr>ch_acks := ch_acks s @ [i], ch_pc := Next (i + 1)\<rparr>)
      else s\<lparr>ch_pc := Next (i + 1)\<rparr>)"

text \<open>The call for write \<open>i\<close> has returned \<open>Ok\<close>; each write is submitted once.\<close>

definition succeeded :: "u64 \<Rightarrow> 'd crew \<Rightarrow> bool" where
  "succeeded i c \<longleftrightarrow> i \<in> wr_id ` set (cr_promised c)"

fun weighed :: "hand \<Rightarrow> bool" where
  "weighed (Weighed l) = True"
| "weighed h = False"

text \<open>
  \<open>submits\<close> enters the call and numbers the write, \<open>proceeds\<close> is a step inside it, \<open>returns\<close> its
  end.  \<open>works\<close> is a step of the worker other than a checkpoint, \<open>checkpoints\<close> a checkpoint.
\<close>

inductive child_step :: "(u64 \<Rightarrow> bool \<times> bool) \<Rightarrow> u64 \<Rightarrow> child \<Rightarrow> child \<Rightarrow> bool" for pipe upper where
  submits: "ch_pc s = Next i \<Longrightarrow> i < upper \<Longrightarrow> c = ch_crew s \<Longrightarrow> cr_hands c 0 = Idle \<Longrightarrow>
    alloc (en_lsn (cr_engine c)) = (seq, l) \<Longrightarrow> r = child_request i seq \<Longrightarrow>
    child_step pipe upper s (s\<lparr>ch_pc := In_Call i,
      ch_crew := (with_hand 0 (Numbered r) ((cr_engine c)\<lparr>en_lsn := l\<rparr>) c)\<lparr>cr_drawn := r # cr_drawn c\<rparr>\<rparr>)"
| proceeds: "ch_pc s = In_Call i \<Longrightarrow> cr_hands (ch_crew s) 0 \<noteq> Idle \<Longrightarrow>
    crew_step mock_persist_batch (ch_crew s) c' \<Longrightarrow> \<forall>u. u \<noteq> 0 \<longrightarrow> cr_hands c' u = cr_hands (ch_crew s) u \<Longrightarrow>
    child_step pipe upper s (s\<lparr>ch_crew := c'\<rparr>)"
| returns: "ch_pc s = In_Call i \<Longrightarrow> cr_hands (ch_crew s) 0 = Idle \<Longrightarrow>
    child_step pipe upper s (announce i (succeeded i (ch_crew s)) (pipe i) s)"
| works: "crew_step mock_persist_batch (ch_crew s) c' \<Longrightarrow> \<forall>u. u \<noteq> 1 \<longrightarrow> cr_hands c' u = cr_hands (ch_crew s) u \<Longrightarrow>
    cr_drawn c' = cr_drawn (ch_crew s) \<Longrightarrow> \<not> weighed (cr_hands (ch_crew s) 1) \<Longrightarrow>
    child_step pipe upper s (s\<lparr>ch_crew := c'\<rparr>)"
| checkpoints: "weighed (cr_hands (ch_crew s) 1) \<Longrightarrow> crew_step mock_persist_batch (ch_crew s) c' \<Longrightarrow>
    cr_hands c' = (cr_hands (ch_crew s))(1 := Idle) \<Longrightarrow>
    child_step pipe upper s (s\<lparr>ch_crew := c', ch_checkpointed := True\<rparr>)"

inductive child_reachable :: "(u64 \<Rightarrow> bool \<times> bool) \<Rightarrow> u64 \<Rightarrow> mock_db engine \<Rightarrow> child \<Rightarrow> bool" for pipe upper e where
  start: "child_reachable pipe upper e (child_start e)"
| step: "child_reachable pipe upper e s \<Longrightarrow> child_step pipe upper s s' \<Longrightarrow> child_reachable pipe upper e s'"

section \<open>A log that the directory may still name after the kill\<close>

text \<open>\<open>settled\<close> without the demand that no other directory entry is possible: a process kill leaves
  the directory as it is, and so does a power loss that happens to keep the entry.\<close>

definition anchored :: "nat \<Rightarrow> wal_record list \<Rightarrow> wal \<Rightarrow> bool" where
  "anchored m rs w \<longleftrightarrow> wal_holds rs w \<and> m \<le> length rs \<and> length (segment (take m rs)) \<le> synced_of w (wr_file w)"

lemma anchored_crash:
  assumes "anchored m rs w" and "can_crash w (Some (wr_file w)) n"
  shows "\<exists>k. m \<le> k \<and> k \<le> length rs \<and> restarts_with w (Some (wr_file w)) n (take k rs)"
  using restarts_prefix [of w "wr_file w" "wr_buf w" rs n m] assms
  by (simp add: anchored_def wal_holds_def content_def)

lemma append_anchored:
  assumes "anchored m rs w" and "wal_fsync w" and "all_fit recs" and "recs \<noteq> []"
    and "append_batch recs w = (Inr l, w')"
  shows "anchored (length (rs @ recs)) (rs @ recs) w'"
  using append_ok [of rs w recs l w'] assms by (simp add: anchored_def same_log_def)

lemma same_log_anchored:
  assumes "anchored m rs w" and "same_log w w'" and "wal_holds (rs @ recs) w'"
  shows "anchored m (rs @ recs) w'"
proof -
  have "synced_of w (wr_file w) \<le> length (data_of w (wr_file w))"
    using assms(1) by (auto simp: anchored_def wal_holds_def writer_ok_def)
  then have "synced_of w (wr_file w) \<le> synced_of w' (wr_file w)" using assms(2) by (simp add: same_log_def)
  then show ?thesis using assms by (simp add: anchored_def same_log_def)
qed

section \<open>The log before the first checkpoint\<close>

text \<open>A state that the child has submitted.\<close>

definition child_state :: "u64 \<Rightarrow> player_state \<Rightarrow> bool" where
  "child_state upper st \<longleftrightarrow> ps_id st < upper \<and> ps_version st = 1 \<and> ps_blob st = u64_to_le_bytes (ps_id st)"

lemma child_state_small: "child_state upper (state_of r) \<Longrightarrow> fits r \<and> small r"
  by (simp add: child_state_def state_of_def fits_def small_def length_encode layout_defs BUF_CAPACITY_def)

lemma child_records_small:
  assumes "\<forall>st \<in> set (map state_of recs). child_state upper st"
  shows "all_fit recs" and "list_all small recs"
  using assms child_state_small by (auto simp: list_all_iff)

lemma child_request_state: "i < upper \<Longrightarrow> child_state upper (to_state (child_request i seq))"
  by (simp add: child_state_def child_request_def to_state_def)

text \<open>All records are the child's, and the promised ones are stable.\<close>

definition log_keeps :: "u64 \<Rightarrow> write_request set \<Rightarrow> wal \<Rightarrow> bool" where
  "log_keeps upper Q w \<longleftrightarrow> (\<exists>m rs. anchored m rs w \<and> wal_fsync w
     \<and> (\<forall>r \<in> set rs. child_state upper (state_of r)) \<and> record_of ` Q \<subseteq> set (take m rs))"

lemma log_keeps_mono: "log_keeps upper Q w \<Longrightarrow> R \<subseteq> Q \<Longrightarrow> log_keeps upper R w"
  unfolding log_keeps_def by blast

lemma log_keeps_ok:
  assumes "log_keeps upper Q w" and ours: "\<forall>st \<in> set (map state_of recs). child_state upper st"
    and a: "append_batch recs w = (Inr l, w')" and "record_of ` R \<subseteq> set recs"
  shows "log_keeps upper (Q \<union> R) w'"
proof (cases "recs = []")
  case True
  then show ?thesis using assms by (simp add: append_batch_def)
next
  case False
  obtain m rs where k: "anchored m rs w" "wal_fsync w" "\<forall>r \<in> set rs. child_state upper (state_of r)"
    "record_of ` Q \<subseteq> set (take m rs)" using assms(1) by (auto simp: log_keeps_def)
  note fit = child_records_small [OF ours]
  have "wal_fsync w'"
    using append_ok(3) [of rs w recs l w'] k(1,2) fit(1) a False by (simp add: anchored_def same_log_def)
  moreover have "record_of ` (Q \<union> R) \<subseteq> set (rs @ recs)" using k(4) assms(4) set_take_subset [of m rs] by auto
  ultimately show ?thesis
    using append_anchored [OF k(1,2) fit(1) False a] k(3) ours unfolding log_keeps_def
    by (intro exI [of _ "length (rs @ recs)"] exI [of _ "rs @ recs"]) auto
qed

lemma log_keeps_err:
  assumes "log_keeps upper Q w" and ours: "\<forall>st \<in> set (map state_of recs). child_state upper st"
    and a: "append_batch recs w = (Inl err, w')"
  shows "log_keeps upper Q w'"
proof -
  obtain m rs where k: "anchored m rs w" "wal_fsync w" "\<forall>r \<in> set rs. child_state upper (state_of r)"
    "record_of ` Q \<subseteq> set (take m rs)" using assms(1) by (auto simp: log_keeps_def)
  have h: "wal_holds rs w" "m \<le> length rs" using k(1) by (simp_all add: anchored_def)
  obtain j where j: "wal_holds (rs @ take j recs) w'" "same_log w w'"
    using append_err [OF h(1) child_records_small [OF ours] a] by blast
  have "\<forall>r \<in> set (rs @ take j recs). child_state upper (state_of r)" using k(3) ours by (auto dest: in_set_takeD)
  then show ?thesis
    using same_log_anchored [OF k(1) j(2,1)] j(2) k(2,4) h(2) unfolding log_keeps_def
    by (intro exI [of _ m] exI [of _ "rs @ take j recs"]) (simp add: same_log_def)
qed

definition promised_or_written :: "'d crew \<Rightarrow> write_request set" where
  "promised_or_written c = set (cr_promised c) \<union> {r. \<exists>t. cr_hands c t = Written r}"

lemma log_keeps_aside:
  assumes "log_keeps upper (promised_or_written c) (en_wal (cr_engine c))" and "en_wal e' = en_wal (cr_engine c)"
    and "\<forall>r. h \<noteq> Written r"
  shows "log_keeps upper (promised_or_written (with_hand t h e' c)) (en_wal e')"
proof -
  have "promised_or_written (with_hand t h e' c) \<subseteq> promised_or_written c"
    using assms(3) by (auto simp: promised_or_written_def split: if_splits)
  then show ?thesis using log_keeps_mono [OF assms(1)] assms(2) by simp
qed

lemma promised_or_written_other [simp]:
  "promised_or_written (c\<lparr>cr_drawn := ds\<rparr>) = promised_or_written c"
  "promised_or_written (c\<lparr>cr_accepted := a\<rparr>) = promised_or_written c"
  by (simp_all add: promised_or_written_def)

lemma log_keeps_step:
  assumes "crew_step p c c'" and k: "log_keeps upper (promised_or_written c) (en_wal (cr_engine c))"
    and ev: "everywhere (child_state upper) c"
    and still: "\<forall>t. weighed (cr_hands c t) \<longrightarrow> cr_hands c' t = cr_hands c t"
  shows "log_keeps upper (promised_or_written c') (en_wal (cr_engine c'))"
proof -
  have hand: "\<forall>s \<in> hand_all (cr_hands c t). child_state upper s" for t using ev by (simp add: everywhere_def)
  note aside = log_keeps_aside [OF k]
  show ?thesis
    using assms(1)
  proof (cases rule: crew_step.cases)
    case (draws t seq s h r i v b)
    then show ?thesis using aside [of "(cr_engine c)\<lparr>en_lsn := s\<rparr>" "h r" t] by auto
  next
    case (offers t r out m)
    then show ?thesis using aside [of "(cr_engine c)\<lparr>en_ring := m\<rparr>" Idle t] by simp
  next
    case (pins t r)
    then show ?thesis using aside [of "(cr_engine c)\<lparr>en_lsn := note_pending (wr_seq r) (en_lsn (cr_engine c))\<rparr>" "Pinned r" t] by simp
  next
    case (writes t r h e')
    have ours: "\<forall>st \<in> set (map state_of [record_of r]). child_state upper st" using hand [of t] writes(2) by simp
    obtain x w where a: "append_batch [record_of r] (en_wal (cr_engine c)) = (x, w)" by fastforce
    show ?thesis
    proof (cases x)
      case (Inl err)
      have h: "h = Unlogged (wr_seq r)" "en_wal e' = w" using writes(3) a Inl by (auto simp: write_durable_def)
      have "promised_or_written c' \<subseteq> promised_or_written c"
        unfolding writes(1) h by (auto simp: promised_or_written_def split: if_splits)
      then show ?thesis using log_keeps_mono [OF log_keeps_err [OF k ours]] a Inl h writes(1) by simp
    next
      case (Inr l)
      have h: "h = Written r" "en_wal e' = w" using writes(3) a Inr by (auto simp: write_durable_def)
      have sub: "promised_or_written c' \<subseteq> promised_or_written c \<union> {r}"
        unfolding writes(1) h by (auto simp: promised_or_written_def split: if_splits)
      show ?thesis using log_keeps_mono [OF log_keeps_ok [OF k ours _ _] sub] a Inr h writes(1) by simp
    qed
  next
    case (unpins t l)
    then show ?thesis using aside [of "(cr_engine c)\<lparr>en_lsn := note_drained l (en_lsn (cr_engine c))\<rparr>" Idle t] by simp
  next
    case (promises t r out m)
    have "promised_or_written c' \<subseteq> promised_or_written c"
      using promises(1,2) by (auto simp: promised_or_written_def split: if_splits)
    then show ?thesis using log_keeps_mono [OF k] promises(1) by simp
  next
    case (pops t rs r m)
    then show ?thesis using aside [of "(cr_engine c)\<lparr>en_ring := m\<rparr>" "Carrying (rs @ [r])" t] by simp
  next
    case (lifts t r rs)
    then show ?thesis using aside [of "(cr_engine c)\<lparr>en_lsn := note_drained (wr_seq r) (en_lsn (cr_engine c))\<rparr>" "Lifted (r # rs)" t] by simp
  next
    case (applies t r rs)
    then show ?thesis
      using aside [of "(cr_engine c)\<lparr>en_cache := cache_apply r (en_cache (cr_engine c))\<rparr>" "carry rs" t] by (simp add: carry_def)
  next
    case (takes t states e')
    then show ?thesis using aside [of e' "if states = [] then Idle else Batch states" t] take_batch_frame [OF takes(3)] by simp
  next
    case (stamps t states l s)
    then show ?thesis using aside [of "(cr_engine c)\<lparr>en_lsn := s\<rparr>" "Stamped states l" t] by simp
  next
    case (logs t states l fallback h e')
    have ours: "\<forall>st \<in> set (map state_of (stamp l states)). child_state upper st"
      using hand [of t] logs(2) by (simp add: map_state_stamp)
    obtain x w where a: "append_batch (stamp l states) (en_wal (cr_engine c)) = (x, w)" by fastforce
    have h: "\<forall>r. h \<noteq> Written r" "en_wal e' = w"
      using logs(3) a by (auto simp: append_stamped_def Let_def split: sum.splits)
    have "log_keeps upper (promised_or_written c) w"
      using log_keeps_err [OF k ours] log_keeps_ok [OF k ours, of _ w "{}"] a by (cases x) simp_all
    moreover have "promised_or_written c' \<subseteq> promised_or_written c"
      using h(1) unfolding logs(1) by (auto simp: promised_or_written_def split: if_splits)
    ultimately show ?thesis using log_keeps_mono h(2) logs(1) by simp
  next
    case (persists t states l j h e')
    then show ?thesis
      using aside [of e' h t] by (auto simp: try_store_def split: sum.splits prod.splits if_splits)
  next
    case (weighs t l)
    then show ?thesis using aside [of "cr_engine c" "weigh l (cr_engine c)" t] by (simp add: weigh_def split: option.split)
  next
    case (trims t l out w)
    have "cr_hands c' t = Idle" "weighed (cr_hands c t)" using trims(1,2) by simp_all
    then have False using still by (metis weighed.simps(2))
    then show ?thesis ..
  next
    case (requeues t states)
    then show ?thesis using aside [of "(cr_engine c)\<lparr>en_cache := requeue_dirty states (en_cache (cr_engine c))\<rparr>" Idle t] by simp
  next
    case (counts m j)
    then show ?thesis using k by (simp add: promised_or_written_def)
  qed
qed

lemma start_anchored:
  assumes "start config store order clock (empty_dir ev) = (Inr e, w)" and "cfg_wal_fsync config"
  shows "anchored 0 [] (en_wal e)" and "wal_fsync (en_wal e)"
  using start_empty [OF assms(1)] assms(2)
  by (simp_all add: anchored_def segment_def HEADER_LEN_def HEADER_MAGIC_def)

section \<open>Every announced write is recovered\<close>

text \<open>The main thread's hand inside and outside \<open>submit_durable\<close>.\<close>

fun durable_hand :: "hand \<Rightarrow> bool" where
  "durable_hand Idle = True"
| "durable_hand (Numbered r) = True"
| "durable_hand (Pinned r) = True"
| "durable_hand (Unlogged l) = True"
| "durable_hand (Written r) = True"
| "durable_hand h = False"

lemma durable_hand_carry: "durable_hand (carry rs) \<longleftrightarrow> carry rs = Idle"
  by (simp add: carry_def)

lemma write_durable_hand: "write_durable r e = (h, e') \<Longrightarrow> durable_hand h"
  by (auto simp: write_durable_def split: sum.splits prod.splits)

lemma durable_hand_step:
  assumes "crew_step p c c'" and h: "durable_hand (cr_hands c 0)" "cr_hands c 0 \<noteq> Idle"
  shows "durable_hand (cr_hands c' 0)"
  using assms(1)
proof (cases rule: crew_step.cases)
  case (writes t r k e')
  then show ?thesis using h write_durable_hand [OF writes(3)] by simp
next
  case (pops t rs r m)
  then have "t \<noteq> 0" using h durable_hand_carry by metis
  then show ?thesis using h pops(1) by simp
next
  case (lifts t r rs)
  then have "t \<noteq> 0" using h by (metis durable_hand.simps(7))
  then show ?thesis using h lifts(1) by simp
next
  case (draws t seq s k r i v b)
  then have "t \<noteq> 0" using h by metis
  then show ?thesis using h draws(1) by simp
qed (use h in \<open>auto intro!: gr0I split: if_splits\<close>)

lemma not_weighed: "durable_hand h \<Longrightarrow> \<not> weighed h"
  by (cases h) simp_all

lemma promised_grow: "crew_step p c c' \<Longrightarrow> set (cr_promised c) \<subseteq> set (cr_promised c')"
  by (cases rule: crew_step.cases) auto

lemma drawn_or_idle:
  "crew_step p c c' \<Longrightarrow> cr_drawn c' = cr_drawn c \<or> (\<exists>t. cr_hands c t = Idle \<and> cr_hands c' t \<noteq> Idle)"
  by (cases rule: crew_step.cases) auto

text \<open>Announced are writes that were promised, in the order of the loop.\<close>

definition acks_ok :: "child \<Rightarrow> bool" where
  "acks_ok s \<longleftrightarrow> set (ch_acks s) \<subseteq> wr_id ` set (cr_promised (ch_crew s)) \<and> sorted (ch_acks s) \<and> distinct (ch_acks s)
     \<and> (case ch_pc s of Next i \<Rightarrow> \<forall>j \<in> set (ch_acks s). j < i | In_Call i \<Rightarrow> \<forall>j \<in> set (ch_acks s). j < i | Stopped \<Rightarrow> True)"

definition child_inv :: "u64 \<Rightarrow> mock_db engine \<Rightarrow> child \<Rightarrow> bool" where
  "child_inv upper e s \<longleftrightarrow> crew_reachable mock_persist_batch e (ch_crew s)
     \<and> (\<forall>r \<in> set (cr_drawn (ch_crew s)). child_state upper (to_state r))
     \<and> durable_hand (cr_hands (ch_crew s) 0) \<and> (\<forall>i. ch_pc s = In_Call i \<longrightarrow> i < upper) \<and> acks_ok s
     \<and> (\<not> ch_checkpointed s \<longrightarrow> log_keeps upper (promised_or_written (ch_crew s)) (child_log s))"

text \<open>A step of the crew, by either thread.\<close>

lemma child_inv_crew:
  assumes inv: "child_inv upper e s" and ok: "pipeline_ok mock_load e" and empty: "queued e = []" "en_cache e = cache_new"
    and st: "crew_step mock_persist_batch (ch_crew s) c'"
    and drawn: "\<forall>r \<in> set (cr_drawn c'). child_state upper (to_state r)" and hand: "durable_hand (cr_hands c' 0)"
    and still: "k \<or> (\<forall>t. weighed (cr_hands (ch_crew s) t) \<longrightarrow> cr_hands c' t = cr_hands (ch_crew s) t)"
  shows "child_inv upper e (s\<lparr>ch_crew := c', ch_checkpointed := k \<or> ch_checkpointed s\<rparr>)"
proof -
  have r: "crew_reachable mock_persist_batch e (ch_crew s)" using inv by (simp add: child_inv_def)
  have ev: "everywhere (child_state upper) (ch_crew s)"
    by (rule conjunct2 [OF reachable_store [where I = "\<lambda>_. True", OF mock.store_trait_axioms ok _ _ _ r]])
      (use inv empty in \<open>simp_all add: child_inv_def everywhere_def crew_start_def\<close>)
  have "log_keeps upper (promised_or_written c') (en_wal (cr_engine c'))" if "\<not> k" "\<not> ch_checkpointed s"
    using log_keeps_step [OF st _ ev] inv still that by (simp add: child_inv_def)
  moreover have "acks_ok (s\<lparr>ch_crew := c', ch_checkpointed := k \<or> ch_checkpointed s\<rparr>)"
    using inv image_mono [OF promised_grow [OF st], of wr_id] by (simp add: child_inv_def acks_ok_def cong: child_pc.case_cong) blast
  moreover have "crew_reachable mock_persist_batch e c'" by (rule crew_reachable.step [OF r st])
  ultimately show ?thesis using inv drawn hand by (simp add: child_inv_def)
qed

lemma announce_keeps:
  assumes inv: "child_inv upper e s" and pc: "ch_pc s = In_Call i"
  shows "child_inv upper e (announce i (succeeded i (ch_crew s)) sent s)"
proof -
  obtain printed flushed where sent: "sent = (printed, flushed)" by fastforce
  have i: "i < upper" and a: "acks_ok s" using inv pc by (simp_all add: child_inv_def)
  have lt: "j < i + 1" if "j \<le> i" for j
    using unat_next [OF i] that by (simp add: word_le_nat_alt word_less_nat_alt)
  have acks: "\<forall>j \<in> set (ch_acks s). j < i" using a pc by (simp add: acks_ok_def)
  then have "\<forall>j \<in> set (ch_acks s). j < i + 1" "i \<notin> set (ch_acks s)" "\<forall>j \<in> set (ch_acks s). j \<le> i" "i < i + 1"
    using lt by (auto intro: less_imp_le)
  then have "acks_ok (announce i (succeeded i (ch_crew s)) sent s)"
    using a by (simp add: acks_ok_def announce_def succeeded_def sent sorted_append)
  then show ?thesis using inv by (auto simp: child_inv_def announce_def sent)
qed

lemma child_inv_step:
  assumes inv: "child_inv upper e s" and ok: "pipeline_ok mock_load e" and empty: "queued e = []" "en_cache e = cache_new"
    and "child_step pipe upper s s'"
  shows "child_inv upper e s'"
  using assms(5)
proof (cases rule: child_step.cases)
  case (submits i c seq l r)
  let ?c = "(with_hand 0 (Numbered r) ((cr_engine c)\<lparr>en_lsn := l\<rparr>) c)\<lparr>cr_drawn := r # cr_drawn c\<rparr>"
  have st: "crew_step mock_persist_batch (ch_crew s) ?c"
    using crew_step.draws [of c 0 seq l Numbered r i 1 "u64_to_le_bytes i"] submits(4-7)
    by (simp add: child_request_def)
  have "child_inv upper e (s\<lparr>ch_crew := ?c, ch_checkpointed := False \<or> ch_checkpointed s\<rparr>)"
    by (rule child_inv_crew [OF inv ok empty st])
      (use inv submits(3,4,5,7) in \<open>auto simp: child_inv_def child_request_state\<close>)
  then show ?thesis using submits(1,2,3) by (auto simp: child_inv_def acks_ok_def)
next
  case (proceeds i c')
  have d: "durable_hand (cr_hands (ch_crew s) 0)" using inv by (simp add: child_inv_def)
  note h = durable_hand_step [OF proceeds(4) d proceeds(3)]
  have drawn: "cr_drawn c' = cr_drawn (ch_crew s)"
    using drawn_or_idle [OF proceeds(4)] proceeds(3,5) by metis
  have "\<forall>t. weighed (cr_hands (ch_crew s) t) \<longrightarrow> cr_hands c' t = cr_hands (ch_crew s) t"
    using proceeds(5) not_weighed [OF d] by metis
  then show ?thesis
    using child_inv_crew [OF inv ok empty proceeds(4) _ h, of False] drawn inv by (auto simp: child_inv_def proceeds(1))
next
  case (returns i)
  then show ?thesis using announce_keeps [OF inv] by simp
next
  case (works c')
  have "\<forall>t. weighed (cr_hands (ch_crew s) t) \<longrightarrow> cr_hands c' t = cr_hands (ch_crew s) t"
    using works(3,5) by metis
  then show ?thesis
    using child_inv_crew [OF inv ok empty works(2), of False] works(3,4) inv
    by (auto simp: child_inv_def works(1))
next
  case (checkpoints c')
  have "cr_drawn c' = cr_drawn (ch_crew s)"
    using drawn_or_idle [OF checkpoints(3)] checkpoints(2,4) by (metis fun_upd_apply weighed.simps(2))
  then show ?thesis
    using child_inv_crew [OF inv ok empty checkpoints(3), of True] checkpoints(4) inv
    by (auto simp: child_inv_def checkpoints(1))
qed

lemma child_config_fields:
  "cfg_wal_fsync (child_config dir)" "cfg_ring_capacity (child_config dir) = 2 ^ 12" "validate (child_config dir) = Inr ()"
  by (simp_all add: child_config_def with_wal_dir_def validate_ok default_config_def)

lemma child_inv_reachable:
  assumes s: "start (child_config dir) mock_new order clock (empty_dir ev) = (Inr e, w)"
    and r: "child_reachable pipe upper e s"
  shows "child_inv upper e s"
proof -
  note ok = start_pipeline_ok [OF s]
  have e: "pipeline_ok mock_load e" "queued e = []" "en_cache e = cache_new"
    using ok start_empty(1) [OF s] by (simp_all add: child_config_fields)
  from r show ?thesis
  proof induction
    case start
    have "log_keeps upper {} (en_wal e)"
      using start_anchored [OF s child_config_fields(1)] unfolding log_keeps_def by (auto intro!: exI [of _ "[]"])
    moreover have "promised_or_written (crew_start e) = {}" by (simp add: promised_or_written_def crew_start_def)
    ultimately show ?case
      using crew_reachable.start [of mock_persist_batch e]
      by (simp add: child_inv_def child_start_def acks_ok_def) (simp add: crew_start_def)
  next
    case (step s s')
    then show ?case using child_inv_step [OF _ e] by blast
  qed
qed

text \<open>
  C22: What the child announces is recovered.  Started on an empty directory, with the worker
  interleaved at every operation, and however many of the log's system calls fail: as long as
  the worker has not begun a checkpoint, a kill that leaves the log's file under its name leaves
  a log from which the next process recovers every announced write with its exact content, and
  nothing but writes of the child; no write is announced twice or out of order.
\<close>

theorem announced_writes_recovered:
  assumes "start (child_config wal_dir) mock_new order clock (empty_dir ev) = (Inr e, w)"
    and "child_reachable pipe (upper_bound ack_target) e s" and "\<not> ch_checkpointed s"
    and "can_crash (child_log s) (Some (wr_file (child_log s))) n"
  shows "\<exists>rs. restarts_with (child_log s) (Some (wr_file (child_log s))) n rs
    \<and> (\<forall>j \<in> set (ch_acks s). \<exists>r \<in> set rs. wal_id r = j \<and> wal_version r = 1 \<and> wal_blob r = u64_to_le_bytes j)
    \<and> (\<forall>r \<in> set rs. wal_id r < upper_bound ack_target \<and> wal_version r = 1 \<and> wal_blob r = u64_to_le_bytes (wal_id r))
    \<and> sorted (ch_acks s) \<and> distinct (ch_acks s)"
proof -
  have inv: "acks_ok s" "log_keeps (upper_bound ack_target) (promised_or_written (ch_crew s)) (child_log s)"
    using child_inv_reachable [OF assms(1,2)] assms(3) by (simp_all add: child_inv_def)
  obtain m rs where k: "anchored m rs (child_log s)" "\<forall>r \<in> set rs. child_state (upper_bound ack_target) (state_of r)"
    "record_of ` promised_or_written (ch_crew s) \<subseteq> set (take m rs)" using inv(2) by (auto simp: log_keeps_def)
  obtain n' where n': "m \<le> n'" "restarts_with (child_log s) (Some (wr_file (child_log s))) n (take n' rs)"
    using anchored_crash [OF k(1) assms(4)] by blast
  have ours: "\<forall>r \<in> set (take n' rs). wal_id r < upper_bound ack_target \<and> wal_version r = 1 \<and> wal_blob r = u64_to_le_bytes (wal_id r)"
    using k(2) by (auto dest!: in_set_takeD simp: child_state_def state_of_def)
  have "set (take m rs) \<subseteq> set (take n' rs)" using n'(1) by (simp add: set_take_subset_set_take)
  then have "record_of ` set (cr_promised (ch_crew s)) \<subseteq> set (take n' rs)"
    using k(3) by (auto simp: promised_or_written_def)
  moreover have "set (ch_acks s) \<subseteq> wr_id ` set (cr_promised (ch_crew s))" using inv(1) by (simp add: acks_ok_def)
  ultimately have "\<exists>r \<in> set (take n' rs). wal_id r = j" if "j \<in> set (ch_acks s)" for j
    using that by (force simp: record_of_def)
  then show ?thesis using n'(2) ours inv(1) by (intro exI [of _ "take n' rs"]) (auto simp: acks_ok_def)
qed

text \<open>A run that announces two writes, its pipe breaking after the second.\<close>

lemma announces_next:
  assumes r: "child_reachable pipe upper e s" and pc: "ch_pc s = Next i" "i < upper" and idle: "cr_hands (ch_crew s) 0 = Idle"
    and w: "works (child_log s)" and c0: "\<not> ch_checkpointed s" and sent: "pipe i = (True, fl)"
  shows "\<exists>s'. child_reachable pipe upper e s' \<and> ch_pc s' = (if fl then Next (i + 1) else Stopped)
    \<and> cr_hands (ch_crew s') 0 = Idle \<and> works (child_log s') \<and> \<not> ch_checkpointed s' \<and> ch_acks s' = ch_acks s @ [i]"
proof -
  obtain seq l where a: "alloc (en_lsn (cr_engine (ch_crew s))) = (seq, l)" by fastforce
  let ?r = "child_request i seq"
  note r1 = child_reachable.step [OF r child_step.submits [OF pc refl idle a refl]]
  let ?c1 = "(with_hand 0 (Numbered ?r) ((cr_engine (ch_crew s))\<lparr>en_lsn := l\<rparr>) (ch_crew s))\<lparr>cr_drawn := ?r # cr_drawn (ch_crew s)\<rparr>"
  let ?s1 = "s\<lparr>ch_pc := In_Call i, ch_crew := ?c1\<rparr>"
  have go: "child_reachable pipe upper e (s1\<lparr>ch_crew := c'\<rparr>)"
    if "child_reachable pipe upper e s1" "ch_pc s1 = In_Call i" "cr_hands (ch_crew s1) 0 \<noteq> Idle"
      "crew_step mock_persist_batch (ch_crew s1) c'" "\<forall>u. u \<noteq> 0 \<longrightarrow> cr_hands c' u = cr_hands (ch_crew s1) u" for s1 c'
    using child_reachable.step [OF that(1) child_step.proceeds [OF that(2-5)]] .
  let ?c2 = "with_hand 0 (Pinned ?r) ((cr_engine ?c1)\<lparr>en_lsn := note_pending (wr_seq ?r) (en_lsn (cr_engine ?c1))\<rparr>) ?c1"
  have r2: "child_reachable pipe upper e (?s1\<lparr>ch_crew := ?c2\<rparr>)"
    by (rule go [OF r1]) (use crew_step.pins [of ?c1 0 ?r] in simp_all)
  obtain x w' where app: "append_batch [record_of ?r] (child_log s) = (Inr x, w')" "works w'"
    using append_works [OF w] by blast
  let ?e3 = "(cr_engine ?c2)\<lparr>en_wal := w'\<rparr>"
  have wd: "write_durable ?r (cr_engine ?c2) = (Written ?r, ?e3)" using app(1) by (simp add: write_durable_def)
  let ?c3 = "with_hand 0 (Written ?r) ?e3 ?c2"
  have r3: "child_reachable pipe upper e (?s1\<lparr>ch_crew := ?c2\<rparr>\<lparr>ch_crew := ?c3\<rparr>)"
    by (rule go [OF r2]) (use crew_step.writes [OF _ wd, where t = 0] in simp_all)
  obtain out m where enq: "try_enqueue ?r (en_ring (cr_engine ?c3)) = (out, m)" by fastforce
  let ?c4 = "(with_hand 0 Idle ((cr_engine ?c3)\<lparr>en_ring := m\<rparr>) ?c3)\<lparr>cr_promised := ?r # cr_promised ?c3\<rparr>"
  let ?s4 = "?s1\<lparr>ch_crew := ?c2\<rparr>\<lparr>ch_crew := ?c3\<rparr>\<lparr>ch_crew := ?c4\<rparr>"
  have r4: "child_reachable pipe upper e ?s4"
    by (rule go [OF r3]) (use crew_step.promises [OF _ enq, where t = 0] in simp_all)
  have "child_reachable pipe upper e (announce i (succeeded i (ch_crew ?s4)) (pipe i) ?s4)"
    by (rule child_reachable.step [OF r4 child_step.returns]) simp_all
  moreover have "succeeded i ?c4" by (simp add: succeeded_def child_request_def)
  ultimately show ?thesis using app(2) c0 sent by (auto simp: announce_def)
qed

lemma two_announced:
  "\<exists>e w s. start (child_config dir) mock_new order clock (empty_dir []) = (Inr e, w)
    \<and> child_reachable (\<lambda>i. (True, i < 1)) (upper_bound 3) e s \<and> \<not> ch_checkpointed s \<and> ch_acks s = [0, 1]"
proof -
  let ?pipe = "\<lambda>i :: u64. (True, i < 1)"
  obtain e w where s: "start (child_config dir) mock_new order clock (empty_dir []) = (Inr e, w)" "works (en_wal e)"
    using start_empty_works [OF child_config_fields(3), of dir mock_new order clock] by (elim exE conjE)
  have u: "upper_bound 3 = 1000003" by (simp add: upper_bound_def)
  have i: "ch_pc (child_start e) = Next 0" "cr_hands (ch_crew (child_start e)) 0 = Idle"
    "works (child_log (child_start e))" "\<not> ch_checkpointed (child_start e)" "ch_acks (child_start e) = []"
    using s(2) by (simp_all add: child_start_def crew_start_def)
  have r: "child_reachable ?pipe (upper_bound 3) e (child_start e)" by (rule child_reachable.start)
  have p: "?pipe 0 = (True, True)" "?pipe 1 = (True, False)" and lt: "0 < upper_bound 3" "1 < upper_bound 3"
    by (simp_all add: u)
  obtain s1 where s1: "child_reachable ?pipe (upper_bound 3) e s1" "ch_pc s1 = Next 1" "cr_hands (ch_crew s1) 0 = Idle"
    "works (child_log s1)" "\<not> ch_checkpointed s1" "ch_acks s1 = [0]"
    using announces_next [OF r i(1) lt(1) i(2-4) p(1)] i(5) by auto
  show ?thesis using announces_next [OF s1(1,2) lt(2) s1(3-5) p(2)] s1(6) s(1) by auto
qed

theorem announced_writes_recovered_witness:
  "\<exists>s rs. ch_acks s = [0, 1] \<and> restarts_with (child_log s) (Some (wr_file (child_log s)))
      (length (data_of (child_log s) (wr_file (child_log s)))) rs
    \<and> (\<exists>r \<in> set rs. wal_id r = 1 \<and> wal_blob r = u64_to_le_bytes 1)"
proof -
  obtain e w s where s: "start (child_config ''wal'') mock_new (\<lambda>_. ascending) [] (empty_dir []) = (Inr e, w)"
    "child_reachable (\<lambda>i. (True, i < 1)) (upper_bound 3) e s" "\<not> ch_checkpointed s" and acks: "ch_acks s = [0, 1]"
    using two_announced by blast
  obtain m rs where "anchored m rs (child_log s)"
    using child_inv_reachable [OF s(1,2)] s(3) by (auto simp: child_inv_def log_keeps_def)
  then have "can_crash (child_log s) (Some (wr_file (child_log s))) (length (data_of (child_log s) (wr_file (child_log s))))"
    by (auto simp: anchored_def can_crash_def wal_holds_def writer_ok_def disk_ok_def)
  from announced_writes_recovered [OF s this] acks show ?thesis by fastforce
qed

end
