(* ===== verification/Meter.thy ===== *)
theory Meter
  imports Pipeline
begin

text \<open>
  What the metrics account for when no call fails: every record counted as flushed was accepted
  once and has left ring and dirty set, and the store has no more players than records were
  flushed into it.
\<close>

section \<open>The counters of one batch\<close>

lemma retries_keep [simp]:
  "m_records_flushed ((record_store_retry ^^ k) m) = m_records_flushed m"
  "m_store_errors ((record_store_retry ^^ k) m) = m_store_errors m"
  by (induction k) (simp_all add: record_store_retry_def)

lemma record_keeps [simp]:
  "m_records_flushed (record_wal_append n t m) = m_records_flushed m"
  "m_store_errors (record_wal_append n t m) = m_store_errors m"
  "m_records_flushed (record_flush n t m) = m_records_flushed m + word_of_nat n"
  "m_store_errors (record_flush n t m) = m_store_errors m"
  "m_records_flushed (record_submit_enqueued t m) = m_records_flushed m"
  "m_store_errors (record_submit_enqueued t m) = m_store_errors m"
  "m_records_flushed (record_submit_dropped m) = m_records_flushed m"
  "m_store_errors (record_submit_dropped m) = m_store_errors m"
  by (simp_all add: record_wal_append_def record_flush_def record_submit_enqueued_def record_submit_dropped_def)

definition counted :: "nat \<Rightarrow> 'd engine \<Rightarrow> 'd engine \<Rightarrow> bool" where
  "counted n e e' \<longleftrightarrow> m_records_flushed (en_metrics e') = m_records_flushed (en_metrics e) + word_of_nat n
     \<and> m_store_errors (en_metrics e') = m_store_errors (en_metrics e)"

lemma persist_counted:
  assumes "persist_with_retry p sts e = (r, e')"
  shows "counted 0 e e'"
proof -
  obtain k where "e' = bump (record_store_retry ^^ k) (e\<lparr>en_store := en_store e'\<rparr>)"
    using assms by (rule persist_frame)
  from arg_cong [OF this, of en_metrics] have "en_metrics e' = (record_store_retry ^^ k) (en_metrics e)" by simp
  then show ?thesis by (simp add: counted_def)
qed


lemma flush_batch_counted:
  assumes "flush_batch p sts e = (True, e')"
  shows "counted (length sts) e e'"
proof -
  obtain x w where a: "append_batch (stamp (next_lsn (en_lsn e)) sts) (en_wal e) = (x, w)" by fastforce
  obtain l where l: "x = Inr l" using assms a by (cases x) (auto simp: flush_batch_def alloc_block_def Let_def)
  let ?e = "e\<lparr>en_lsn := snd (alloc_block (word_of_nat (length sts)) (en_lsn e)), en_wal := w\<rparr>"
  let ?e1 = "bump (record_wal_append (length sts) (fst (elapsed ?e))) (snd (elapsed ?e))"
  obtain r e2 where r: "persist_with_retry p sts ?e1 = (r, e2)" by fastforce
  then have c: "counted 0 e e2" using persist_counted [OF r] by (simp add: counted_def)
  have "r = Persisted"
    using assms a l r by (cases r) (auto simp: flush_batch_def alloc_block_def Let_def case_prod_beta)
  then show ?thesis
    using assms a l r c
    by (auto simp: flush_batch_def alloc_block_def Let_def case_prod_beta counted_def split: option.splits)
qed

lemma api_done_counted: "api_done sts l e = (Inr n, e') \<Longrightarrow> counted (length sts) e e'"
  by (auto simp: api_done_def counted_def split: option.splits prod.splits sum.splits)

lemma flush_states_counted:
  assumes "flush_states p sts e = (Inr n, e')"
  shows "counted (length sts) e e'"
proof -
  obtain x w where a: "append_batch (stamp (next_lsn (en_lsn e)) sts) (en_wal e) = (x, w)" by fastforce
  obtain l where l: "x = Inr l" using assms a by (cases x) (auto simp: flush_states_def alloc_block_def Let_def)
  let ?e = "e\<lparr>en_lsn := snd (alloc_block (word_of_nat (length sts)) (en_lsn e)), en_wal := w\<rparr>"
  let ?e1 = "bump (record_wal_append (length sts) (fst (elapsed ?e))) (snd (elapsed ?e))"
  obtain r e2 where r: "persist_loop p sts 0 ?e1 = (r, e2)" by fastforce
  then have c: "counted 0 e e2"
    using persist_counted [of p sts ?e1 r e2] by (simp add: counted_def persist_with_retry_def)
  have f: "flush_states_loop p sts l 0 ?e1 = (Inr n, e')"
    using assms a l by (simp add: flush_states_def alloc_block_def Let_def case_prod_beta)
  have "api_done sts l e2 = (Inr n, e')"
    using flush_states_loop_persist [OF r, of l] f by (cases r) auto
  from api_done_counted [OF this] show ?thesis using c by (simp add: counted_def)
qed

section \<open>The account\<close>

text \<open>
  \<open>N\<close> requests were accepted so far, all of players in \<open>I\<close>.
\<close>

definition metered :: "player_id set \<Rightarrow> nat \<Rightarrow> ('d \<Rightarrow> table) \<Rightarrow> 'd engine \<Rightarrow> bool" where
  "metered I N load e \<longleftrightarrow>
     unat (m_records_flushed (en_metrics e)) + dirty_len (en_cache e) + length (queued e) \<le> N
     \<and> finite (dom (load (en_store e)))
     \<and> card (dom (load (en_store e))) \<le> unat (m_records_flushed (en_metrics e))
     \<and> m_store_errors (en_metrics e) = 0
     \<and> wr_id ` set (queued e) \<subseteq> I \<and> dom (live (en_cache e)) \<subseteq> I \<and> dom (load (en_store e)) \<subseteq> I"

lemma metered_parts:
  assumes "metered I N load e"
  shows "unat (m_records_flushed (en_metrics e)) + dirty_len (en_cache e) + length (queued e) \<le> N"
    and "finite (dom (load (en_store e)))"
    and "card (dom (load (en_store e))) \<le> unat (m_records_flushed (en_metrics e))"
    and "m_store_errors (en_metrics e) = 0"
    and "wr_id ` set (queued e) \<subseteq> I" and "dom (live (en_cache e)) \<subseteq> I" and "dom (load (en_store e)) \<subseteq> I"
  using assms unfolding metered_def by blast+

lemma meteredI:
  assumes "unat (m_records_flushed (en_metrics e)) + dirty_len (en_cache e) + length (queued e) \<le> N"
    and "finite (dom (load (en_store e)))"
    and "card (dom (load (en_store e))) \<le> unat (m_records_flushed (en_metrics e))"
    and "m_store_errors (en_metrics e) = 0"
    and "wr_id ` set (queued e) \<subseteq> I" and "dom (live (en_cache e)) \<subseteq> I" and "dom (load (en_store e)) \<subseteq> I"
  shows "metered I N load e"
  using assms unfolding metered_def by blast

lemma card_dom_lww_all:
  "finite (dom m) \<Longrightarrow> card (dom (lww_all sts m)) \<le> card (dom m) + length sts"
proof -
  have "card (ps_id ` set sts \<union> dom m) \<le> card (ps_id ` set sts) + card (dom m)" by (rule card_Un_le)
  moreover have "card (ps_id ` set sts) \<le> length sts"
    using card_image_le [of "set sts" ps_id] card_length [of sts] by simp
  ultimately show ?thesis unfolding dom_lww_all by linarith
qed

text \<open>A batch moves from the dirty set to the flushed records.\<close>

lemma metered_round:
  assumes m: "metered I N load e" and "N < 2 ^ 64" and ok: "engine_ok e" and t: "take_batch e = (sts, e1)"
    and c: "counted (length sts) e1 e2" and s: "merged load sts e1 e2" and q: "same_queue e1 e2"
  shows "metered I N load e2"
proof -
  have inv: "cache_inv (en_cache e)" using ok by (simp add: engine_ok_def)
  note tf = take_batch_frame [OF t]
  note td = take_dirty_spec [OF inv take_batch_takes(1) [OF t]]
  have "ps_id ` set sts \<subseteq> dirty_set e" using td(3) by auto
  moreover have "card (ps_id ` set sts) = length sts" using td(4) distinct_card [of "map ps_id sts"] by simp
  moreover have fin: "finite (dirty_set e)" by (rule cache_inv_finite_dirty [OF inv])
  ultimately have "length sts \<le> card (dirty_set e)" "card (dirty_set e1) = card (dirty_set e) - length sts"
    using card_mono [OF fin, of "ps_id ` set sts"] td(2) by (simp_all add: card_Diff_subset)
  then have d: "dirty_len (en_cache e) = dirty_len (en_cache e1) + length sts" by (simp add: dirty_len_def)
  let ?f = "m_records_flushed (en_metrics e)"
  have "unat ?f + length sts < 2 ^ 64" using m d assms(2) by (simp add: metered_def)
  then have f: "unat (m_records_flushed (en_metrics e2)) = unat ?f + length sts"
    using c tf by (simp add: counted_def unat_word_ariths take_bit_nat_eq_self unat_of_nat)
  have ids: "ps_id ` set sts \<subseteq> dom (live (en_cache e))" using td(3) by (auto simp del: dom_live)
  have l: "load (en_store e2) = lww_all sts (load (en_store e))" "en_cache e2 = en_cache e1"
    using s tf by (simp_all add: merged_def)
  have "card (dom (load (en_store e2))) \<le> unat ?f + length sts"
    using card_dom_lww_all [of "load (en_store e)" sts] m l(1) by (simp add: metered_def)
  moreover have "dom (live (en_cache e2)) \<subseteq> I" "dom (load (en_store e2)) \<subseteq> I"
    using m ids unfolding metered_def l dom_lww_all td(1) by blast+
  ultimately show ?thesis using m c q tf d f l by (simp add: metered_def counted_def same_queue_def dom_lww_all)
qed


lemma metered_idle:
  assumes "metered I N load e" and "engine_ok e" and t: "take_batch e = ([], e1)"
  shows "metered I N load e1"
proof -
  note c = take_batch_ok(3,4) [OF assms(2) t]
  have d: "dirty_len (en_cache e1) = dirty_len (en_cache e)" by (simp add: dirty_len_def c(1))
  show ?thesis
    using assms(1) unfolding metered_def d c(2) take_batch_frame [OF t] by blast
qed

text \<open>A drain moves requests from the ring to the dirty set, or coalesces them.\<close>

lemma fold_apply_cache:
  "finite (c_dirty c) \<Longrightarrow> finite (c_dirty (fold cache_apply rs c))
     \<and> card (c_dirty (fold cache_apply rs c)) \<le> card (c_dirty c) + length rs
     \<and> dom (live (fold cache_apply rs c)) \<subseteq> dom (live c) \<union> wr_id ` set rs"
proof (induction rs arbitrary: c)
  case (Cons r rs)
  have d: "c_dirty (cache_apply r c) \<subseteq> insert (wr_id r) (c_dirty c)" by (auto simp: dirty_apply)
  then have f: "finite (c_dirty (cache_apply r c))" using Cons.prems finite_subset by blast
  have "card (c_dirty (cache_apply r c)) \<le> card (insert (wr_id r) (c_dirty c))"
    using card_mono [OF _ d] Cons.prems by simp
  also have "\<dots> \<le> Suc (card (c_dirty c))" by (simp add: card_insert_if Cons.prems)
  finally have c: "card (c_dirty (cache_apply r c)) \<le> Suc (card (c_dirty c))" .
  have "dom (live (cache_apply r c)) \<subseteq> insert (wr_id r) (dom (live c))"
    by (auto simp: live_apply lww_put_def to_state_def simp del: dom_live split: option.splits if_splits)
  with Cons.IH [OF f] have "dom (live (fold cache_apply (r # rs) c)) \<subseteq> dom (live c) \<union> wr_id ` set (r # rs)"
    unfolding fold_Cons o_apply list.set image_insert by blast
  with Cons.IH [OF f] c show ?case by simp
qed simp

lemma metered_drained:
  assumes "metered I N load e" and "engine_ok e" and "en_cache e' = fold cache_apply rs (en_cache e)"
    and "queued e = rs @ queued e'" and "en_store e' = en_store e" and "en_metrics e' = en_metrics e"
  shows "metered I N load e'"
proof -
  have "finite (dirty_set e)" using assms(2) by (simp add: engine_ok_def cache_inv_finite_dirty)
  note f = fold_apply_cache [OF this, of rs]
  have q: "wr_id ` set (queued e) = wr_id ` set rs \<union> wr_id ` set (queued e')"
    "length (queued e) = length rs + length (queued e')" by (simp_all add: assms(4) image_Un del: length_contents)
  have c: "dom (live (en_cache e')) \<subseteq> dom (live (en_cache e)) \<union> wr_id ` set rs"
    "dirty_len (en_cache e') \<le> dirty_len (en_cache e) + length rs"
    using f by (simp_all add: assms(3) dirty_len_def)
  note m = metered_parts [OF assms(1)]
  have "wr_id ` set rs \<subseteq> I" "wr_id ` set (queued e') \<subseteq> I" using m(5) unfolding q(1) by simp_all
  moreover from this(1) have "dom (live (en_cache e')) \<subseteq> I"
    using subset_trans [OF c(1)] m(6) by (meson Un_least)
  ultimately show ?thesis
    by (intro meteredI) (use m(1-4,7) c(2) q(2) in \<open>simp_all only: assms(5,6), linarith?\<close>)
qed

lemma drain_metrics: "drain_up_to n e = (k, e') \<Longrightarrow> en_metrics e' = en_metrics e"
  by (auto simp: drain_up_to_def fold_apply_drained split: prod.splits)

lemma metered_drain:
  assumes "metered I N load e" and "engine_ok e" and "drain_up_to n e = (k, e')"
  shows "metered I N load e'"
proof -
  note d = drain_up_to_effect [OF assms(2,3)]
  show ?thesis by (rule metered_drained [OF assms(1,2) d(3) _ d(7) drain_metrics [OF assms(3)]]) (simp add: d(2))
qed

lemma api_drain_metrics:
  assumes "api_drain e = Some e'"
  shows "en_metrics e' = en_metrics e"
proof (rule api_drain.raw_induct [OF _ assms])
  fix f and e e' :: "'a engine"
  assume IH: "\<And>e e'. f e = Some e' \<Longrightarrow> en_metrics e' = en_metrics e"
    and body: "(let (moved, e1) = drain_up_to (cfg_flush_max_batch (en_config e)) e in
      if moved = 0 then Some e1 else if moved < cfg_flush_max_batch (en_config e) then Some e1 else f e1) = Some e'"
  obtain k e1 where d: "drain_up_to (cfg_flush_max_batch (en_config e)) e = (k, e1)" by fastforce
  then have "e' = e1 \<or> f e1 = Some e'" using body by (auto split: if_splits)
  then show "en_metrics e' = en_metrics e" using IH drain_metrics [OF d] by auto
qed


section \<open>Worker, caller and \<open>flush_now\<close>\<close>

lemma metered_flush:
  assumes st: "store_trait persist load" and up: "always_up persist up" and w: "all_well up e"
    and m: "metered I N load e" and N: "N < 2 ^ 64" and f: "flush persist e = Some e'"
  shows "metered I N load e'"
proof -
  have "engine_ok e" using w by (simp add: all_well_def)
  then have "\<exists>e'. flush persist e = Some e' \<and> (all_well up e \<longrightarrow> metered I N load e \<longrightarrow> metered I N load e')"
  proof (induction rule: flush_induct)
    case (clean e e1)
    then show ?case using metered_idle by blast
  next
    case (failed e sts e1 e2)
    have "all_well up e \<Longrightarrow> all_well up e1"
      using take_batch_ok(1) [OF failed(1,2)] take_batch_frame [OF failed(2)] by (simp add: all_well_def)
    then show ?case using flush_batch_up(1) [OF up _ failed(4)] by blast
  next
    case (persisted e sts e1 e2 e3)
    have w1: "all_well up e \<Longrightarrow> all_well up e1"
      using take_batch_ok(1) [OF persisted(1,2)] take_batch_frame [OF persisted(2)] by (simp add: all_well_def)
    have "merged load sts e1 e2" using store_trait.flush_batch_store [OF st persisted(4)] by simp
    note metered_round [OF _ N persisted(1,2) flush_batch_counted [OF persisted(4)] this
      flush_batch_ok(2) [OF take_batch_ok(1) [OF persisted(1,2)] persisted(4)]]
    then show ?case using persisted(7) flush_batch_up(2) [OF up w1 persisted(4)] by blast
  qed
  then show ?thesis using f w m by auto
qed

lemma metered_worker:
  assumes st: "store_trait persist load" and up: "always_up persist up" and w: "ready up e"
    and m: "metered I N load e" and N: "N < 2 ^ 64" and s: "worker_step persist t e = Some e'"
  shows "metered I N load e'"
proof -
  obtain k e1 where d: "drain_ring_into_cache e = (k, e1)" by fastforce
  have w1: "all_well up e1" using ready_drain [OF w d] by (simp add: ready_def)
  have m1: "metered I N load e1" using metered_drain [OF m ready_ok [OF w]] d by (simp add: drain_ring_is)
  have "e' = e1 \<or> flush persist e1 = Some e'"
    using s by (auto simp: worker_step_def d Let_def split: if_splits)
  then show ?thesis using m1 metered_flush [OF st up w1 m1 N] by blast
qed

lemma api_drain_unwrapped:
  assumes "api_drain e = Some e'"
  shows "unwrapped (en_ring e) \<longrightarrow> unwrapped (en_ring e')"
proof (rule api_drain.raw_induct [OF _ assms])
  fix f and e e' :: "'a engine"
  assume IH: "\<And>e e'. f e = Some e' \<Longrightarrow> unwrapped (en_ring e) \<longrightarrow> unwrapped (en_ring e')"
    and body: "(let (moved, e1) = drain_up_to (cfg_flush_max_batch (en_config e)) e in
      if moved = 0 then Some e1 else if moved < cfg_flush_max_batch (en_config e) then Some e1 else f e1) = Some e'"
  obtain k e1 where d: "drain_up_to (cfg_flush_max_batch (en_config e)) e = (k, e1)" by fastforce
  then have "en_ring e1 = snd (drain_into (cfg_flush_max_batch (en_config e)) (en_ring e))"
    by (auto simp: drain_up_to_def fold_apply_drained split: prod.splits)
  moreover have "e' = e1 \<or> f e1 = Some e'" using d body by (auto split: if_splits)
  ultimately show "unwrapped (en_ring e) \<longrightarrow> unwrapped (en_ring e')" using IH unwrapped_drain by auto
qed

lemma metered_flush_now:
  assumes st: "store_trait persist load" and up: "always_up persist up" and w: "ready up e"
    and m: "metered I N load e" and N: "N < 2 ^ 64" and f: "flush_now persist e = Some (r, e')"
  shows "metered I N load e'" and "ready up e'"
proof -
  have ok: "engine_ok e" by (rule ready_ok [OF w])
  obtain e1 where e1: "api_drain e = Some e1" "engine_ok e1" "queued e1 = []"
    "en_cache e1 = fold cache_apply (queued e) (en_cache e)" "en_wal e1 = en_wal e" "en_store e1 = en_store e"
    using api_drain_effect [OF ok] by blast
  let ?I = "\<lambda>e. ready up e \<and> metered I N load e"
  have I1: "?I e1"
    using w e1 metered_drained [OF m ok e1(4) _ e1(6) api_drain_metrics [OF e1(1)]] api_drain_unwrapped [OF e1(1)]
    by (simp add: ready_def all_well_def)
  have well: "ready up e1" if "ready up e" "take_batch e = (sts, e1)" for e sts e1
    using that take_batch_ok(1) [OF _ that(2)] take_batch_frame [OF that(2)] by (simp add: ready_def all_well_def)
  have round: "?I e2 \<and> True" if "?I e" "take_batch e = (sts, e1)" "sts \<noteq> []" "flush_states persist sts e1 = (r, e2)"
    for e sts e1 r e2
  proof -
    have o: "engine_ok e" "all_well up e1" "unwrapped (en_ring e1)"
      using that(1) well [OF _ that(2)] by (simp_all add: ready_def all_well_def)
    note u = flush_states_up [OF up o(2) that(4)]
    note f = that(4) [unfolded u(1)]
    note q = flush_states_ok(2) [OF take_batch_ok(1) [OF o(1) that(2)] f]
    have "metered I N load e2"
      by (rule metered_round [OF conjunct2 [OF that(1)] N o(1) that(2) flush_states_counted [OF f]
            store_trait.flush_states_store(2) [OF st f refl] q])
    then show ?thesis using u(2) o(3) q by (simp add: ready_def same_queue_def)
  qed
  have idle: "?I e1 \<and> True" if "?I e" "take_batch e = ([], e1)" for e e1
    using that well metered_idle [OF _ ready_ok that(2)] by blast
  have "\<exists>r e2. flush_now_loop persist 0 e1 = Some (r, e2) \<and> ?I e2 \<and> True \<and> queued e2 = []
      \<and> ((\<exists>m. r = Inr m) \<longrightarrow> dirty_set e2 = {})"
  proof (rule flush_now_loop_rule [where I = ?I and Q = "\<lambda>_ _. True", OF I1 e1(3)])
    fix e
    assume "?I e"
    then show "engine_ok e" using ready_ok by blast
  next
    fix e sts e1 r e2
    assume "?I e" "take_batch e = (sts, e1)" "sts \<noteq> []" "flush_states persist sts e1 = (r, e2)"
    then show "?I e2 \<and> True" by (rule round)
  next
    fix e e1
    assume "?I e" "take_batch e = ([], e1)"
    then show "?I e1 \<and> True" by (rule idle)
  qed simp_all
  then obtain r e2 where "flush_now_loop persist 0 e1 = Some (r, e2)" "?I e2" by blast
  then show "metered I N load e'" "ready up e'" using f e1(1) by (simp_all add: flush_now_def)
qed

lemma metered_submit:
  assumes m: "metered I N load e" and ok: "engine_ok e" and i: "i \<in> I" and s: "submit i v b e = (out, e')"
  shows "metered I (if out = Enqueued then Suc N else N) load e'"
proof -
  have inv: "ring_inv (en_ring e)" using ok by (simp add: engine_ok_def)
  note r = submit_ring(2) [OF inv s]
  note f = submit_effect [OF s]
  have c: "m_records_flushed (en_metrics e') = m_records_flushed (en_metrics e)"
    "m_store_errors (en_metrics e') = m_store_errors (en_metrics e)"
    using s by (auto simp: submit_def Let_def case_prod_beta split: prod.splits sum.splits)
  have q: "length (queued e') = length (queued e) + (if out = Enqueued then 1 else 0)"
    "wr_id ` set (queued e') \<subseteq> insert i (wr_id ` set (queued e))"
    unfolding r by (auto simp: the_request_def simp del: length_contents)
  note m = metered_parts [OF m]
  show ?thesis
  proof (rule meteredI)
    show "wr_id ` set (queued e') \<subseteq> I" using q(2) m(5) i by blast
    show "unat (m_records_flushed (en_metrics e')) + dirty_len (en_cache e') + length (queued e')
        \<le> (if out = Enqueued then Suc N else N)"
      using m(1) by (simp add: c(1) f(1) q(1) del: length_contents)
  qed (use m(2-4,6,7) in \<open>simp_all only: c f(1,3)\<close>)
qed


text \<open>How many requests the ring has taken; the counter wraps only after \<open>2 ^ 64\<close> of them.\<close>

lemma drain_into_enq: "ring_inv m \<Longrightarrow> rb_enq (snd (drain_into n m)) = rb_enq m"
proof (induction n arbitrary: m)
  case (Suc n)
  show ?case
  proof (rule ring_dequeue_cases [OF Suc.prems])
    fix x
    assume "0 < ring_size m" "try_dequeue m = (Some x, popped m)"
    then show ?thesis using Suc.IH [of "popped m"] ring_inv_popped [OF Suc.prems]
      by (simp add: case_prod_beta)
  qed simp
qed simp

lemma drain_into_capacity: "ring_inv m \<Longrightarrow> ring_capacity (snd (drain_into n m)) = ring_capacity m"
proof (induction n arbitrary: m)
  case (Suc n)
  show ?case
  proof (rule ring_dequeue_cases [OF Suc.prems])
    fix x
    assume "0 < ring_size m" "try_dequeue m = (Some x, popped m)"
    then show ?thesis using Suc.IH [of "popped m"] ring_inv_popped [OF Suc.prems] ringq.capacity_dequeue [OF Suc.prems]
      by (simp add: case_prod_beta)
  qed simp
qed simp

lemma worker_step_ring:
  assumes "engine_ok e" and "worker_step p t e = Some e'"
  shows "rb_enq (en_ring e') = rb_enq (en_ring e)" and "ring_capacity (en_ring e') = ring_capacity (en_ring e)"
proof -
  obtain k e1 where d: "drain_ring_into_cache e = (k, e1)" by fastforce
  note dr = drain_up_to_effect(5,11) [OF assms(1) d [unfolded drain_ring_is]]
  have "e' = e1 \<or> flush p e1 = Some e'"
    using assms(2) by (auto simp: worker_step_def d Let_def split: if_splits)
  then have "en_ring e' = en_ring e1" using flush_ok [OF dr(1), of p] by auto
  then show "rb_enq (en_ring e') = rb_enq (en_ring e)" "ring_capacity (en_ring e') = ring_capacity (en_ring e)"
    using dr(2) drain_into_enq drain_into_capacity assms(1) by (simp_all add: engine_ok_def)
qed

lemma submit_ready:
  assumes r: "ready up e" and "rb_enq (en_ring e) \<noteq> - 1" and s: "submit i v b e = (out, e')"
  shows "ready up e'"
    and "rb_enq (en_ring e') = (if out = Enqueued then rb_enq (en_ring e) + 1 else rb_enq (en_ring e))"
proof -
  have inv: "ring_inv (en_ring e)" "lsn_inv (en_lsn e)" using ready_ok [OF r] by (simp_all add: engine_ok_def)
  note f = submit_effect [OF s]
  let ?req = "the_request i v b e"
  have "rb_deq (en_ring e) \<le> rb_enq (en_ring e)" using r by (simp add: ready_def unwrapped_def)
  also have "\<dots> \<le> rb_enq (en_ring e) + 1" using unat_next [of "rb_enq (en_ring e)" "- 1"] assms(2)
    by (simp add: word_le_nat_alt word_order.not_eq_extremum)
  finally have le: "rb_deq (en_ring e) \<le> rb_enq (en_ring e) + 1" .
  have "unwrapped (en_ring e') \<and>
    rb_enq (en_ring e') = (if out = Enqueued then rb_enq (en_ring e) + 1 else rb_enq (en_ring e))"
    by (rule ring_enqueue_cases [OF inv(1), of ?req])
       (use r f(8,9) le ring_inv_pushed [OF inv(1)] in \<open>auto simp: ready_def unwrapped_def\<close>)
  moreover have "engine_ok e'"
    using ready_ok [OF r] f(1,4,7) submit_ring(3) [OF inv(1) s] by (simp add: engine_ok_def)
  ultimately show "ready up e'"
    "rb_enq (en_ring e') = (if out = Enqueued then rb_enq (en_ring e) + 1 else rb_enq (en_ring e))"
    using r f(2,3) by (simp_all add: ready_def all_well_def)
qed


lemma shutdown_returns:
  assumes "always_up p up" and "ready up e"
  shows "\<exists>e'. shutdown p ts e = Some (Inr (), e')"
proof -
  obtain e1 where e1: "run p ts e = Some e1" "ready up e1" using run_ready [OF assms] by blast
  then have "works (en_wal e1)" by (simp add: ready_def all_well_def)
  then obtain w where "wal_flush (en_wal e1) = (Inr (), w)" using wal_flush_works by blast
  then show ?thesis using e1(1) by (simp add: shutdown_def)
qed

section \<open>A run without failing calls\<close>

text \<open>Worker iterations between two calls of the main thread.\<close>

fun worker_rounds :: "'d persist \<Rightarrow> bool list \<Rightarrow> 'd engine \<Rightarrow> 'd engine option" where
  "worker_rounds p [] e = Some e"
| "worker_rounds p (t # ts) e = Option.bind (worker_step p t e) (worker_rounds p ts)"

definition running :: "('d \<Rightarrow> bool) \<Rightarrow> ('d \<Rightarrow> table) \<Rightarrow> player_id set \<Rightarrow> nat \<Rightarrow> 'd engine \<Rightarrow> bool" where
  "running up load I N e \<longleftrightarrow> ready up e \<and> pipeline_ok load e \<and> metered I N load e
     \<and> rb_enq (en_ring e) = word_of_nat N"

lemma running_worker:
  assumes st: "store_trait persist load" and up: "always_up persist up" and r: "running up load I N e"
    and N: "N < 2 ^ 64" and s: "worker_step persist t e = Some e'"
  shows "running up load I N e' \<and> no_loss load e e' \<and> ring_capacity (en_ring e') = ring_capacity (en_ring e)"
proof -
  have d: "ready up e" "pipeline_ok load e" "metered I N load e" using r by (simp_all add: running_def)
  note w = worker_step_ring [OF ready_ok [OF d(1)] s]
  show ?thesis
    using store_trait.worker_step_no_loss [OF st d(2) s] metered_worker [OF st up d(1,3) N s]
      worker_step_ready [OF up d(1) s] w r by (simp add: running_def)
qed

lemma running_rounds:
  assumes st: "store_trait persist load" and up: "always_up persist up" and N: "N < 2 ^ 64"
  shows "running up load I N e \<Longrightarrow> \<exists>e'. worker_rounds persist bs e = Some e' \<and> running up load I N e'
    \<and> no_loss load e e' \<and> ring_capacity (en_ring e') = ring_capacity (en_ring e)"
proof (induction bs arbitrary: e)
  case (Cons b bs)
  have "engine_ok e" using Cons.prems ready_ok by (auto simp: running_def)
  then obtain e1 where e1: "worker_step persist b e = Some e1" using worker_step_total by blast
  note r = running_worker [OF st up Cons.prems N e1]
  from Cons.IH [OF conjunct1 [OF r]] r e1 show ?case by (auto intro: no_loss_trans)
qed simp

lemma running_submit:
  assumes r: "running up load I N e" and N: "N < 2 ^ 63" and i: "i \<in> I" and s: "submit i v b e = (out, e')"
  shows "running up load I (if out = Enqueued then Suc N else N) e'" and "no_loss load e e'"
    and "out = Enqueued \<Longrightarrow> accounted load e' \<lparr>ps_id = i, ps_version = v, ps_blob = b\<rparr>"
    and "N < ring_capacity (en_ring e) \<Longrightarrow> out = Enqueued"
    and "ring_capacity (en_ring e') = ring_capacity (en_ring e)"
proof -
  have d: "ready up e" "pipeline_ok load e" "metered I N load e" "rb_enq (en_ring e) = word_of_nat N"
    using r by (simp_all add: running_def)
  have ok: "engine_ok e" and inv: "ring_inv (en_ring e)" using ready_ok [OF d(1)] by (simp_all add: engine_ok_def)
  have "unat (rb_enq (en_ring e)) = N" using d(4) N by (simp add: unat_word_of_nat_u64)
  then have "rb_enq (en_ring e) \<noteq> - 1" using N by (auto simp: unsigned_minus_1_eq_mask mask_eq_exp_minus_1)
  note q = submit_ready [OF d(1) this s]
  note l = submit_no_loss [OF d(2) s]
  show "running up load I (if out = Enqueued then Suc N else N) e'"
    using q d(4) l metered_submit [OF d(3) ok i s] by (cases out) (auto simp: running_def)
  show "no_loss load e e'" using l(1) by blast
  show "accounted load e' \<lparr>ps_id = i, ps_version = v, ps_blob = b\<rparr>" if "out = Enqueued" using l(2) that .
  show "out = Enqueued" if "N < ring_capacity (en_ring e)"
    using submit_ring(1) [OF inv s] metered_parts(1) [OF d(3)] that by (simp del: length_contents)
  show "ring_capacity (en_ring e') = ring_capacity (en_ring e)"
    using submit_effect(8) [OF s] ringq.capacity_enqueue [OF inv] by simp
qed

lemma running_flush_now:
  assumes st: "store_trait persist load" and up: "always_up persist up" and N: "N < 2 ^ 64"
    and r: "running up load I N e"
  obtains n e' where "flush_now persist e = Some (Inr n, e')" and "ready up e'" and "pipeline_ok load e'"
    and "metered I N load e'" and "no_loss load e e'" and "queued e' = []" and "dirty_set e' = {}"
proof -
  have d: "ready up e" "pipeline_ok load e" "metered I N load e" using r by (simp_all add: running_def)
  obtain n e' where f: "flush_now persist e = Some (Inr n, e')"
    using flush_now_up [OF up, of e] d(1) by (auto simp: ready_def)
  note m = metered_flush_now [OF st up d(1,3) N f]
  show thesis using that [OF f m(2) _ m(1)] store_trait.flush_now_no_loss [OF st d(2)] f by auto
qed

end
