(* ===== verification/Demo.thy ===== *)
theory Demo
  imports Meter
begin

text \<open>
  \<open>src/bin/demo.rs\<close>: a scripted run of the engine over the mock store that ends in assertions.
  Printing, pacing and the floating-point averages are left out; what the run decides is kept:
  the writes it submits, its counts, the budget of a tick, and the gates at the end.

  The worker's thread enters as a schedule: \<open>idle tick i\<close> lists the worker iterations that
  complete before write \<open>i\<close> of the tick (each with its flush timer), \<open>took tick\<close> is the time
  the tick needed.  Method calls do not overlap here; \<open>Crew\<close> has the overlaps.
\<close>

section \<open>The run\<close>

definition TICKS :: nat where "TICKS = 300"
definition PLAYERS_PER_TICK :: nat where "PLAYERS_PER_TICK = 2000"
definition ID_SPACE :: u64 where "ID_SPACE = 50000"
definition WINDOW_STRIDE :: u64 where "WINDOW_STRIDE = 250"
definition MAX_TICK :: nat where "MAX_TICK = 8000000"

definition demo_config :: "string \<Rightarrow> flux_config" where
  "demo_config dir = with_wal_dir dir
     (default_config\<lparr>cfg_ring_capacity := 2 ^ 14, cfg_flush_max_batch := 1024, cfg_flush_interval := 20000000,
        cfg_worker_idle_sleep := 1000000, cfg_wal_fsync := True, cfg_store_retry_limit := 5,
        cfg_store_retry_backoff := 2000000\<rparr>)"

record tally =
  total_submitted :: u64
  total_enqueued :: u64
  total_dropped :: u64
  version_counter :: u64

definition demo_submit :: "u64 \<Rightarrow> u64 \<Rightarrow> tally \<Rightarrow> 'd engine \<Rightarrow> tally \<times> 'd engine" where
  "demo_submit base i t e =
     (let player_id = (base + i) mod ID_SPACE;
          version = version_counter t;
          t1 = t\<lparr>version_counter := version_counter t + 1\<rparr>;
          (out, e1) = submit player_id version (u64_to_le_bytes version) e;
          t2 = (case out of
                  Enqueued \<Rightarrow> t1\<lparr>total_enqueued := total_enqueued t1 + 1\<rparr>
                | Dropped \<Rightarrow> t1\<lparr>total_dropped := total_dropped t1 + 1\<rparr>)
      in (t2\<lparr>total_submitted := total_submitted t2 + 1\<rparr>, e1))"

fun demo_burst :: "'d persist \<Rightarrow> (nat \<Rightarrow> bool list) \<Rightarrow> u64 \<Rightarrow> nat list \<Rightarrow> tally \<Rightarrow> 'd engine \<Rightarrow>
    (tally \<times> 'd engine) option" where
  "demo_burst p idle base [] t e = Some (t, e)"
| "demo_burst p idle base (i # is) t e =
     Option.bind (worker_rounds p (idle i) e) (\<lambda>e1.
       let (t2, e2) = demo_submit base (word_of_nat i) t e1 in demo_burst p idle base is t2 e2)"

text \<open>How the process ends.\<close>

datatype demo_exit =
    Start_Failed io_error
  | Isolation_Violated nat
  | Flush_Now_Failed flux_error
  | Shutdown_Failed flux_error
  | Store_Empty
  | Too_Many_Ids
  | Unflushed_Ids
  | Store_Errors
  | Passed tally nat

fun demo_ticks :: "'d persist \<Rightarrow> (nat \<Rightarrow> nat \<Rightarrow> bool list) \<Rightarrow> (nat \<Rightarrow> nat) \<Rightarrow> nat list \<Rightarrow> tally \<Rightarrow> 'd engine \<Rightarrow>
    (demo_exit + tally \<times> 'd engine) option" where
  "demo_ticks p idle took [] t e = Some (Inr (t, e))"
| "demo_ticks p idle took (tick # ticks) t e =
     (let base = (word_of_nat tick * WINDOW_STRIDE) mod ID_SPACE in
      Option.bind (demo_burst p (idle tick) base [0..<PLAYERS_PER_TICK] t e) (\<lambda>(t1, e1).
        if took tick < MAX_TICK then demo_ticks p idle took ticks t1 e1
        else Some (Inl (Isolation_Violated tick))))"

definition demo_gates :: "tally \<Rightarrow> metrics \<Rightarrow> nat \<Rightarrow> demo_exit" where
  "demo_gates t final_metrics store_count =
     (if \<not> 0 < store_count then Store_Empty
      else if \<not> word_of_nat store_count \<le> ID_SPACE then Too_Many_Ids
      else if \<not> word_of_nat store_count \<le> m_records_flushed final_metrics then Unflushed_Ids
      else if m_store_errors final_metrics \<noteq> 0 then Store_Errors
      else Passed t store_count)"

text \<open>\<open>rest\<close> and \<open>stopping\<close> are the worker's iterations before \<open>flush_now\<close> and after it.\<close>

definition demo :: "(nat \<Rightarrow> nat \<Rightarrow> bool list) \<Rightarrow> (nat \<Rightarrow> nat) \<Rightarrow> bool list \<Rightarrow> bool list \<Rightarrow> mock_db engine \<Rightarrow>
    demo_exit option" where
  "demo idle took rest stopping e =
     Option.bind (demo_ticks mock_persist_batch idle took [0..<TICKS]
         \<lparr>total_submitted = 0, total_enqueued = 0, total_dropped = 0, version_counter = 1\<rparr> e) (\<lambda>x. case x of
         Inl ex \<Rightarrow> Some ex
       | Inr (t, e1) \<Rightarrow>
           Option.bind (worker_rounds mock_persist_batch rest e1) (\<lambda>e2.
           Option.bind (flush_now mock_persist_batch e2) (\<lambda>y. case y of
               (Inl err, e3) \<Rightarrow> Some (Flush_Now_Failed err)
             | (Inr flushed, e3) \<Rightarrow>
                 (let final_metrics = snapshot (en_metrics e3);
                      store_count = mock_count (en_store e3) in
                  map_option (\<lambda>z. case z of
                      (Inl err, e4) \<Rightarrow> Shutdown_Failed err
                    | (Inr u, e4) \<Rightarrow> demo_gates t final_metrics store_count)
                    (shutdown mock_persist_batch stopping e3)))))"

definition demo_main :: "string \<Rightarrow> (nat \<Rightarrow> hash_order) \<Rightarrow> u64 list \<Rightarrow> (nat \<Rightarrow> nat \<Rightarrow> bool list) \<Rightarrow> (nat \<Rightarrow> nat) \<Rightarrow>
    bool list \<Rightarrow> bool list \<Rightarrow> wal \<Rightarrow> demo_exit option" where
  "demo_main dir order clock idle took rest stopping disk =
     (case start (demo_config dir) (set_latency 50000 mock_new) order clock disk of
        (Inl err, w) \<Rightarrow> Some (Start_Failed err)
      | (Inr e, w) \<Rightarrow> demo idle took rest stopping e)"

section \<open>The account of the run\<close>

definition demo_ok :: "nat \<Rightarrow> mock_db engine \<Rightarrow> bool" where
  "demo_ok N e \<longleftrightarrow> running mock_up mock_load {..<ID_SPACE} N e \<and> (0 < N \<longrightarrow> (\<exists>st. accounted mock_load e st))"

definition tally_ok :: "nat \<Rightarrow> nat \<Rightarrow> tally \<Rightarrow> bool" where
  "tally_ok k N t \<longleftrightarrow> N \<le> k \<and> total_submitted t = word_of_nat k \<and> total_enqueued t = word_of_nat N
     \<and> total_dropped t = word_of_nat (k - N) \<and> version_counter t = word_of_nat (Suc k)"

lemma demo_ok_rounds:
  assumes "demo_ok N e" and "N < 2 ^ 64"
  shows "\<exists>e'. worker_rounds mock_persist_batch bs e = Some e' \<and> demo_ok N e'"
proof -
  obtain e' where "worker_rounds mock_persist_batch bs e = Some e'" "running mock_up mock_load {..<ID_SPACE} N e'"
    "no_loss mock_load e e'"
    using running_rounds [OF mock.store_trait_axioms mock_always_up assms(2), where e = e and bs = bs] assms(1)
    by (auto simp: demo_ok_def)
  then show ?thesis using assms(1) by (auto simp: demo_ok_def no_loss_def)
qed

lemma demo_ok_submit:
  assumes "demo_ok N e" and "tally_ok k N t" and "k < 2 ^ 63" and "demo_submit base i t e = (t', e')"
  shows "\<exists>N'. demo_ok N' e' \<and> tally_ok (Suc k) N' t' \<and> 0 < N'"
proof -
  have r: "running mock_up mock_load {..<ID_SPACE} N e" using assms(1) by (simp add: demo_ok_def)
  let ?i = "(base + i) mod ID_SPACE" and ?v = "version_counter t"
  obtain out where s: "submit ?i ?v (u64_to_le_bytes ?v) e = (out, e')"
    using assms(4) by (auto simp: demo_submit_def Let_def split: prod.splits)
  let ?N = "if out = Enqueued then Suc N else N"
  have N: "N < 2 ^ 63" using assms(2,3) by (simp add: tally_ok_def)
  have "?i < ID_SPACE" by (simp add: ID_SPACE_def word_mod_less_divisor)
  then have "?i \<in> {..<ID_SPACE}" by simp
  note f = running_submit [OF r N this s]
  have inv: "ring_inv (en_ring e)" using r ready_ok by (auto simp: running_def engine_ok_def)
  then have "0 < ring_capacity (en_ring e)"
    using ring_inv_facts(3) [OF inv] geom_pos [OF ring_inv_facts(1) [OF inv]] by linarith
  then have "0 < ?N" using f(4) by (cases "N = 0") auto
  moreover have "demo_ok ?N e'"
    using assms(1) f(1-3) by (cases out) (auto simp: demo_ok_def no_loss_def)
  moreover have "tally_ok (Suc k) ?N t'"
    using assms(2,4) s by (cases out) (auto simp: tally_ok_def demo_submit_def Let_def Suc_diff_le)
  ultimately show ?thesis by blast
qed

lemma demo_ok_burst:
  "demo_ok N e \<Longrightarrow> tally_ok k N t \<Longrightarrow> k + length is < 2 ^ 63 \<Longrightarrow>
    \<exists>t' e' N'. demo_burst mock_persist_batch idle base is t e = Some (t', e') \<and> demo_ok N' e'
      \<and> tally_ok (k + length is) N' t' \<and> (0 < N \<or> is \<noteq> [] \<longrightarrow> 0 < N')"
proof (induction "is" arbitrary: k N t e)
  case (Cons i "is")
  have "N < 2 ^ 64" using Cons.prems(2,3) by (simp add: tally_ok_def)
  then obtain e1 where e1: "worker_rounds mock_persist_batch (idle i) e = Some e1" "demo_ok N e1"
    using demo_ok_rounds [OF Cons.prems(1)] by blast
  obtain t2 e2 where s: "demo_submit base (word_of_nat i) t e1 = (t2, e2)" by fastforce
  have "k < 2 ^ 63" using Cons.prems(3) by simp
  then obtain N2 where 2: "demo_ok N2 e2" "tally_ok (Suc k) N2 t2" "0 < N2"
    using demo_ok_submit [OF e1(2) Cons.prems(2) _ s] by blast
  have "Suc k + length is < 2 ^ 63" using Cons.prems(3) by simp
  from Cons.IH [OF 2(1,2) this] show ?case using e1(1) s 2(3) by auto
qed auto

lemma demo_ok_ticks:
  "demo_ok N e \<Longrightarrow> tally_ok k N t \<Longrightarrow> k + length ticks * PLAYERS_PER_TICK < 2 ^ 63 \<Longrightarrow>
    \<forall>tick \<in> set ticks. took tick < MAX_TICK \<Longrightarrow>
    \<exists>t' e' N'. demo_ticks mock_persist_batch idle took ticks t e = Some (Inr (t', e')) \<and> demo_ok N' e'
      \<and> tally_ok (k + length ticks * PLAYERS_PER_TICK) N' t' \<and> (0 < N \<or> ticks \<noteq> [] \<longrightarrow> 0 < N')"
proof (induction ticks arbitrary: k N t e)
  case (Cons tick ticks)
  let ?base = "(word_of_nat tick * WINDOW_STRIDE) mod ID_SPACE"
  have len: "length [0..<PLAYERS_PER_TICK] = PLAYERS_PER_TICK" "[0..<PLAYERS_PER_TICK] \<noteq> []"
    by (simp_all add: PLAYERS_PER_TICK_def)
  have "k + PLAYERS_PER_TICK < 2 ^ 63" using Cons.prems(3) by simp
  then obtain t1 e1 N1 where 1: "demo_burst mock_persist_batch (idle tick) ?base [0..<PLAYERS_PER_TICK] t e = Some (t1, e1)"
    "demo_ok N1 e1" "tally_ok (k + PLAYERS_PER_TICK) N1 t1" "0 < N1"
    using demo_ok_burst [OF Cons.prems(1,2), of "[0..<PLAYERS_PER_TICK]"] len by metis
  have "k + PLAYERS_PER_TICK + length ticks * PLAYERS_PER_TICK < 2 ^ 63" using Cons.prems(3) by simp
  from Cons.IH [OF 1(2,3) this] obtain t' e' N' where
    "demo_ticks mock_persist_batch idle took ticks t1 e1 = Some (Inr (t', e'))" "demo_ok N' e'" "0 < N'"
    "tally_ok (k + PLAYERS_PER_TICK + length ticks * PLAYERS_PER_TICK) N' t'" using 1(4) Cons.prems(4) by auto
  then show ?case using 1(1) Cons.prems(4) by (auto simp: Let_def add.assoc)
qed auto

section \<open>The gates hold\<close>

lemma card_ids: "S \<subseteq> {..<ID_SPACE} \<Longrightarrow> card S \<le> 50000"
proof -
  assume S: "S \<subseteq> {..<ID_SPACE}"
  have "card S \<le> card {..<50000 :: nat}"
  proof (rule card_inj_on_le)
    show "inj_on unat S" by (auto simp: inj_on_def word_unat_eq_iff)
    show "unat ` S \<subseteq> {..<50000}" using S by (auto simp: ID_SPACE_def word_less_nat_alt)
  qed simp
  then show ?thesis by simp
qed

lemma demo_gates_pass:
  assumes m: "metered {..<ID_SPACE} N mock_load e" and "\<exists>st. accounted mock_load e st"
    and "queued e = []" and "dirty_set e = {}"
  shows "demo_gates t (snapshot (en_metrics e)) (mock_count (en_store e)) = Passed t (mock_count (en_store e))
    \<and> 0 < mock_count (en_store e) \<and> mock_count (en_store e) \<le> 50000"
proof -
  note p = metered_parts [OF m]
  have c: "mock_count (en_store e) = card (dom (mock_load (en_store e)))" by (simp add: mock_count_def mock_load_def)
  obtain st where "accounted mock_load e st" using assms(2) by blast
  then have "covers (mock_load (en_store e)) st" using assms(3,4) by (simp add: accounted_def held_def kept_def)
  then have "dom (mock_load (en_store e)) \<noteq> {}" by (auto simp: covers_def)
  then have pos: "0 < mock_count (en_store e)" using p(2) by (simp add: c card_gt_0_iff)
  have le: "mock_count (en_store e) \<le> 50000" using card_ids [OF p(7)] by (simp add: c)
  then have "unat (word_of_nat (mock_count (en_store e)) :: u64) = mock_count (en_store e)"
    by (simp add: unat_word_of_nat_u64)
  then show ?thesis
    using pos le p(3,4) by (simp add: demo_gates_def snapshot_def ID_SPACE_def word_le_nat_alt c)
qed


section \<open>From a fresh directory\<close>

lemma start_fresh:
  "\<exists>e w. start (demo_config dir) (set_latency 50000 mock_new) order clock (empty_dir []) = (Inr e, w) \<and> demo_ok 0 e"
proof -
  let ?c = "demo_config dir" and ?db = "set_latency 50000 mock_new"
  have c: "validate ?c = Inr ()" "cfg_ring_capacity ?c = 16384"
    by (simp_all add: validate_ok demo_config_def with_wal_dir_def default_config_def)
  obtain e w where e: "start ?c ?db order clock (empty_dir []) = (Inr e, w)" "works (en_wal e)"
    using start_empty_works [OF c(1), of ?db order clock] by (elim exE conjE)
  note eq = start_empty(1) [OF e(1)]
  have p: "pipeline_ok mock_load e" "queued e = []"
    using start_pipeline_ok [OF e(1)] by (simp_all add: c(2))
  have "ready mock_up e"
    using p(1) e(2) unwrapped_new [of 16384]
    by (simp add: ready_def all_well_def pipeline_ok_def)
       (simp add: eq c(2) mock_up_def set_latency_def mock_new_def)
  moreover have "metered {..<ID_SPACE} 0 mock_load e"
    using p(2) by (intro meteredI) (simp_all add: eq metrics_new_def cache_new_def dirty_len_def
      mock_load_def set_latency_def mock_new_def)
  moreover have "rb_enq (en_ring e) = 0" by (simp add: eq ring_new_def Let_def)
  ultimately show ?thesis using e p(1) by (auto simp: demo_ok_def running_def)
qed

text \<open>
  C23: The demo passes. Started on a fresh directory whose disk does not fail, with every tick
  within its budget, and with whole iterations of the worker between the main thread's calls,
  none of them overlapping a call or the reading of the metrics, it ends in success however many
  iterations there are, whatever the clock shows and in whatever order batches are taken: all
  600000 writes are counted as enqueued or dropped, \<open>flush_now\<close> and
  \<open>shutdown\<close> succeed, and the store holds at least one and at most 50000 players,
  no more than the records counted as flushed, without a store error.
\<close>

theorem demo_passes:
  assumes "\<forall>tick < TICKS. took tick < MAX_TICK"
  shows "\<exists>t count. demo_main dir order clock idle took rest stopping (empty_dir []) = Some (Passed t count)
    \<and> 0 < count \<and> count \<le> 50000 \<and> total_submitted t = 600000
    \<and> total_enqueued t + total_dropped t = 600000 \<and> 0 < total_enqueued t"
proof -
  obtain e w where e: "start (demo_config dir) (set_latency 50000 mock_new) order clock (empty_dir []) = (Inr e, w)"
    "demo_ok 0 e" using start_fresh by blast
  let ?t = "\<lparr>total_submitted = 0, total_enqueued = 0, total_dropped = 0, version_counter = 1\<rparr>"
  have "tally_ok 0 0 ?t" by (simp add: tally_ok_def)
  from demo_ok_ticks [OF e(2) this, of "[0..<TICKS]" took idle] assms
  obtain t e1 N where t: "demo_ticks mock_persist_batch idle took [0..<TICKS] ?t e = Some (Inr (t, e1))"
    "demo_ok N e1" "tally_ok 600000 N t" "0 < N" by (auto simp: TICKS_def PLAYERS_PER_TICK_def)
  have N: "N \<le> 600000" using t(3) by (simp add: tally_ok_def)
  then have N64: "N < 2 ^ 64" by simp
  obtain e2 where e2: "worker_rounds mock_persist_batch rest e1 = Some e2" "demo_ok N e2"
    using demo_ok_rounds [OF t(2) N64] by blast
  then have d: "running mock_up mock_load {..<ID_SPACE} N e2" "\<exists>st. accounted mock_load e2 st"
    using t(4) by (auto simp: demo_ok_def)
  obtain n e3 where f: "flush_now mock_persist_batch e2 = Some (Inr n, e3)" and up: "ready mock_up e3"
    and m: "metered {..<ID_SPACE} N mock_load e3" and p: "no_loss mock_load e2 e3" "queued e3 = []" "dirty_set e3 = {}"
    by (rule running_flush_now [OF mock.store_trait_axioms mock_always_up N64 d(1)])
  obtain e4 where s: "shutdown mock_persist_batch stopping e3 = Some (Inr (), e4)"
    using shutdown_returns [OF mock_always_up up] by blast
  have g: "demo_gates t (snapshot (en_metrics e3)) (mock_count (en_store e3)) = Passed t (mock_count (en_store e3))
      \<and> 0 < mock_count (en_store e3) \<and> mock_count (en_store e3) \<le> 50000"
    using d(2) p by (intro demo_gates_pass [OF m _ p(2,3)]) (auto simp: no_loss_def)
  have "unat (total_enqueued t) = N" using t(3) N by (simp add: tally_ok_def unat_word_of_nat_u64)
  then have "0 < total_enqueued t" using t(4) by (simp add: word_less_nat_alt)
  moreover have "total_enqueued t + total_dropped t = (600000 :: u64)"
    using t(3) N by (simp add: tally_ok_def of_nat_diff)
  ultimately show ?thesis
    using e(1) t(1,3) e2(1) f s g by (simp add: demo_main_def demo_def Let_def tally_ok_def)
qed

theorem demo_passes_witness:
  "\<exists>t count. demo_main ''flux_demo'' (\<lambda>_. ascending) [] (\<lambda>tick i. if i = 7 then [True] else []) (\<lambda>tick. 1000) [] [False]
      (empty_dir []) = Some (Passed t count) \<and> 0 < count \<and> total_submitted t = 600000"
  using demo_passes [of "\<lambda>tick. 1000" "''flux_demo''" "\<lambda>_. ascending" "[]" "\<lambda>tick i. if i = 7 then [True] else []"
      "[]" "[False]"]
  by (auto simp: MAX_TICK_def)

end
