(* ===== verification/Burst.thy ===== *)
theory Burst
  imports Crew_Disk Meter
begin

text \<open>
  The run that both example programs make: a burst of versioned writes through \<open>submit\<close>, then
  \<open>flush_now\<close> and \<open>shutdown\<close>.  \<open>idle version player\<close> lists the worker's iterations before a write,
  \<open>rest\<close> those before \<open>flush_now\<close> and \<open>stopping\<close> those after it.  While the ring has room for the
  burst, every write arrives in the store, and the store is only ever given writes of the burst.
\<close>

section \<open>The loops\<close>

definition example_config :: "string \<Rightarrow> flux_config" where
  "example_config dir = with_wal_dir dir
     (default_config\<lparr>cfg_ring_capacity := 2 ^ 14, cfg_flush_max_batch := 1024, cfg_wal_fsync := True\<rparr>)"

text \<open>Versions \<open>1..=updates\<close> outside, players \<open>0..players\<close> inside.\<close>

definition example_writes :: "nat \<Rightarrow> nat \<Rightarrow> (u64 \<times> u64) list" where
  "example_writes players updates = concat (map (\<lambda>version. map (\<lambda>player_id. (word_of_nat version, word_of_nat player_id))
     [0..<players]) [1..<Suc updates])"

fun example_submits :: "'d persist \<Rightarrow> (u64 \<Rightarrow> u64 \<Rightarrow> bool list) \<Rightarrow> (u64 \<times> u64) list \<Rightarrow> u64 \<Rightarrow> u64 \<Rightarrow> 'd engine \<Rightarrow>
    (u64 \<times> u64 \<times> 'd engine) option" where
  "example_submits p idle [] submitted dropped e = Some (submitted, dropped, e)"
| "example_submits p idle ((version, player_id) # ws) submitted dropped e =
     Option.bind (worker_rounds p (idle version player_id) e) (\<lambda>e1.
       let blob = u64_to_le_bytes version;
           (out, e2) = submit player_id version blob e1;
           dropped' = (case out of Enqueued \<Rightarrow> dropped | Dropped \<Rightarrow> dropped + 1)
       in example_submits p idle ws (submitted + 1) dropped' e2)"

section \<open>The writes\<close>

abbreviation below :: "nat \<Rightarrow> player_id set" where
  "below n \<equiv> {..<word_of_nat n}"

definition write_of :: "u64 \<times> u64 \<Rightarrow> player_state" where
  "write_of w = \<lparr>ps_id = snd w, ps_version = fst w, ps_blob = u64_to_le_bytes (fst w)\<rparr>"

definition written :: "nat \<Rightarrow> nat \<Rightarrow> player_state \<Rightarrow> bool" where
  "written players updates st \<longleftrightarrow> ps_id st \<in> below players \<and> ps_version st \<le> word_of_nat updates
     \<and> ps_blob st = u64_to_le_bytes (ps_version st)"

lemma in_below: "n < 2 ^ 64 \<Longrightarrow> m < n \<Longrightarrow> word_of_nat m \<in> below n"
  by (simp add: word_less_nat_alt unat_word_of_nat_u64)

lemma example_writes_set:
  "set (example_writes n k) = (\<lambda>(v, i). (word_of_nat v, word_of_nat i)) ` ({1..<Suc k} \<times> {0..<n})"
  unfolding example_writes_def by force

lemma example_writes_written:
  assumes "n < 2 ^ 64" and "k < 2 ^ 64"
  shows "\<forall>w \<in> set (example_writes n k). written n k (write_of w)"
proof -
  have "(word_of_nat v :: u64) \<le> word_of_nat k" if "v \<le> k" for v
    using that assms(2) by (simp add: word_le_nat_alt unat_word_of_nat_u64)
  then show ?thesis using in_below [OF assms(1)] by (auto simp: example_writes_set written_def write_of_def)
qed

lemma length_example_writes: "length (example_writes n k) = k * n"
  by (simp add: example_writes_def length_concat o_def sum_list_triv del: upt_Suc upt_rec_numeral)

text \<open>The last pass writes every player.\<close>

definition last_write :: "nat \<Rightarrow> player_id \<Rightarrow> player_state" where
  "last_write k i = write_of (word_of_nat k, i)"

lemma last_pass:
  assumes "n < 2 ^ 64" and "0 < k" and "i \<in> below n"
  shows "(word_of_nat k, i) \<in> set (example_writes n k)"
  unfolding example_writes_set
  by (rule image_eqI [where x = "(k, unat i)"])
    (use assms in \<open>simp_all add: word_less_nat_alt unat_word_of_nat_u64\<close>)

text \<open>What is covered by a table of such writes is there exactly.\<close>

lemma last_write_found:
  assumes "keyed m" and "\<forall>j st. m j = Some st \<longrightarrow> written n k st" and "covers m (last_write k i)"
  shows "m i = Some (last_write k i)"
proof -
  obtain s where s: "m i = Some s" "word_of_nat k \<le> ps_version s"
    using assms(3) by (auto simp: covers_def last_write_def write_of_def)
  have "ps_id s = i" "written n k s" using assms(1,2) s(1) by (auto simp: keyed_def)
  then show ?thesis using s by (auto simp: written_def last_write_def write_of_def intro!: player_state.equality)
qed

section \<open>Only the burst is written\<close>

text \<open>The sequential run is a run of \<open>Crew\<close> in which only writes of the burst are drawn.\<close>

definition honest :: "'d persist \<Rightarrow> (player_state \<Rightarrow> bool) \<Rightarrow> 'd engine \<Rightarrow> 'd engine \<Rightarrow> bool" where
  "honest p W e0 e \<longleftrightarrow> (\<exists>c. crew_reachable p e0 c \<and> cr_engine c = e \<and> (\<forall>t. cr_hands c t = Idle)
     \<and> (\<forall>r \<in> set (cr_drawn c). W (to_state r)))"

lemma honest_start: "honest p W e e"
  unfolding honest_def
  by (rule exI [of _ "crew_start e"]) (simp add: crew_reachable.start, simp add: crew_start_def)

lemma honest_alone:
  assumes "honest p W e0 e" and a: "\<And>c. alone p 0 c e e'"
  shows "honest p W e0 e'"
proof -
  obtain c where c: "crew_reachable p e0 c" "cr_engine c = e" "\<forall>t. cr_hands c t = Idle"
    "\<forall>r \<in> set (cr_drawn c). W (to_state r)" using assms(1) by (auto simp: honest_def)
  have "with_hand 0 Idle e c = c" "with_hand 0 Idle e' c = c\<lparr>cr_engine := e'\<rparr>"
    using c(2,3) by (auto simp: with_hand_same)
  then have "crew_run p c (c\<lparr>cr_engine := e'\<rparr>)" using a [of c] by (simp add: alone_def)
  then have "crew_reachable p e0 (c\<lparr>cr_engine := e'\<rparr>)" by (rule crew_run_reachable [OF _ c(1)])
  then show ?thesis using c(3,4) by (auto simp: honest_def intro!: exI [of _ "c\<lparr>cr_engine := e'\<rparr>"])
qed

lemma honest_submit:
  assumes "honest p W e0 e" and s: "submit i v b e = (out, e')" and v: "W \<lparr>ps_id = i, ps_version = v, ps_blob = b\<rparr>"
  shows "honest p W e0 e'"
proof -
  obtain c where c: "crew_reachable p e0 c" "cr_engine c = e" "\<forall>t. cr_hands c t = Idle"
    "\<forall>r \<in> set (cr_drawn c). W (to_state r)" using assms(1) by (auto simp: honest_def)
  have "cr_hands c 0 = Idle" using c(3) by blast
  from run_submit [OF this s [folded c(2)], of p]
  obtain c' where c': "crew_run p c c'" "cr_engine c' = e'" "cr_hands c' = cr_hands c"
    "cr_drawn c' = the_request i v b (cr_engine c) # cr_drawn c" by simp
  have "crew_reachable p e0 c'" by (rule crew_run_reachable [OF c'(1) c(1)])
  moreover have "\<forall>r \<in> set (cr_drawn c'). W (to_state r)" using c(4) c'(4) v by (simp add: the_request_def to_state_def)
  ultimately show ?thesis using c(3) c'(2,3) by (auto simp: honest_def)
qed

lemma honest_rounds:
  "honest p W e0 e \<Longrightarrow> engine_ok e \<Longrightarrow> worker_rounds p bs e = Some e' \<Longrightarrow> honest p W e0 e'"
proof (induction bs arbitrary: e)
  case (Cons b bs)
  obtain e1 where e1: "worker_step p b e = Some e1" "worker_rounds p bs e1 = Some e'"
    using Cons.prems(3) by (auto simp: bind_eq_Some_conv)
  have a: "alone p 0 c e e1" "engine_ok e1" for c
    using alone_worker_step [OF Cons.prems(2) e1(1)] by auto
  show ?case by (rule Cons.IH [OF honest_alone [OF Cons.prems(1) a(1)] a(2) e1(2)])
qed simp

lemma honest_store:
  assumes "honest p W e0 e" and "store_trait p load" and "pipeline_ok load e0" and "queued e0 = []"
    and "en_cache e0 = cache_new" and "F (en_store e0)"
    and calls: "\<And>b d r d'. F d \<Longrightarrow> \<forall>s \<in> set b. W s \<Longrightarrow> p b d = (r, d') \<Longrightarrow> F d'"
  shows "F (en_store e)"
proof -
  obtain c where c: "crew_reachable p e0 c" "cr_engine c = e"
    "\<forall>r \<in> set (cr_drawn c). W (to_state r)" using assms(1) by (auto simp: honest_def)
  have ev: "everywhere W (crew_start e0)" using assms(4,5) by (simp add: everywhere_def crew_start_def)
  have "F (en_store (cr_engine c)) \<and> everywhere W c"
    by (rule reachable_store [where I = F and P = W, OF assms(2,3) ev assms(6) _ c(1,3)]) (rule calls)
  then show ?thesis using c(2) by blast
qed

section \<open>The burst arrives\<close>

lemma example_start:
  assumes "up store" and "load store = Map.empty"
  obtains e w where "start (example_config dir) store order clock (empty_dir []) = (Inr e, w)"
    and "running up load I 0 e" and "ring_capacity (en_ring e) = 16384"
    and "queued e = []" and "en_cache e = cache_new" and "en_store e = store"
proof -
  let ?c = "example_config dir"
  have c: "validate ?c = Inr ()" "cfg_ring_capacity ?c = 16384"
    by (simp_all add: validate_ok example_config_def with_wal_dir_def default_config_def)
  obtain e w where e: "start ?c store order clock (empty_dir []) = (Inr e, w)" "works (en_wal e)"
    using start_empty_works [OF c(1), of store order clock] by (elim exE conjE)
  note eq = start_empty(1) [OF e(1)]
  have p: "pipeline_ok load e" "queued e = []" using start_pipeline_ok [OF e(1)] by (simp_all add: c(2))
  have u: "unwrapped (ring_new 16384)" using unwrapped_new [of 16384] by simp
  have "ready up e"
    using assms(1) p(1) e(2) u by (simp add: ready_def all_well_def pipeline_ok_def) (simp add: eq c(2))
  moreover have "metered I 0 load e"
    using p(2) by (intro meteredI) (simp_all add: eq metrics_new_def cache_new_def dirty_len_def assms(2))
  moreover have "rb_enq (en_ring e) = 0" by (simp add: eq ring_new_def Let_def)
  ultimately have "running up load I 0 e" using p(1) by (simp add: running_def)
  moreover have "ring_capacity (en_ring e) = 16384"
    by (simp add: eq c(2) ring_capacity_def ring_new_def Let_def next_power_of_two_def pow2_from.simps)
  ultimately show thesis using that [OF e(1)] p(2) by (simp add: eq)
qed

text \<open>While the ring has room for all of them no write is shed, and all are accounted for.\<close>

lemma submits_run:
  assumes st: "store_trait p load" and up: "always_up p up"
  shows "running up load I N e \<Longrightarrow> honest p W e0 e \<Longrightarrow> N + length ws \<le> ring_capacity (en_ring e) \<Longrightarrow>
    N + length ws < 2 ^ 63 \<Longrightarrow> \<forall>w \<in> set ws. snd w \<in> I \<and> W (write_of w) \<Longrightarrow>
    \<exists>e'. example_submits p idle ws s d e = Some (s + word_of_nat (length ws), d, e')
      \<and> running up load I (N + length ws) e' \<and> honest p W e0 e' \<and> no_loss load e e'
      \<and> (\<forall>w \<in> set ws. accounted load e' (write_of w))"
proof (induction ws arbitrary: N s e)
  case (Cons w ws)
  obtain v i where w: "w = (v, i)" by fastforce
  have wr: "write_of w = \<lparr>ps_id = i, ps_version = v, ps_blob = u64_to_le_bytes v\<rparr>" by (simp add: w write_of_def)
  have vi: "i \<in> I" "W (write_of w)" using Cons.prems(5) by (simp_all add: w)
  have N: "N < 2 ^ 63" "N < 2 ^ 64" using Cons.prems(4) by simp_all
  obtain e1 where e1: "worker_rounds p (idle v i) e = Some e1" "running up load I N e1"
    "no_loss load e e1" "ring_capacity (en_ring e1) = ring_capacity (en_ring e)"
    using running_rounds [OF st up N(2) Cons.prems(1)] by blast
  have "engine_ok e" using Cons.prems(1) ready_ok by (auto simp: running_def)
  then have h1: "honest p W e0 e1" by (rule honest_rounds [OF Cons.prems(2) _ e1(1)])
  obtain out e2 where s: "submit i v (u64_to_le_bytes v) e1 = (out, e2)" by fastforce
  note f = running_submit [OF e1(2) N(1) vi(1) s]
  have out: "out = Enqueued" using f(4) Cons.prems(3) e1(4) by simp
  have "running up load I (Suc N) e2" "Suc N + length ws \<le> ring_capacity (en_ring e2)"
    "Suc N + length ws < 2 ^ 63" "\<forall>w \<in> set ws. snd w \<in> I \<and> W (write_of w)"
    using f(1,5) out e1(4) Cons.prems(3-5) by simp_all
  from Cons.IH [OF this(1) honest_submit [OF h1 s vi(2) [unfolded wr]] this(2-4)] obtain e' where
    r: "example_submits p idle ws (s + 1) d e2 = Some (s + 1 + word_of_nat (length ws), d, e')"
    "running up load I (Suc N + length ws) e'" "honest p W e0 e'" "no_loss load e2 e'"
    "\<forall>w \<in> set ws. accounted load e' (write_of w)" by blast
  have "accounted load e' (write_of w)" using r(4) f(3) [OF out] by (simp add: no_loss_def wr)
  moreover have "no_loss load e e'" by (rule no_loss_trans [OF no_loss_trans [OF e1(3) f(2)] r(4)])
  ultimately show ?case using e1(1) s out r(1-3,5) by (simp add: w Let_def add.assoc)
qed simp

text \<open>From the engine as started to the end of \<open>shutdown\<close>.\<close>

lemma burst_stored:
  assumes st: "store_trait p load" and up: "always_up p up" and e: "running up load I 0 e"
    "queued e = []" "en_cache e = cache_new"
    and len: "length ws \<le> ring_capacity (en_ring e)" "length ws < 2 ^ 63"
    and ws: "\<forall>w \<in> set ws. snd w \<in> I \<and> W (write_of w)" and F: "F (en_store e)"
    and calls: "\<And>b d r d'. F d \<Longrightarrow> \<forall>s \<in> set b. W s \<Longrightarrow> p b d = (r, d') \<Longrightarrow> F d'"
  obtains e1 e2 n e3 e4 where "example_submits p idle ws 0 0 e = Some (word_of_nat (length ws), 0, e1)"
    and "worker_rounds p rest e1 = Some e2" and "flush_now p e2 = Some (Inr n, e3)"
    and "shutdown p stopping e3 = Some (Inr (), e4)" and "F (en_store e4)"
    and "\<forall>w \<in> set ws. covers (load (en_store e4)) (write_of w)"
proof -
  have N: "length ws < 2 ^ 64" using len(2) by simp
  obtain e1 where 1: "example_submits p idle ws 0 0 e = Some (word_of_nat (length ws), 0, e1)" "running up load I (length ws) e1"
    "honest p W e e1" "\<forall>w \<in> set ws. accounted load e1 (write_of w)"
    using submits_run [OF st up e(1) honest_start [of p W e] _ _ ws, of idle 0 0] len by auto
  obtain e2 where 2: "worker_rounds p rest e1 = Some e2" "running up load I (length ws) e2" "no_loss load e1 e2"
    using running_rounds [OF st up _ 1(2), of rest] len(2) by auto
  have ok: "engine_ok e1" "engine_ok e2" using 1(2) 2(2) ready_ok by (auto simp: running_def)
  have h2: "honest p W e e2" by (rule honest_rounds [OF 1(3) ok(1) 2(1)])
  obtain n e3 where 3: "flush_now p e2 = Some (Inr n, e3)" "ready up e3" "pipeline_ok load e3"
    "no_loss load e2 e3" "queued e3 = []" "dirty_set e3 = {}"
    using running_flush_now [OF st up _ 2(2)] N by metis
  have h3: "honest p W e e3" by (rule honest_alone [OF h2 alone_flush_now [OF ok(2) 3(1)]])
  obtain e4 where 4: "run p stopping e3 = Some e4" "queued e4 = []" "dirty_set e4 = {}" "ready up e4"
    using run_ready [OF up 3(2)] by blast
  obtain w4 where "wal_flush (en_wal e4) = (Inr (), w4)"
    using wal_flush_works 4(4) by (auto simp: ready_def all_well_def)
  then have sd: "shutdown p stopping e3 = Some (Inr (), e4\<lparr>en_wal := w4\<rparr>)" using 4(1) by (simp add: shutdown_def)
  have h4: "honest p W e e4" by (rule honest_alone [OF h3 alone_worker [OF ready_ok [OF 3(2)] 4(1)]])
  have "pipeline_ok load e" using e(1) by (simp add: running_def)
  from honest_store [where F = F, OF h4 st this e(2,3) F calls] have "F (en_store e4)" .
  moreover have "no_loss load e1 e4"
    using no_loss_trans [OF no_loss_trans [OF 2(3) 3(4)]] store_trait.run_no_loss [OF st 3(3) 4(1)] by blast
  then have "\<forall>w \<in> set ws. covers (load (en_store e4)) (write_of w)"
    using 1(4) 4(2,3) by (auto simp: no_loss_def accounted_def held_def kept_def)
  ultimately show thesis using that [OF 1(1) 2(1) 3(1) sd] by simp
qed

end
