(* ===== verification/Disk_Example.thy ===== *)
theory Disk_Example
  imports Burst
begin

text \<open>
  \<open>main\<close> of \<open>examples/disk_kv_store.rs\<close>: a burst of writes through the engine into the disk store,
  a clean shutdown, and the checks on the store opened again from its file.  Paths, printing and
  the removal of the directory are left out.
\<close>

section \<open>The run\<close>

definition PLAYERS :: nat where "PLAYERS = 1000"
definition UPDATES_PER_PLAYER :: nat where "UPDATES_PER_PLAYER = 4"

datatype example_exit =
    Store_Not_Opened io_error
  | Engine_Not_Started io_error
  | Flush_Refused flux_error
  | Shutdown_Refused flux_error
  | Not_Reopened io_error
  | Player_Missing u64
  | Version_Differs u64
  | Blob_Differs u64
  | Id_Differs u64
  | Count_Differs
  | Not_Reopened_Again io_error
  | Count_Changed
  | Reopen_Disagrees
  | Verified u64

fun check_players :: "(player_id \<Rightarrow> player_state option) \<Rightarrow> nat list \<Rightarrow> u64 \<Rightarrow> example_exit + u64" where
  "check_players load [] checked = Inr checked"
| "check_players load (p # ps) checked =
     (let player_id = word_of_nat p in
      case load player_id of
        None \<Rightarrow> Inl (Player_Missing player_id)
      | Some got \<Rightarrow>
          if ps_version got \<noteq> word_of_nat UPDATES_PER_PLAYER then Inl (Version_Differs player_id)
          else if ps_blob got \<noteq> u64_to_le_bytes (word_of_nat UPDATES_PER_PLAYER) then Inl (Blob_Differs player_id)
          else if ps_id got \<noteq> player_id then Inl (Id_Differs player_id)
          else check_players load ps (checked + 1))"

text \<open>Dropping a store drops its \<open>BufWriter\<close>, which writes out what it still holds.\<close>

definition dropped_store :: "kv \<Rightarrow> wal" where
  "dropped_store kv = snd (bw_flush (kv_disk kv))"

definition example_verify :: "kv \<Rightarrow> example_exit" where
  "example_verify kv =
     (case kv_open (dropped_store kv) of
        Inl (err, w) \<Rightarrow> Not_Reopened err
      | Inr reopened \<Rightarrow>
          (let count = kv_count reopened in
           case check_players (kv_load reopened) [0..<PLAYERS] 0 of
             Inl ex \<Rightarrow> ex
           | Inr checked \<Rightarrow>
               if word_of_nat count \<noteq> (word_of_nat PLAYERS :: u64) then Count_Differs
               else (case kv_open (kv_disk reopened) of
                       Inl (err, w) \<Rightarrow> Not_Reopened_Again err
                     | Inr reopened_again \<Rightarrow>
                         if kv_count reopened_again \<noteq> count then Count_Changed
                         else if map_option ps_version (kv_load reopened_again 0) \<noteq> Some (word_of_nat UPDATES_PER_PLAYER)
                         then Reopen_Disagrees
                         else Verified checked)))"

definition example_main :: "string \<Rightarrow> (nat \<Rightarrow> hash_order) \<Rightarrow> u64 list \<Rightarrow> (u64 \<Rightarrow> u64 \<Rightarrow> bool list) \<Rightarrow> bool list \<Rightarrow> bool list \<Rightarrow>
    wal \<Rightarrow> wal \<Rightarrow> example_exit option" where
  "example_main wal_dir order clock idle rest stopping wal_disk data_disk =
     (case kv_open data_disk of
        Inl (err, w) \<Rightarrow> Some (Store_Not_Opened err)
      | Inr store \<Rightarrow>
          (case start (example_config wal_dir) store order clock wal_disk of
             (Inl err, w) \<Rightarrow> Some (Engine_Not_Started err)
           | (Inr e, w) \<Rightarrow>
               Option.bind (example_submits kv_persist_batch idle (example_writes PLAYERS UPDATES_PER_PLAYER) 0 0 e) (\<lambda>(submitted, dropped, e1).
               Option.bind (worker_rounds kv_persist_batch rest e1) (\<lambda>e2.
               Option.bind (flush_now kv_persist_batch e2) (\<lambda>x. case x of
                   (Inl err, e3) \<Rightarrow> Some (Flush_Refused err)
                 | (Inr flushed, e3) \<Rightarrow>
                     map_option (\<lambda>y. case y of
                         (Inl err, e4) \<Rightarrow> Shutdown_Refused err
                       | (Inr u, e4) \<Rightarrow> example_verify (en_store e4))
                       (shutdown kv_persist_batch stopping e3))))))"


section \<open>What the store is given\<close>

abbreviation kv_quiet :: "kv \<Rightarrow> bool" where
  "kv_quiet kv \<equiv> fs_events (kv_disk kv) = []"

definition filled :: "kv \<Rightarrow> bool" where
  "filled kv \<longleftrightarrow> kv_quiet kv \<and> keyed (kv_load kv)
     \<and> (\<forall>i st. kv_load kv i = Some st \<longrightarrow> written PLAYERS UPDATES_PER_PLAYER st) \<and> (\<exists>sts. kv_exact sts kv)"

lemma filled_persist:
  assumes f: "filled d" and b: "\<forall>s \<in> set b. written PLAYERS UPDATES_PER_PLAYER s" and p: "kv_persist_batch b d = (r, d')"
  shows "filled d'"
proof -
  have d: "kv_quiet d" "keyed (kv_load d)"
    "\<And>i st. kv_load d i = Some st \<Longrightarrow> written PLAYERS UPDATES_PER_PLAYER st" using f by (auto simp: filled_def)
  obtain sts where sts: "kv_exact sts d" using f by (auto simp: filled_def)
  have r: "r = Inr ()" "kv_quiet d'" using kv_persist_quiet [OF d(1), of b] p by auto
  have l: "kv_load d' = lww_all b (kv_load d)" using diskkv.persist_ok p r(1) by blast
  have "written PLAYERS UPDATES_PER_PLAYER st" if "kv_load d' i = Some st" for i st
    using lww_all_origin [of b "kv_load d" i st] that b d(3) by (auto simp: l)
  moreover have "list_all kv_fits b" using b by (auto simp: list_all_iff written_def kv_fits_def kv_layout)
  then have "\<exists>sts. kv_exact sts d'" using kv_exact_persist [OF sts] p r(1) by blast
  ultimately show ?thesis using r(2) d(2) by (auto simp: filled_def l)
qed

lemma filled_ids:
  assumes "filled kv" shows "dom (kv_load kv) \<subseteq> below PLAYERS"
proof
  fix i assume "i \<in> dom (kv_load kv)"
  then obtain st where "kv_load kv i = Some st" by blast
  then have "ps_id st = i" "ps_id st \<in> below PLAYERS" using assms by (auto simp: filled_def written_def keyed_def)
  then show "i \<in> below PLAYERS" by simp
qed

section \<open>The checks\<close>

lemma check_players_pass:
  "\<forall>p \<in> set ps. load (word_of_nat p) = Some \<lparr>ps_id = word_of_nat p, ps_version = word_of_nat UPDATES_PER_PLAYER,
      ps_blob = u64_to_le_bytes (word_of_nat UPDATES_PER_PLAYER)\<rparr> \<Longrightarrow>
    check_players load ps k = Inr (k + word_of_nat (length ps))"
  by (induction ps arbitrary: k) (simp_all add: Let_def add.assoc)

lemma card_players: "card (below PLAYERS) = PLAYERS"
proof -
  have "unat ` below PLAYERS = {..<PLAYERS}"
  proof
    show "unat ` below PLAYERS \<subseteq> {..<PLAYERS}" by (auto simp: word_less_nat_alt unat_word_of_nat_u64 PLAYERS_def)
    show "{..<PLAYERS} \<subseteq> unat ` below PLAYERS"
    proof
      fix n assume "n \<in> {..<PLAYERS}"
      then have "word_of_nat n \<in> below PLAYERS" "n = unat (word_of_nat n :: u64)"
        by (simp_all add: word_less_nat_alt unat_word_of_nat_u64 PLAYERS_def)
      then show "n \<in> unat ` below PLAYERS" by blast
    qed
  qed
  moreover have "inj_on unat (below PLAYERS)" by (auto simp: inj_on_def word_unat_eq_iff)
  ultimately show ?thesis using card_image by fastforce
qed

lemma bw_flush_nothing: "wr_buf w = [] \<Longrightarrow> snd (bw_flush w) = w"
  by (cases w) (simp add: bw_flush_def file_write_all.simps [of _ _ "[]"])

lemma reopen_exact:
  assumes "kv_holds sts (length sts) kv" and "kv_index kv = lww_all sts Map.empty" and "fs_events (kv_disk kv) = []"
  obtains kv' where "kv_open (kv_disk kv) = Inr kv'" and "fs_events (kv_disk kv') = []"
    and "kv_index kv' = kv_index kv" and "kv_holds sts (length sts) kv'"
proof -
  obtain kv' where o: "kv_open (kv_disk kv) = Inr kv'" "fs_events (kv_disk kv') = []"
    using kv_open_quiet [OF assms(3)] by blast
  have "killed [] kv = kv_disk kv" using assms(3) by (simp add: killed_def)
  then have k: "kv_open (killed [] kv) = Inr kv'" using o(1) by simp
  show thesis using that [OF o] kv_reopen_holds [OF assms(1) k] assms(2) by auto
qed

text \<open>A store that holds the last write of every player, and nothing else, passes every check.\<close>

lemma example_verify_passes:
  assumes f: "filled kv" and all: "\<And>i. i \<in> below PLAYERS \<Longrightarrow> kv_load kv i = Some (last_write UPDATES_PER_PLAYER i)"
    and "dom (kv_load kv) \<subseteq> below PLAYERS"
  shows "example_verify kv = Verified 1000"
proof -
  obtain sts where sts: "kv_holds sts (length sts) kv" "kv_index kv = lww_all sts Map.empty" "wr_buf (kv_disk kv) = []"
    using f by (auto simp: filled_def kv_exact_def)
  have ev: "fs_events (kv_disk kv) = []" using f by (simp add: filled_def)
  obtain kv1 where 1: "kv_open (kv_disk kv) = Inr kv1" "fs_events (kv_disk kv1) = []" "kv_index kv1 = kv_index kv"
    "kv_holds sts (length sts) kv1" by (rule reopen_exact [OF sts(1,2) ev])
  obtain kv2 where 2: "kv_open (kv_disk kv1) = Inr kv2" "kv_index kv2 = kv_index kv1"
    using reopen_exact [OF 1(4) _ 1(2)] 1(3) sts(2) by auto
  have "dom (kv_load kv) = below PLAYERS" using all assms(3) by blast
  then have count: "kv_count kv1 = PLAYERS" "kv_count kv2 = PLAYERS"
    using card_players by (simp_all add: kv_count_def kv_load_def 1(3) 2(2))
  have load: "kv_load kv1 = kv_load kv" "kv_load kv2 = kv_load kv" by (simp_all add: kv_load_def 1(3) 2(2))
  have inp: "word_of_nat p \<in> below PLAYERS" if "p < PLAYERS" for p
    using that by (simp add: word_less_nat_alt unat_word_of_nat_u64 PLAYERS_def)
  have "\<forall>p \<in> set [0..<PLAYERS]. kv_load kv1 (word_of_nat p) = Some (last_write UPDATES_PER_PLAYER (word_of_nat p))"
    using all inp by (simp add: load)
  then have check: "check_players (kv_load kv1) [0..<PLAYERS] 0 = Inr (word_of_nat PLAYERS)"
    using check_players_pass [of "[0..<PLAYERS]" "kv_load kv1" 0] by (simp add: last_write_def write_of_def)
  have "kv_load kv2 0 = Some (last_write UPDATES_PER_PLAYER 0)" using all [of 0] inp [of 0] by (simp add: load PLAYERS_def)
  then show ?thesis
    using 1(1) 2(1) count check sts(3)
    by (simp add: example_verify_def dropped_store_def bw_flush_nothing Let_def last_write_def write_of_def) (simp add: PLAYERS_def)
qed


section \<open>From the first submit to the second reopening\<close>


end
