(* ===== verification/Set_Store.thy ===== *)
theory Set_Store
  imports Redis_Store Meter
begin

text \<open>
  A store that sets without looking, under the engine.  The comment at the end of
  \<open>examples/redis_store.rs\<close> says that the server needs no comparison of versions as long as one
  engine writes, and gives the script that would compare.  For calls that run one after another
  this is a simulation: the store is never ahead of the cache, so no batch is older than what it
  replaces, and every call does with the plain store what it does with the comparing one.
  \<open>Redis_Race\<close> has the case of two flushers.
\<close>

section \<open>Ahead and behind\<close>

text \<open>The store holds nothing newer than the cache; a batch in flight is what the cache shows.\<close>

definition behind :: "('d \<Rightarrow> table) \<Rightarrow> 'd engine \<Rightarrow> bool" where
  "behind load e \<longleftrightarrow> keyed (load (en_store e))
     \<and> (\<forall>i st. load (en_store e) i = Some st \<longrightarrow> covers (live (en_cache e)) st)"

definition in_flight :: "player_state list \<Rightarrow> 'd engine \<Rightarrow> bool" where
  "in_flight sts e \<longleftrightarrow> distinct (map ps_id sts) \<and> (\<forall>st \<in> set sts. live (en_cache e) (ps_id st) = Some st)"

lemma behind_same:
  "behind load e \<Longrightarrow> en_store e' = en_store e \<Longrightarrow> live (en_cache e') = live (en_cache e) \<Longrightarrow> behind load e'"
  by (simp add: behind_def)

lemma behind_grows:
  "behind load e \<Longrightarrow> en_store e' = en_store e \<Longrightarrow> grows (live (en_cache e)) (live (en_cache e')) \<Longrightarrow> behind load e'"
  by (auto simp: behind_def grows_def)

lemma in_flight_newer: "behind load e \<Longrightarrow> in_flight sts e \<Longrightarrow> newer_batch sts (load (en_store e))"
  by (fastforce simp: behind_def in_flight_def newer_batch_def covers_def keyed_def)

lemma behind_stored:
  assumes b: "behind load e" and i: "in_flight sts e" and l: "load d = lww_all (take k sts) (load (en_store e))"
  shows "behind load (e\<lparr>en_store := d\<rparr>)"
proof -
  have "covers (live (en_cache e)) st" if "load d j = Some st" for j st
  proof -
    have "st \<in> set sts \<or> load (en_store e) j = Some st"
      using lww_all_version [of "take k sts" "load (en_store e)" j st] that l by (auto dest: in_set_takeD)
    then show ?thesis using b i by (auto simp: behind_def in_flight_def covers_def)
  qed
  then show ?thesis using b l by (auto simp: behind_def)
qed

lemma take_batch_in_flight:
  assumes "engine_ok e" and t: "take_batch e = (sts, e1)"
  shows "in_flight sts e1" and "behind load e \<Longrightarrow> behind load e1"
proof -
  obtain c where c: "take_dirty (en_order e (en_takes e)) (cfg_flush_max_batch (en_config e)) (en_cache e) = (sts, c)"
    "e1 = e\<lparr>en_cache := c, en_takes := Suc (en_takes e)\<rparr>"
    using t by (auto simp: take_batch_def split: prod.splits)
  have "cache_inv (en_cache e)" using assms(1) by (simp add: engine_ok_def)
  note s = take_dirty_spec [OF this c(1)]
  show "in_flight sts e1" using s(1,3,4) by (simp add: in_flight_def c(2))
  show "behind load e1" if "behind load e" by (rule behind_same [OF that]) (simp_all add: c(2) s(1))
qed

lemma behind_requeue: "behind load e \<Longrightarrow> behind load (e\<lparr>en_cache := requeue_dirty sts (en_cache e)\<rparr>)"
  by (erule behind_grows) (simp_all add: live_requeue)

lemma live_apply_all: "live (fold cache_apply rs c) = lww_all (map to_state rs) (live c)"
  by (induction rs arbitrary: c) (simp_all add: live_apply)

lemma behind_applied:
  "behind load e \<Longrightarrow> en_store e' = en_store e \<Longrightarrow> en_cache e' = fold cache_apply rs (en_cache e) \<Longrightarrow> behind load e'"
  by (erule behind_grows) (simp_all add: live_apply_all)

section \<open>Two stores that agree on newer batches\<close>

locale two_stores =
  fixes plain comparing :: "'d persist" and load :: "'d \<Rightarrow> table"
  assumes agree: "newer_batch sts (load d) \<Longrightarrow> plain sts d = comparing sts d"
    and stores_part: "newer_batch sts (load d) \<Longrightarrow> comparing sts d = (r, d') \<Longrightarrow>
      \<exists>k. load d' = lww_all (take k sts) (load d)"
begin

lemma persist_loop_agrees:
  "behind load e \<Longrightarrow> in_flight sts e \<Longrightarrow> persist_loop comparing sts a e = (r, e') \<Longrightarrow>
    persist_loop plain sts a e = (r, e') \<and> behind load e'"
proof (induction "limit_of e - a" arbitrary: a e rule: less_induct)
  case less
  note newer = in_flight_newer [OF less.prems(1,2)]
  obtain x d where x: "comparing sts (en_store e) = (x, d)" by fastforce
  have same: "plain sts (en_store e) = (x, d)" using agree [OF newer] x by simp
  have b: "behind load (e\<lparr>en_store := d\<rparr>)"
    using stores_part [OF newer x] behind_stored [OF less.prems(1,2)] by blast
  show ?case
  proof (cases "retry_again x \<and> Suc a < limit_of e")
    case True
    then obtain err where err: "x = Inl err" by (auto simp: retry_again_def)
    let ?e = "bump record_store_retry (e\<lparr>en_store := d\<rparr>)"
    have "behind load ?e" by (rule behind_same [OF b]) simp_all
    moreover have "in_flight sts ?e" using less.prems(2) by (simp add: in_flight_def)
    moreover have "persist_loop comparing sts (Suc a) ?e = (r, e')"
      using less.prems(3) True x by (simp add: persist_loop_eq [of comparing sts a] err)
    moreover have "limit_of ?e - Suc a < limit_of e - a" using True by (simp add: diff_less_mono2)
    ultimately show ?thesis
      using less.hyps [of ?e "Suc a"] True same by (simp add: persist_loop_eq [of plain sts a] err)
  next
    case False
    then show ?thesis
      using less.prems(3) x same b
      by (cases x) (auto simp: persist_loop_eq [of plain sts a] persist_loop_eq [of comparing sts a])
  qed
qed

lemma persist_agrees:
  assumes "behind load e" and "in_flight sts e" and "persist_with_retry comparing sts e = (r, e')"
  shows "persist_with_retry plain sts e = (r, e')" and "behind load e'"
  using persist_loop_agrees [OF assms(1,2) assms(3) [unfolded persist_with_retry_def]]
  by (simp_all add: persist_with_retry_def)

text \<open>The state in which a flush calls the store differs from its first one only elsewhere.\<close>

lemma logged_same:
  assumes "behind load e" and "in_flight sts e"
    and "elapsed (e\<lparr>en_lsn := s, en_wal := w\<rparr>) = (t, e0)"
  shows "behind load (bump f e0)" and "in_flight sts (bump f e0)"
proof -
  have "en_cache e0 = en_cache e" "en_store e0 = en_store e"
    using elapsed_frame [of "e\<lparr>en_lsn := s, en_wal := w\<rparr>"] by (simp_all add: assms(3))
  then show "behind load (bump f e0)" "in_flight sts (bump f e0)"
    using assms(1,2) by (simp_all add: behind_def in_flight_def)
qed

lemma behind_persisted:
  assumes "behind load e" and "in_flight sts e" and p: "persist_with_retry comparing sts a = (r, a')"
    and "en_store a = en_store e" and "en_config a = en_config e"
    and e': "en_store e' = en_store a'" and "grows (live (en_cache e)) (live (en_cache e'))"
  shows "behind load e'"
proof -
  obtain q e0 where q: "persist_with_retry comparing sts e = (q, e0)" by fastforce
  then obtain k where "e0 = bump (record_store_retry ^^ k) (e\<lparr>en_store := en_store e0\<rparr>)" by blast
  then have "en_cache e0 = en_cache (bump (record_store_retry ^^ k) (e\<lparr>en_store := en_store e0\<rparr>))" by metis
  then have "en_cache e0 = en_cache e" by simp
  moreover have "en_store e0 = en_store a'" using persist_same(2) [OF q p] assms(4,5) by simp
  ultimately show ?thesis
    using behind_grows [OF persist_agrees(2) [OF assms(1,2) q], of e'] e' assms(7) by simp
qed

lemma flush_batch_agrees:
  assumes "behind load e" and "in_flight sts e" and f: "flush_batch comparing sts e = (ok, e')"
  shows "flush_batch plain sts e = (ok, e')" and "behind load e'"
proof -
  obtain l s where al: "alloc_block (word_of_nat (length sts)) (en_lsn e) = (l, s)" by fastforce
  obtain x w where a: "append_batch (stamp l sts) (en_wal e) = (x, w)" by fastforce
  obtain t e0 where t: "elapsed (e\<lparr>en_lsn := s, en_wal := w\<rparr>) = (t, e0)" by fastforce
  obtain r e1 where r: "persist_with_retry comparing sts (bump (record_wal_append (length (stamp l sts)) t) e0) = (r, e1)"
    by fastforce
  note p = persist_agrees(1) [OF logged_same [OF assms(1,2) t] r]
  have "flush_batch plain sts e = flush_batch comparing sts e"
    by (cases x) (simp_all add: flush_batch_def al a t r p del: length_stamp)
  then show "flush_batch plain sts e = (ok, e')" using f by simp
  show "behind load e'" using f
  proof (cases rule: flush_batch_cases)
    case (log_failed err)
    then show ?thesis using behind_grows [OF assms(1)] by (simp add: live_requeue)
  next
    case (store_failed l a a')
    then show ?thesis by (intro behind_persisted [OF assms(1,2) store_failed(5)]) (simp_all add: live_requeue)
  next
    case (done_ l w a a')
    then show ?thesis by (intro behind_persisted [OF assms(1,2) done_(5)]) simp_all
  qed
qed

lemma flush_states_loop_agrees:
  "behind load e \<Longrightarrow> in_flight sts e \<Longrightarrow> flush_states_loop plain sts l a e = flush_states_loop comparing sts l a e"
proof (induction "limit_of e - a" arbitrary: a e rule: less_induct)
  case less
  note newer = in_flight_newer [OF less.prems]
  obtain x d where x: "comparing sts (en_store e) = (x, d)" by fastforce
  have same: "plain sts (en_store e) = (x, d)" using agree [OF newer] x by simp
  have b: "behind load (e\<lparr>en_store := d\<rparr>)" using stores_part [OF newer x] behind_stored [OF less.prems] by blast
  show ?case
  proof (cases "retry_again x \<and> Suc a < limit_of e")
    case True
    then obtain err where err: "x = Inl err" by (auto simp: retry_again_def)
    let ?e = "bump record_store_retry (e\<lparr>en_store := d\<rparr>)"
    have "behind load ?e" by (rule behind_same [OF b]) simp_all
    moreover have "in_flight sts ?e" using less.prems(2) by (simp add: in_flight_def)
    moreover have "limit_of ?e - Suc a < limit_of e - a" using True by (simp add: diff_less_mono2)
    ultimately show ?thesis
      using less.hyps [of ?e "Suc a"] True same x
      by (simp add: flush_states_loop_eq [of plain sts l a] flush_states_loop_eq [of comparing sts l a] err)
  next
    case False
    then show ?thesis using x same
      by (cases x) (auto simp: flush_states_loop_eq [of plain sts l a] flush_states_loop_eq [of comparing sts l a])
  qed
qed

lemma flush_states_agrees:
  assumes "behind load e" and "in_flight sts e" and f: "flush_states comparing sts e = (r, e')"
  shows "flush_states plain sts e = (r, e')" and "behind load e'"
proof -
  obtain l s where al: "alloc_block (word_of_nat (length sts)) (en_lsn e) = (l, s)" by fastforce
  obtain x w where a: "append_batch (stamp l sts) (en_wal e) = (x, w)" by fastforce
  obtain t e0 where t: "elapsed (e\<lparr>en_lsn := s, en_wal := w\<rparr>) = (t, e0)" by fastforce
  have "flush_states plain sts e = flush_states comparing sts e"
    using flush_states_loop_agrees [OF logged_same [OF assms(1,2) t]]
    by (cases x) (simp_all add: flush_states_def al a t del: length_stamp)
  then show "flush_states plain sts e = (r, e')" using f by simp
  show "behind load e'" using f
  proof (cases rule: flush_states_cases)
    case (log_failed err)
    then show ?thesis using behind_grows [OF assms(1)] by (simp add: live_requeue)
  next
    case (store_failed l err a a')
    then show ?thesis by (intro behind_persisted [OF assms(1,2) store_failed(5)]) (simp_all add: live_requeue)
  next
    case (done_ l w a a')
    then show ?thesis by (intro behind_persisted [OF assms(1,2) done_(5)]) simp_all
  qed
qed

section \<open>The loops\<close>

text \<open>One conclusion for every call: the plain store does the same, and stays behind.\<close>

abbreviation agreed :: "'d engine \<Rightarrow> bool" where
  "agreed e \<equiv> engine_ok e \<and> behind load e"

lemma flush_agrees:
  assumes "agreed e"
  shows "flush plain e = flush comparing e" and "flush comparing e = Some e' \<Longrightarrow> agreed e'"
proof -
  have "\<exists>e'. flush comparing e = Some e' \<and> (behind load e \<longrightarrow> flush plain e = Some e' \<and> agreed e')"
    using conjunct1 [OF assms]
  proof (induction rule: flush_induct)
    case (clean e e1)
    then show ?case
      using take_batch_in_flight(2) [OF clean, of load] take_batch_ok(1) [OF clean] by (simp add: flush.simps [of plain e])
  next
    case (failed e sts e1 e2)
    note t = take_batch_in_flight [OF failed(1,2)]
    show ?case
      using flush_batch_agrees [OF t(2) t(1) failed(4)] failed(2,3) flush_batch_ok(1) [OF take_batch_ok(1) [OF failed(1,2)] failed(4)]
      by (simp add: flush.simps [of plain e])
  next
    case (persisted e sts e1 e2 e3)
    note t = take_batch_in_flight [OF persisted(1,2)]
    show ?case
      using flush_batch_agrees [OF t(2) t(1) persisted(4)] persisted(2,3,7) by (simp add: flush.simps [of plain e])
  qed
  then show "flush plain e = flush comparing e" "flush comparing e = Some e' \<Longrightarrow> agreed e'" using assms by auto
qed

lemma drain_agreed: "agreed e \<Longrightarrow> drain_up_to n e = (k, e1) \<Longrightarrow> agreed e1"
  using drain_up_to_effect(3,5,7) [of e n k e1] by (auto elim: behind_applied)

lemma worker_step_agrees:
  assumes "agreed e"
  shows "worker_step plain t e = worker_step comparing t e" and "worker_step comparing t e = Some e' \<Longrightarrow> agreed e'"
proof -
  obtain k e1 where d: "drain_ring_into_cache e = (k, e1)" by fastforce
  have e1: "agreed e1" by (rule drain_agreed [OF assms d [unfolded drain_ring_is]])
  note f = flush_agrees [OF e1]
  show "worker_step plain t e = worker_step comparing t e" by (simp add: worker_step_def d f(1) Let_def)
  show "worker_step comparing t e = Some e' \<Longrightarrow> agreed e'"
    using f(2) [of e'] e1 by (auto simp: worker_step_def d Let_def split: if_splits)
qed

lemma final_drain_agrees:
  assumes "final_drain comparing n e = Some e'" and "agreed e"
  shows "final_drain plain n e = Some e' \<and> agreed e'"
proof -
  have "comparing = comparing \<longrightarrow> agreed e \<longrightarrow> final_drain plain n e = Some e' \<and> agreed e'"
  proof (rule final_drain.raw_induct [where P = "\<lambda>p n e y. p = comparing \<longrightarrow> agreed e \<longrightarrow>
      final_drain plain n e = Some y \<and> agreed y", OF _ assms(1)])
    fix f p n and e e' :: "'d engine"
    assume IH: "\<And>p n e e'. f p n e = Some e' \<Longrightarrow>
        p = comparing \<longrightarrow> agreed e \<longrightarrow> final_drain plain n e = Some e' \<and> agreed e'"
      and body: "(let (drained, e1) = drain_ring_into_cache e; ring_empty = ring_is_empty (en_ring e1);
            dirty_before = dirty_len (en_cache e1)
          in if ring_empty \<and> dirty_before = 0 then Some e1
             else Option.bind (if 0 < dirty_before then flush p e1 else Some e1) (\<lambda>e2.
               let dirty_after = dirty_len (en_cache e2)
               in if 0 < drained \<or> dirty_after < dirty_before then f p 0 e2
                  else if SHUTDOWN_MAX_STALLED_ATTEMPTS \<le> Suc n then Some e2 else f p (Suc n) e2)) = Some e'"
    show "p = comparing \<longrightarrow> agreed e \<longrightarrow> final_drain plain n e = Some e' \<and> agreed e'"
    proof (intro impI)
      assume p: "p = comparing" and e: "agreed e"
      obtain k e1 where d: "drain_ring_into_cache e = (k, e1)" by fastforce
      have e1: "agreed e1" by (rule drain_agreed [OF e d [unfolded drain_ring_is]])
      show "final_drain plain n e = Some e' \<and> agreed e'"
      proof (cases "ring_is_empty (en_ring e1) \<and> dirty_len (en_cache e1) = 0")
        case True
        then show ?thesis using body e1 by (simp add: d final_drain.simps [of plain n e])
      next
        case False
        then obtain e2 where e2: "(if 0 < dirty_len (en_cache e1) then flush comparing e1 else Some e1) = Some e2"
          and rest: "(if 0 < k \<or> dirty_len (en_cache e2) < dirty_len (en_cache e1) then f comparing 0 e2
            else if SHUTDOWN_MAX_STALLED_ATTEMPTS \<le> Suc n then Some e2 else f comparing (Suc n) e2) = Some e'"
          using body unfolding p d Let_def prod.case if_not_P [OF False] bind_eq_Some_conv by blast
        have a2: "agreed e2" using e2 e1 flush_agrees(2) [OF e1, of e2] by (auto split: if_splits)
        have "(if 0 < dirty_len (en_cache e1) then flush plain e1 else Some e1) = Some e2"
          using e2 by (simp only: flush_agrees(1) [OF e1])
        then show ?thesis
          using False rest a2 IH [of comparing 0 e2 e'] IH [of comparing "Suc n" e2 e']
          by (simp add: d final_drain.simps [of plain n e] Let_def split: if_splits) auto
      qed
    qed
  qed
  then show ?thesis using assms(2) by simp
qed

lemma run_agrees:
  "agreed e \<Longrightarrow> run comparing ts e = Some e' \<Longrightarrow> run plain ts e = Some e' \<and> agreed e'"
proof (induction ts arbitrary: e)
  case Nil
  then show ?case using final_drain_agrees by simp
next
  case (Cons t ts)
  then obtain e1 where e1: "worker_step comparing t e = Some e1" "run comparing ts e1 = Some e'"
    by (auto simp: bind_eq_Some_conv)
  note w = worker_step_agrees [OF Cons.prems(1), of t]
  show ?case using Cons.IH [OF w(2) [OF e1(1)] e1(2)] w(1) e1(1) by simp
qed

lemma api_drain_agreed: "agreed e \<Longrightarrow> api_drain e = Some e1 \<Longrightarrow> agreed e1 \<and> queued e1 = []"
  using api_drain_effect [of e] by (auto elim: behind_applied)

lemma flush_now_loop_agrees:
  assumes "flush_now_loop comparing n e = Some y" and "agreed e"
  shows "flush_now_loop plain n e = Some y \<and> agreed (snd y)"
proof -
  have "comparing = comparing \<longrightarrow> agreed e \<longrightarrow> flush_now_loop plain n e = Some y \<and> agreed (snd y)"
  proof (rule flush_now_loop.raw_induct [where P = "\<lambda>p n e y. p = comparing \<longrightarrow> agreed e \<longrightarrow>
      flush_now_loop plain n e = Some y \<and> agreed (snd y)", OF _ assms(1)])
    fix f p n and e :: "'d engine" and y
    assume IH: "\<And>p n e y. f p n e = Some y \<Longrightarrow>
        p = comparing \<longrightarrow> agreed e \<longrightarrow> flush_now_loop plain n e = Some y \<and> agreed (snd y)"
      and body: "(if dirty_len (en_cache e) = 0 then Some (Inr n, e)
          else Option.bind (api_drain e) (\<lambda>e1. let (states, e2) = take_batch e1 in
            if states = [] then Some (Inr n, e2)
            else case flush_states p states e2 of (Inl err, e3) \<Rightarrow> Some (Inl err, e3)
              | (Inr persisted, e3) \<Rightarrow> f p (n + persisted) e3)) = Some y"
    show "p = comparing \<longrightarrow> agreed e \<longrightarrow> flush_now_loop plain n e = Some y \<and> agreed (snd y)"
    proof (intro impI)
      assume p: "p = comparing" and e: "agreed e"
      show "flush_now_loop plain n e = Some y \<and> agreed (snd y)"
      proof (cases "dirty_len (en_cache e) = 0")
        case True
        then have "y = (Inr n, e)" using body by simp
        then show ?thesis using True e by (simp add: flush_now_loop.simps [of plain n e])
      next
        case False
        obtain e1 where d: "api_drain e = Some e1" using body False by (auto simp: bind_eq_Some_conv)
        have e1: "agreed e1" using api_drain_agreed [OF e d] by blast
        obtain sts e2 where t: "take_batch e1 = (sts, e2)" by fastforce
        have e2: "agreed e2" "in_flight sts e2"
          using take_batch_in_flight [OF conjunct1 [OF e1] t] take_batch_ok(1) [OF conjunct1 [OF e1] t] e1 by blast+
        obtain r e3 where f: "flush_states comparing sts e2 = (r, e3)" by fastforce
        note g = flush_states_agrees [OF conjunct2 [OF e2(1)] e2(2) f]
        have e3: "agreed e3" using g(2) flush_states_ok(1) [OF conjunct1 [OF e2(1)] f] by blast
        have step: "flush_now_loop plain n e = (if sts = [] then Some (Inr n, e2)
            else case r of Inl err \<Rightarrow> Some (Inl err, e3) | Inr m \<Rightarrow> flush_now_loop plain (n + m) e3)"
          using False by (simp add: flush_now_loop.simps [of plain n e] d t g(1) split: sum.splits)
        have "(if sts = [] then Some (Inr n, e2)
            else case r of Inl err \<Rightarrow> Some (Inl err, e3) | Inr m \<Rightarrow> f comparing (n + m) e3) = Some y"
          using body [unfolded p] False by (cases "sts = []"; cases r) (simp_all add: d t f)
        then show ?thesis using e2(1) e3 IH [of comparing _ e3 y] by (auto simp: step split: if_splits sum.splits)
      qed
    qed
  qed
  then show ?thesis using assms(2) by simp
qed

lemma flush_now_agrees:
  assumes "agreed e"
  shows "flush_now plain e = flush_now comparing e"
    and "flush_now comparing e = Some (r, e') \<Longrightarrow> agreed e'"
proof -
  obtain y where y: "flush_now comparing e = Some y" using flush_now_total [OF conjunct1 [OF assms], of comparing] by blast
  then obtain e1 where e1: "api_drain e = Some e1" "flush_now_loop comparing 0 e1 = Some y"
    by (auto simp: flush_now_def bind_eq_Some_conv)
  note l = flush_now_loop_agrees [OF e1(2) conjunct1 [OF api_drain_agreed [OF assms e1(1)]]]
  show "flush_now plain e = flush_now comparing e" using l y e1(1) by (simp add: flush_now_def)
  show "flush_now comparing e = Some (r, e') \<Longrightarrow> agreed e'" using l y by auto
qed

lemma shutdown_agrees:
  assumes "agreed e"
  shows "shutdown plain ts e = shutdown comparing ts e"
proof -
  obtain e1 where "run comparing ts e = Some e1" using run_total assms by blast
  then show ?thesis using run_agrees [OF assms] by (simp add: shutdown_def)
qed

lemma rounds_agree:
  "agreed e \<Longrightarrow> worker_rounds plain ts e = worker_rounds comparing ts e
    \<and> (\<forall>e'. worker_rounds comparing ts e = Some e' \<longrightarrow> agreed e')"
proof (induction ts arbitrary: e)
  case (Cons t ts)
  note w = worker_step_agrees [OF Cons.prems, of t]
  obtain e1 where e1: "worker_step comparing t e = Some e1" using worker_step_total Cons.prems by blast
  show ?case using Cons.IH [OF w(2) [OF e1]] w(1) e1 by simp
qed simp

lemma submit_agreed:
  assumes "agreed e"
  shows "submit i v b e = (out, e') \<Longrightarrow> agreed e'" and "submit_durable i v b e = (r, e') \<Longrightarrow> agreed e'"
proof -
  have p: "pipeline_ok (\<lambda>_. live (en_cache e)) e"
    using assms by (auto simp: pipeline_ok_def backed_def kept_def engine_ok_def intro: covers_entry cache_inv_keyed)
  show "agreed e'" if s: "submit i v b e = (out, e')"
    using pipeline_engine_ok submit_no_loss [OF p s] submit_effect(1,3) [OF s] assms behind_same [of load e e'] by auto
  show "agreed e'" if s: "submit_durable i v b e = (r, e')"
    using pipeline_engine_ok submit_durable_no_loss [OF p s] submit_durable_effect(3,4) [OF s] assms
      behind_same [of load e e'] by auto
qed

lemma exec_op_agrees:
  assumes "agreed e"
  shows "exec_op plain x e = exec_op comparing x e" and "exec_op comparing x e = Some (sts, e') \<Longrightarrow> agreed e'"
proof -
  have "exec_op plain x e = exec_op comparing x e \<and> (\<forall>sts e'. exec_op comparing x e = Some (sts, e') \<longrightarrow> agreed e')"
  proof (cases x)
    case (Worker_Step t)
    then show ?thesis using worker_step_agrees [OF assms, of t] by auto
  next
    case Flush_Now
    then show ?thesis using flush_now_agrees [OF assms] by auto
  next
    case Final_Drain
    obtain e1 where "final_drain comparing 0 e = Some e1" using final_drain_total assms by blast
    then show ?thesis using final_drain_agrees [OF _ assms] Final_Drain by auto
  next
    case (Submit i v b)
    obtain out e1 where s: "submit i v b e = (out, e1)" by fastforce
    then show ?thesis using submit_agreed(1) [OF assms s] Submit by simp
  next
    case (Submit_Durable i v b)
    obtain out e1 where s: "submit_durable i v b e = (out, e1)" by fastforce
    then show ?thesis using submit_agreed(2) [OF assms s] Submit_Durable by simp
  qed
  then show "exec_op plain x e = exec_op comparing x e" "exec_op comparing x e = Some (sts, e') \<Longrightarrow> agreed e'" by blast+
qed

lemma exec_ops_agree:
  "agreed e \<Longrightarrow> exec_ops plain xs e = exec_ops comparing xs e
    \<and> (\<forall>sts e'. exec_ops comparing xs e = Some (sts, e') \<longrightarrow> agreed e')"
proof (induction xs arbitrary: e)
  case (Cons x xs)
  note x = exec_op_agrees [OF Cons.prems, of x]
  show ?case
  proof (cases "exec_op comparing x e")
    case (Some y)
    then obtain sts e1 where y: "exec_op comparing x e = Some (sts, e1)" by (cases y) simp
    show ?thesis using Cons.IH [OF x(2) [OF y]] x(1) y by auto
  qed (use x(1) in simp)
qed simp

end

section \<open>The script\<close>

text \<open>
  The script of the comment, for one key: SET unless the version stored under the key is
  greater.  \<open>comparing_persist\<close> is \<open>persist_batch\<close> with the script in the place of SET.
\<close>

definition script_set :: "player_state \<Rightarrow> (string \<rightharpoonup> u8 list) \<Rightarrow> (string \<rightharpoonup> u8 list)" where
  "script_set st m =
     (case redis_table m (ps_id st) of
        Some cur \<Rightarrow> if ps_version cur \<le> ps_version st then m(player_key (ps_id st) \<mapsto> encode_value st) else m
      | None \<Rightarrow> m(player_key (ps_id st) \<mapsto> encode_value st))"

definition comparing_persist :: "fake_redis persist" where
  "comparing_persist states c = (Inr (), c\<lparr>fr_map := fold script_set states (fr_map c)\<rparr>)"

abbreviation plain_persist :: "fake_redis persist" where
  "plain_persist \<equiv> redis_persist_batch fake_pipeline_set"

abbreviation fake_load :: "fake_redis \<Rightarrow> table" where
  "fake_load c \<equiv> redis_table (fr_map c)"

lemma script_table: "redis_table (script_set st m) = lww_put st (redis_table m)"
  by (auto simp: script_set_def redis_table_set lww_put_def not_le split: option.splits)

lemma scripts_table: "redis_table (fold script_set sts m) = lww_all sts (redis_table m)"
  by (induction sts arbitrary: m) (simp_all add: script_table)

interpretation compared: store_trait comparing_persist fake_load
  by unfold_locales (auto simp: comparing_persist_def scripts_table)

lemma script_newer:
  "newer_batch sts (redis_table m) \<Longrightarrow>
    fold script_set sts m = put_all (map (\<lambda>st. (player_key (ps_id st), encode_value st)) sts) m"
proof (induction sts arbitrary: m)
  case (Cons st sts)
  let ?m = "m(player_key (ps_id st) \<mapsto> encode_value st)"
  have "script_set st m = ?m" using Cons.prems by (auto simp: script_set_def newer_batch_def split: option.splits)
  moreover have "newer_batch sts (redis_table ?m)"
    using Cons.prems by (auto simp: redis_table_set newer_batch_def image_iff)
  ultimately show ?case using Cons.IH by (simp only: fold_simps list.map put_all.simps)
qed simp

interpretation fakes: two_stores plain_persist comparing_persist fake_load
proof unfold_locales
  fix sts and d :: fake_redis
  assume n: "newer_batch sts (fake_load d)"
  show "plain_persist sts d = comparing_persist sts d"
    using script_newer [OF n] by (simp add: redis_persist_batch_def comparing_persist_def fake_pipeline_set_def)
  show "\<exists>k. fake_load d' = lww_all (take k sts) (fake_load d)" if "comparing_persist sts d = (r, d')" for r d'
    using that by (intro exI [of _ "length sts"]) (auto simp: comparing_persist_def scripts_table)
qed

text \<open>
  C26: The plain SET is enough for calls that run one after another, over the in-memory
  connection, which never fails, and from a store that is not ahead of the cache (a fresh one,
  not one that an earlier process has filled): any sequence of submits, durable submits, worker
  iterations, \<open>flush_now\<close> calls and final drains does with the Redis store, call by
  call and field by field, what it does with a store that compares the versions on the server;
  every accepted state stays in ring, dirty set or store, and the store is not ahead of the
  cache at the end.
\<close>

theorem plain_set_is_enough:
  assumes "pipeline_ok fake_load e" and "behind fake_load e"
  shows "\<exists>sts e'. exec_ops plain_persist xs e = Some (sts, e') \<and> exec_ops comparing_persist xs e = Some (sts, e')
    \<and> behind fake_load e' \<and> (\<forall>st \<in> set sts. accounted fake_load e' st)"
proof -
  have ok: "engine_ok e \<and> behind fake_load e" using assms pipeline_engine_ok by blast
  obtain sts e' where "exec_ops comparing_persist xs e = Some (sts, e')" "\<forall>st \<in> set sts. accounted fake_load e' st"
    using compared.exec_ops_no_loss [OF assms(1), of xs] by blast
  then show ?thesis using fakes.exec_ops_agree [OF ok, of xs] by auto
qed

definition redis_engine :: "fake_redis engine" where
  "redis_engine =
     \<lparr>en_ring = ring_new 2, en_cache = cache_new, en_wal = sample_log, en_store = fake_new,
      en_metrics = metrics_new, en_lsn = lsn_new 1, en_config = sample_config,
      en_order = (\<lambda>_. ascending), en_takes = 0, en_clock = []\<rparr>"

lemma redis_engine_ok: "pipeline_ok fake_load redis_engine" "behind fake_load redis_engine"
proof -
  have "engine_ok sample_engine" using sample_engine_ok by (rule pipeline_engine_ok)
  then show "pipeline_ok fake_load redis_engine"
    by (simp add: pipeline_ok_def backed_def engine_ok_def redis_engine_def sample_engine_def)
  show "behind fake_load redis_engine"
    by (simp add: behind_def redis_engine_def fake_new_def keyed_def redis_table_def)
qed

theorem plain_set_is_enough_witness:
  "\<exists>sts e'. exec_ops plain_persist [Submit 7 1 [9], Worker_Step True, Submit 7 2 [8], Flush_Now] redis_engine = Some (sts, e')
    \<and> behind fake_load e'"
  using plain_set_is_enough [OF redis_engine_ok, of "[Submit 7 1 [9], Worker_Step True, Submit 7 2 [8], Flush_Now]"]
  by blast

end
