(* ===== verification/Redis_Race.thy ===== *)
theory Redis_Race
  imports Crew_Durable Set_Store
begin

text \<open>
  Two flushers over the Redis store.  \<open>Set_Store\<close> shows that plain SET merges correctly while the
  calls of one engine run one after another; here the worker and a caller's \<open>flush_now\<close> overlap.
\<close>

text \<open>A batch of one state that is logged, the store taking it, and the checkpoint after it.\<close>

lemma one_flushed:
  assumes c: "crew_reachable plain_persist e c" and t: "cr_hands c t = Logged [st] l 0" and n: "numbers c = lsn_new n"
    and w: "steady rs (en_wal (cr_engine c))"
  obtains c' d v where "crew_reachable plain_persist e c'" and "cr_hands c' = (cr_hands c)(t := Idle)"
    and "cr_engine c' = (cr_engine c)\<lparr>en_store := d, en_wal := v\<rparr>" and "steady (survivors_of l rs) v"
    and "fake_load d = (fake_load (en_store (cr_engine c)))(ps_id st \<mapsto> st)"
    and "cr_accepted c' = cr_accepted c" and "cr_drawn c' = cr_drawn c"
proof -
  obtain d where d: "plain_persist [st] (en_store (cr_engine c)) = (Inr (), d)"
    "fr_map d = (fr_map (en_store (cr_engine c)))(player_key (ps_id st) \<mapsto> encode_value st)"
    by (rule that [of "(en_store (cr_engine c))\<lparr>fr_map := (fr_map (en_store (cr_engine c)))
        (player_key (ps_id st) \<mapsto> encode_value st)\<rparr>"]) (simp_all add: redis_persist_batch_def fake_pipeline_set_def)
  obtain c1 where c1: "c1 = with_hand t (Weighed l) ((cr_engine c)\<lparr>en_store := d\<rparr>) c" by blast
  have "weigh l (cr_engine c) = Weighed l"
    by (simp add: weigh_def checkpoint_watermark_def first_pending_def n lsn_new_def)
  then have 1: "crew_reachable plain_persist e c1" unfolding c1 using logged_to_stored [OF c t d(1)] by simp
  obtain x v where k: "checkpoint l (en_wal (cr_engine c)) = (x, v)" by fastforce
  obtain c2 where c2: "c2 = with_hand t Idle ((cr_engine c1)\<lparr>en_wal := v\<rparr>) c1" by blast
  have 2: "crew_reachable plain_persist e c2"
    unfolding c2 using crew_step.trims [of c1 t l x v] k by (intro crew_reachable.step [OF 1]) (simp add: c1)
  have "fake_load d = (fake_load (en_store (cr_engine c)))(ps_id st \<mapsto> st)" by (simp only: d(2) redis_table_set)
  then show thesis using steady_checkpoint(1) [OF w k] by (intro that [OF 2]) (simp_all add: c2 c1)
qed

definition eighth :: write_request where
  "eighth = \<lparr>wr_id = 7, wr_version = 2, wr_blob = [2], wr_seq = 3\<rparr>"

text \<open>
  C27: Two flushers undo a SET.  The worker logs version 1 of a player; before it calls the
  store, version 2 is submitted, and a \<open>flush_now\<close> of another thread logs it, stores it and
  checkpoints; then the worker's SET puts version 1 back.  At the end all threads are idle,
  ring and dirty set are empty, a crash recovers nothing from the log, and the server holds
  version 1: the accepted version 2 is in no durable place, and no later flush repairs it.
\<close>

theorem two_flushers_undo_a_set:
  "\<exists>c a n. crew_reachable plain_persist redis_engine c \<and> (\<forall>t. cr_hands c t = Idle)
    \<and> cr_accepted c = [to_state eighth, to_state seventh]
    \<and> queued (cr_engine c) = [] \<and> dirty_set (cr_engine c) = {}
    \<and> can_crash (en_wal (cr_engine c)) a n \<and> restarts_with (en_wal (cr_engine c)) a n []
    \<and> redis_load fake_get 7 (en_store (cr_engine c)) = Some (to_state seventh)"
proof -
  let ?reach = "crew_reachable plain_persist redis_engine" and ?old = "to_state seventh" and ?new = "to_state eighth"
  have s: "cr_hands (crew_start redis_engine) 0 = Idle" "engine_ok (cr_engine (crew_start redis_engine))"
    "queued (cr_engine (crew_start redis_engine)) = []" "0 < ring_capacity (en_ring (cr_engine (crew_start redis_engine)))"
    "seventh = \<lparr>wr_id = 7, wr_version = 1, wr_blob = [1], wr_seq = next_lsn (numbers (crew_start redis_engine))\<rparr>"
    "numbers (crew_start redis_engine) = lsn_new 1"
    using pipeline_engine_ok [OF redis_engine_ok(1)]
    by (simp_all add: crew_start_def) (simp_all add: redis_engine_def sample_ring ring_capacity_2 lsn_new_def)
  obtain m where 0: "?reach ((crew_start redis_engine)\<lparr>cr_engine := redis_engine\<lparr>en_ring := m, en_lsn := lsn_new (1 + 1),
        en_cache := cache_apply seventh cache_new\<rparr>, cr_drawn := [seventh], cr_accepted := [?old]\<rparr>)" (is "crew_reachable _ _ ?c0")
    and ok0: "engine_ok (redis_engine\<lparr>en_ring := m, en_lsn := lsn_new (1 + 1), en_cache := cache_apply seventh cache_new\<rparr>)"
    and m: "ring_contents m = []" "ring_capacity m = 2"
    using submit_to_cache [OF crew_reachable.start [of plain_persist redis_engine] s(1-6) refl]
    by (auto simp: crew_start_def redis_engine_def ring_capacity_2)
  obtain c0 where c0: "c0 = ?c0" by blast
  note 0 = 0 [folded c0]
  have st0: "fake_load (en_store redis_engine) = Map.empty" by (simp add: redis_engine_def fake_new_def redis_table_def)
  have p0: "cr_hands c0 0 = Idle" "engine_ok (cr_engine c0)" "dirty_set (cr_engine c0) = {7}"
    "live (en_cache (cr_engine c0)) 7 = Some ?old" "numbers c0 = lsn_new 2" "steady [] (en_wal (cr_engine c0))"
    "last_lsn (en_wal (cr_engine c0)) = 0" "fake_load (en_store (cr_engine c0)) = Map.empty" "en_ring (cr_engine c0) = m"
    using ok0 steady_sample st0
    by (simp_all add: c0 crew_start_def dirty_apply live_apply lww_put_def to_state_def)
      (simp_all add: redis_engine_def sample_log_def)
  have fit: "all_fit (stamp 2 [?old])" "all_fit (stamp 4 [?new])"
    by (simp_all add: stamp_def fits_def layout_defs to_state_def eighth_def enumerate_eq_zip)
  obtain e1 where 1: "?reach (with_hand 0 (Logged [?old] 2 0) e1 c0)"
    and e1: "engine_ok e1" "dirty_set e1 = {}" "live (en_cache e1) = live (en_cache (cr_engine c0))" "en_lsn e1 = lsn_new 3"
    "steady (stamp 2 [?old]) (en_wal e1)" "last_lsn (en_wal e1) = 2" "en_store e1 = en_store (cr_engine c0)" "en_ring e1 = m"
    using one_logged [OF 0 p0(1-5) _ _ p0(6) fit(1)] p0(7,9) by auto
  obtain c1 where c1: "c1 = with_hand 0 (Logged [?old] 2 0) e1 c0" by blast
  note 1 = 1 [folded c1]
  have s1: "cr_hands c1 1 = Idle" "engine_ok (cr_engine c1)" "queued (cr_engine c1) = []"
    "0 < ring_capacity (en_ring (cr_engine c1))" "numbers c1 = lsn_new 3"
    "eighth = \<lparr>wr_id = 7, wr_version = 2, wr_blob = [2], wr_seq = next_lsn (numbers c1)\<rparr>"
    using e1 m by (simp_all add: c1 c0 crew_start_def eighth_def lsn_new_def)
  obtain m2 where 2: "?reach (c1\<lparr>cr_engine := (cr_engine c1)\<lparr>en_ring := m2, en_lsn := lsn_new (3 + 1),
      en_cache := cache_apply eighth (en_cache (cr_engine c1))\<rparr>, cr_drawn := eighth # cr_drawn c1, cr_accepted := ?new # cr_accepted c1\<rparr>)"
      (is "crew_reachable _ _ ?c2")
    and ok2: "engine_ok ((cr_engine c1)\<lparr>en_ring := m2, en_lsn := lsn_new (3 + 1),
      en_cache := cache_apply eighth (en_cache (cr_engine c1))\<rparr>)" and m2: "ring_contents m2 = []"
    using submit_to_cache [OF 1 s1(1-4,6,5) refl] by blast
  obtain c2 where c2: "c2 = ?c2" by blast
  note 2 = 2 [folded c2]
  have l1: "live (en_cache (cr_engine c1)) 7 = Some ?old" using p0(4) by (simp add: c1 e1(3))
  have p2: "cr_hands c2 1 = Idle" "engine_ok (cr_engine c2)" "dirty_set (cr_engine c2) = {7}"
    "live (en_cache (cr_engine c2)) 7 = Some ?new" "numbers c2 = lsn_new 4" "steady (stamp 2 [?old]) (en_wal (cr_engine c2))"
    "last_lsn (en_wal (cr_engine c2)) = 2" "en_ring (cr_engine c2) = m2" "cr_hands c2 = (\<lambda>_. Idle)(0 := Logged [?old] 2 0)"
    "cr_accepted c2 = [?new, ?old]"
    using ok2 e1 l1 by (simp_all add: c2 c1 c0 crew_start_def dirty_apply live_apply lww_put_def to_state_def eighth_def)
  obtain e3 where 3: "?reach (with_hand 1 (Logged [?new] 4 0) e3 c2)" (is "crew_reachable _ _ ?c3")
    and e3: "en_lsn e3 = lsn_new 5" "steady (stamp 2 [?old] @ stamp 4 [?new]) (en_wal e3)" "dirty_set e3 = {}"
    "en_ring e3 = m2"
    using one_logged [OF 2 p2(1-5) _ _ p2(6) fit(2)] p2(7,8) by auto
  have h3: "cr_hands ?c3 1 = Logged [?new] 4 0" "numbers ?c3 = lsn_new 5"
    "steady (stamp 2 [?old] @ stamp 4 [?new]) (en_wal (cr_engine ?c3))" using e3 by simp_all
  obtain c4 d4 w4 where 4: "?reach c4" "cr_hands c4 = (cr_hands ?c3)(1 := Idle)"
    "cr_engine c4 = (cr_engine ?c3)\<lparr>en_store := d4, en_wal := w4\<rparr>" "steady (survivors_of 4 (stamp 2 [?old] @ stamp 4 [?new])) w4"
    "cr_accepted c4 = cr_accepted ?c3"
    using one_flushed [OF 3 h3] by blast
  have none: "survivors_of 4 (stamp 2 [?old] @ stamp 4 [?new]) = []" "survivors_of 2 [] = []"
    by (simp_all add: survivors_of_def stamp_def enumerate_eq_zip)
  have id: "ps_id ?old = 7" by (simp add: to_state_def)
  have h4: "cr_hands c4 0 = Logged [?old] 2 0" "numbers c4 = lsn_new 5" "steady [] (en_wal (cr_engine c4))"
    using 4 none p2(9) e3 by simp_all
  obtain c5 d5 w5 where 5: "?reach c5" "cr_hands c5 = (cr_hands c4)(0 := Idle)"
    "cr_engine c5 = (cr_engine c4)\<lparr>en_store := d5, en_wal := w5\<rparr>" "steady [] w5"
    "fake_load d5 = (fake_load (en_store (cr_engine c4)))(7 \<mapsto> ?old)" "cr_accepted c5 = cr_accepted c4"
    using one_flushed [OF 4(1) h4] by (simp only: none id) blast
  have "redis_load fake_get 7 d5 = Some ?old" using faker.load_table [of 7 d5] 5(5) by (simp add: fake_get_def)
  moreover have "\<forall>t. cr_hands c5 t = Idle" "cr_accepted c5 = [?new, ?old]" "queued (cr_engine c5) = []" "dirty_set (cr_engine c5) = {}"
    using 5(2,3,6) 4(2,3,5) p2(9,10) e3(3,4) m2 by simp_all
  moreover obtain a n where "can_crash w5 a n" "restarts_with w5 a n []" using steady_can_crash [OF 5(4)] by blast
  ultimately show ?thesis using 5(1,3) by (intro exI [of _ c5] exI [of _ a] exI [of _ n]) simp
qed

end
