(* ===== verification/Redis_Example.thy ===== *)
theory Redis_Example
  imports Set_Store Burst
begin

text \<open>
  \<open>main\<close> of \<open>examples/redis_store.rs\<close>, over the in-memory connection: the burst of \<open>Burst\<close> into a
  \<open>RedisStore\<close>, a clean shutdown, and the check of every player through the store's own GET
  path.  The caller's \<open>flush_now\<close> runs between iterations of the worker, not within one
  (\<open>Redis_Race\<close> has that).  Paths, printing and the removal of the directory are left out.
\<close>

section \<open>The run\<close>

definition REDIS_PLAYERS :: nat where "REDIS_PLAYERS = 500"
definition REDIS_UPDATES_PER_PLAYER :: nat where "REDIS_UPDATES_PER_PLAYER = 3"

datatype redis_exit =
    Redis_Not_Started io_error
  | Redis_Flush_Refused flux_error
  | Redis_Shutdown_Refused flux_error
  | Redis_Player_Missing u64
  | Redis_Version_Differs u64
  | Redis_Blob_Differs u64
  | Redis_Verified u64 u64 u64 nat

fun redis_check :: "(player_id \<Rightarrow> player_state option) \<Rightarrow> nat list \<Rightarrow> u64 \<Rightarrow> redis_exit + u64" where
  "redis_check load [] checked = Inr checked"
| "redis_check load (p # ps) checked =
     (let player_id = word_of_nat p in
      case load player_id of
        None \<Rightarrow> Inl (Redis_Player_Missing player_id)
      | Some got \<Rightarrow>
          if ps_version got \<noteq> word_of_nat REDIS_UPDATES_PER_PLAYER then Inl (Redis_Version_Differs player_id)
          else if ps_blob got \<noteq> u64_to_le_bytes (word_of_nat REDIS_UPDATES_PER_PLAYER) then Inl (Redis_Blob_Differs player_id)
          else redis_check load ps (checked + 1))"

definition redis_main :: "string \<Rightarrow> (nat \<Rightarrow> hash_order) \<Rightarrow> u64 list \<Rightarrow> (u64 \<Rightarrow> u64 \<Rightarrow> bool list) \<Rightarrow> bool list \<Rightarrow> bool list \<Rightarrow>
    wal \<Rightarrow> redis_exit option" where
  "redis_main wal_dir order clock idle rest stopping wal_disk =
     (case start (example_config wal_dir) fake_new order clock wal_disk of
        (Inl err, w) \<Rightarrow> Some (Redis_Not_Started err)
      | (Inr e, w) \<Rightarrow>
          Option.bind (example_submits (redis_persist_batch fake_pipeline_set) idle
              (example_writes REDIS_PLAYERS REDIS_UPDATES_PER_PLAYER) 0 0 e) (\<lambda>(submitted, dropped, e1).
          Option.bind (worker_rounds (redis_persist_batch fake_pipeline_set) rest e1) (\<lambda>e2.
          Option.bind (flush_now (redis_persist_batch fake_pipeline_set) e2) (\<lambda>x. case x of
              (Inl err, e3) \<Rightarrow> Some (Redis_Flush_Refused err)
            | (Inr flushed, e3) \<Rightarrow>
                map_option (\<lambda>y. case y of
                    (Inl err, e4) \<Rightarrow> Redis_Shutdown_Refused err
                  | (Inr u, e4) \<Rightarrow>
                      (case redis_check (\<lambda>i. redis_load fake_get i (en_store e4)) [0..<REDIS_PLAYERS] 0 of
                         Inl ex \<Rightarrow> ex
                       | Inr checked \<Rightarrow> Redis_Verified checked submitted dropped flushed))
                  (shutdown (redis_persist_batch fake_pipeline_set) stopping e3)))))"

section \<open>The comparing store in its place\<close>

lemma comparing_up: "always_up comparing_persist (\<lambda>_. True)"
  by (simp add: always_up_def comparing_persist_def)

lemma submits_agree:
  "engine_ok e \<and> behind fake_load e \<Longrightarrow>
    example_submits comparing_persist idle ws s d e = Some (s', d', e') \<Longrightarrow>
    example_submits plain_persist idle ws s d e = Some (s', d', e') \<and> engine_ok e' \<and> behind fake_load e'"
proof (induction ws arbitrary: s d e)
  case (Cons w ws)
  obtain v i where w: "w = (v, i)" by fastforce
  obtain e1 where e1: "worker_rounds comparing_persist (idle v i) e = Some e1"
    using Cons.prems(2) by (auto simp: w bind_eq_Some_conv)
  note r = fakes.rounds_agree [OF Cons.prems(1), of "idle v i"]
  have a1: "engine_ok e1 \<and> behind fake_load e1" using r e1 by blast
  obtain out e2 where s: "submit i v (u64_to_le_bytes v) e1 = (out, e2)" by fastforce
  note a2 = fakes.submit_agreed(1) [OF a1 s]
  show ?case using Cons.prems(2) Cons.IH [OF a2] r e1 s by (simp add: w Let_def)
qed simp

definition redis_filled :: "fake_redis \<Rightarrow> bool" where
  "redis_filled c \<longleftrightarrow> keyed (fake_load c)
     \<and> (\<forall>i st. fake_load c i = Some st \<longrightarrow> written REDIS_PLAYERS REDIS_UPDATES_PER_PLAYER st)"

lemma redis_filled_persist:
  assumes "redis_filled d" and "\<forall>s \<in> set b. written REDIS_PLAYERS REDIS_UPDATES_PER_PLAYER s"
    and "comparing_persist b d = (r, d')"
  shows "redis_filled d'"
proof -
  have l: "fake_load d' = lww_all b (fake_load d)" using assms(3) by (auto simp: comparing_persist_def scripts_table)
  show ?thesis using assms(1,2) lww_all_version [of b "fake_load d"] by (fastforce simp: redis_filled_def l)
qed

lemma redis_check_pass:
  "\<forall>p \<in> set ps. load (word_of_nat p) = Some (last_write REDIS_UPDATES_PER_PLAYER (word_of_nat p)) \<Longrightarrow>
    redis_check load ps k = Inr (k + word_of_nat (length ps))"
  by (induction ps arbitrary: k) (simp_all add: Let_def add.assoc last_write_def write_of_def)

text \<open>
  C25: The Redis example verifies. On a fresh directory whose system calls succeed, over the
  in-memory connection, and with any number of whole worker iterations between the calls of the
  main thread, none of the 1500 writes is shed, \<open>flush_now\<close> and
  \<open>shutdown\<close> succeed, and GET returns the last write for each of the 500 players.
\<close>

theorem redis_example_verifies:
  "\<exists>flushed. redis_main wal_dir order clock idle rest stopping (empty_dir [])
    = Some (Redis_Verified 500 1500 0 flushed)"
proof -
  let ?ws = "example_writes REDIS_PLAYERS REDIS_UPDATES_PER_PLAYER"
  have new: "fake_load fake_new = Map.empty" by (simp add: fake_new_def redis_table_def)
  obtain e w where s: "start (example_config wal_dir) fake_new order clock (empty_dir []) = (Inr e, w)"
    and e: "running (\<lambda>_. True) fake_load (below REDIS_PLAYERS) 0 e" "ring_capacity (en_ring e) = 16384"
      "queued e = []" "en_cache e = cache_new" "en_store e = fake_new"
    by (rule example_start [where up = "\<lambda>_. True" and load = fake_load, OF TrueI new])
  have len: "length ?ws \<le> ring_capacity (en_ring e)" "length ?ws < 2 ^ 63"
    by (simp_all add: length_example_writes e(2) REDIS_PLAYERS_def REDIS_UPDATES_PER_PLAYER_def)
  have "\<forall>w \<in> set ?ws. written REDIS_PLAYERS REDIS_UPDATES_PER_PLAYER (write_of w)"
    by (rule example_writes_written) (simp_all add: REDIS_PLAYERS_def REDIS_UPDATES_PER_PLAYER_def)
  then have ws: "\<forall>w \<in> set ?ws. snd w \<in> below REDIS_PLAYERS \<and> written REDIS_PLAYERS REDIS_UPDATES_PER_PLAYER (write_of w)"
    by (auto simp: written_def write_of_def)
  have f0: "redis_filled (en_store e)" by (simp add: redis_filled_def e(5) new keyed_def)
  obtain e1 e2 n e3 e4 where r: "example_submits comparing_persist idle ?ws 0 0 e = Some (word_of_nat (length ?ws), 0, e1)"
    "worker_rounds comparing_persist rest e1 = Some e2" "flush_now comparing_persist e2 = Some (Inr n, e3)"
    "shutdown comparing_persist stopping e3 = Some (Inr (), e4)" and fill: "redis_filled (en_store e4)"
    and cov: "\<forall>w \<in> set ?ws. covers (fake_load (en_store e4)) (write_of w)"
    by (rule burst_stored [where F = redis_filled, OF compared.store_trait_axioms comparing_up e(1,3,4) len ws f0
      redis_filled_persist])
  have a0: "engine_ok e \<and> behind fake_load e"
    using e(1) ready_ok by (auto simp: running_def behind_def e(5) new keyed_def)
  note r1 = submits_agree [OF a0 r(1)]
  note r2 = fakes.rounds_agree [OF conjunct2 [OF r1], of rest]
  have a2: "engine_ok e2 \<and> behind fake_load e2" using r2 r(2) by blast
  note r3 = fakes.flush_now_agrees [OF a2]
  note r4 = fakes.shutdown_agrees [OF r3(2) [OF r(3)], of stopping]
  have all: "fake_load (en_store e4) i = Some (last_write REDIS_UPDATES_PER_PLAYER i)" if "i \<in> below REDIS_PLAYERS" for i
  proof (rule last_write_found [where n = REDIS_PLAYERS])
    have "(word_of_nat REDIS_UPDATES_PER_PLAYER, i) \<in> set ?ws"
      by (rule last_pass [OF _ _ that]) (simp_all add: REDIS_PLAYERS_def REDIS_UPDATES_PER_PLAYER_def)
    then show "covers (fake_load (en_store e4)) (last_write REDIS_UPDATES_PER_PLAYER i)"
      using cov by (auto simp: last_write_def)
  qed (use fill in \<open>simp_all add: redis_filled_def\<close>)
  have "redis_load fake_get (word_of_nat p) (en_store e4) = Some (last_write REDIS_UPDATES_PER_PLAYER (word_of_nat p))"
    if "p < REDIS_PLAYERS" for p
    using all [OF in_below [OF _ that]] faker.load_table by (simp add: fake_get_def REDIS_PLAYERS_def)
  then have "redis_check (\<lambda>i. redis_load fake_get i (en_store e4)) [0..<REDIS_PLAYERS] 0 = Inr (word_of_nat REDIS_PLAYERS)"
    using redis_check_pass [of "[0..<REDIS_PLAYERS]" "\<lambda>i. redis_load fake_get i (en_store e4)" 0] by simp
  then have "redis_check (\<lambda>i. redis_load fake_get i (en_store e4)) [0..<REDIS_PLAYERS] 0 = Inr 500"
    by (simp add: REDIS_PLAYERS_def)
  moreover have "length ?ws = 1500" by (simp add: length_example_writes REDIS_PLAYERS_def REDIS_UPDATES_PER_PLAYER_def)
  ultimately show ?thesis using s r1 r2 r(2-4) r3(1) r4 by (simp add: redis_main_def)
qed

end
