(* ===== verification/Spec2Isabelle.thy ===== *)
theory Spec2Isabelle
  imports Crc32 Lsn Cache Store Ring_Shared Durability Losses Crew_Durable Crew_Disk Redis_Store
    Crash_Child Demo Disk_Example Redis_Race Redis_Example
begin

text \<open>
  A verification library for FluxThroughput, a write-behind persistence pipeline in Rust.

  \<^bold>\<open>The program.\<close>  Game threads call \<open>FluxEngine::submit\<close>, which numbers a request and puts it
  into a lock-free ring (\<open>src/ring.rs\<close>) or drops it when the ring is full.  One worker thread
  (\<open>src/worker.rs\<close>) drains the ring into a cache that keeps the newest version of each player
  (\<open>src/cache.rs\<close>), takes batches of dirty entries, appends them to a write-ahead log
  (\<open>src/wal.rs\<close>, frames and checksums in \<open>src/domain.rs\<close>), hands them to a store with bounded
  retries (\<open>PersistenceStore\<close>; \<open>src/store.rs\<close> and the two backends under \<open>examples/\<close>), and
  then checkpoints the log up to a watermark (\<open>src/lsn.rs\<close>).  \<open>submit_durable\<close> appends to the
  log before it returns, \<open>flush_now\<close> flushes from the caller's thread, \<open>start\<close> replays the log
  (\<open>src/api.rs\<close>).

  \<^bold>\<open>Theories.\<close>
  \<^item> \<open>Prelude\<close>: machine integers, little-endian bytes, shared collections of rewrite rules.
  \<^item> \<open>Crc32\<close>, \<open>Domain\<close>: checksum, value types, \<open>encode\<close> and \<open>decode\<close>.
  \<^item> \<open>Lww\<close>: the abstract specification, tables merged by last-write-wins.  \<open>Traits\<close>: the four
    traits of \<open>domain.rs\<close> as locales \<open>queue_trait\<close>, \<open>cache_trait\<close>, \<open>wal_trait\<close> and
    \<open>store_trait\<close>, with what a client may conclude from them.
  \<^item> \<open>Lsn\<close>, \<open>Cache\<close>, \<open>Store\<close>, \<open>Config\<close>: allocator and checkpoint floor, write-behind cache, mock
    store, configuration and metrics.
  \<^item> \<open>Ring\<close>: \<open>try_enqueue\<close> and \<open>try_dequeue\<close> cut at their atomic accesses and run alone;
    \<open>Ring_Conc\<close>, \<open>Ring_Shared\<close>: the same accesses interleaved by any number of threads.
  \<^item> \<open>Framing\<close> (the locale \<open>frame_scan\<close>), \<open>Segment\<close>, \<open>Disk\<close>, \<open>Wal\<close>, \<open>Checkpoint\<close>, \<open>Durability\<close>:
    the log over an explicit disk whose calls fail, write short and crash.
  \<^item> \<open>Engine\<close>: worker and engine methods as functions on one state; \<open>Flush\<close>, \<open>Lossless\<close>,
    \<open>Recovery\<close>, \<open>Pipeline\<close>: what they guarantee, each method run alone; \<open>Losses\<close>: runs in which
    what the comments promise fails.
  \<^item> \<open>Crew\<close>: the methods cut at their operations on shared components and interleaved by any
    number of threads; \<open>Crew_Safety\<close>: no loss in memory; \<open>Crew_Durable\<close>: acknowledged durable
    writes, and the races that lose them; \<open>Crew_Calls\<close>: the sequential methods are runs of
    \<open>Crew\<close>.
  \<^item> \<open>Kv_Frame\<close>, \<open>Kv_Store\<close>, \<open>Kv_Durability\<close>: the disk store of \<open>examples/disk_kv_store.rs\<close>;
    \<open>Crew_Disk\<close>: the threads over the disk store, end to end.
  \<^item> \<open>Redis_Store\<close>: the store of \<open>examples/redis_store.rs\<close> over the locale \<open>redis_conn\<close>; \<open>Set_Store\<close>:
    the locale \<open>two_stores\<close>, why its plain SET merges by version while calls do not overlap;
    \<open>Redis_Race\<close>: why not when they do.
  \<^item> \<open>Crash_Child\<close>: the process that the crash test kills (\<open>src/bin/crash_child.rs\<close>), its main thread
    and its worker as threads of \<open>Crew\<close>.  \<open>Meter\<close>: what the
    metrics account for; \<open>Demo\<close>: the scripted run of \<open>src/bin/demo.rs\<close> and its assertions;
    \<open>Burst\<close>, \<open>Disk_Example\<close>, \<open>Redis_Example\<close>: the \<open>main\<close> functions of
    \<open>examples/disk_kv_store.rs\<close> and \<open>examples/redis_store.rs\<close>, from the burst to the last assertion.

  \<^bold>\<open>Correspondence.\<close>  A struct is a record, an enum a datatype, \<open>u64\<close> and \<open>u32\<close> are words that wrap,
  \<open>usize\<close> counts are naturals.  A method is a function from the component's state to result and
  state, an error a left injection.  What a mutex guards is one step; what is lock-free is cut
  at each atomic access.  Loops whose end depends on disk, store or ring are partial functions
  into \<open>option\<close>, and that they return is proved (\<open>engine_loops_return\<close>), so there is no fuel.
  Inputs from outside are parameters: outcomes of system calls, the iteration order of a
  \<open>HashSet\<close>, clock readings, the ticks of the flush interval, spurious compare-exchange
  failures.

  \<^bold>\<open>What is shown.\<close>  The ring: each request is handed over once, a payload is accessed by one
  thread at a time, the ring is a bounded queue whose producers never wait.  The log: it is a
  list of records; on a log whose directory entry is stable an acknowledged append survives every
  crash until a checkpoint takes it; checkpoint and recovery are safe at every point of failure.  The pipeline: nothing accepted is lost in memory in any
  interleaving, nothing is invented, the log is written before the store, every loop returns,
  a shutdown over a working store leaves nothing behind, over the disk store what was
  accepted is found after a kill while frames are below 8 KiB, the crash child's announced writes
  are recovered until its worker's first checkpoint, and the assertions of the demo and of both
  examples hold while the worker's iterations do not overlap with the main thread's calls.  The
  codecs: decoding accepts exactly the encodings and refuses every change of at most four
  consecutive bytes outside magic and length fields and not across the start of the checksum.  Negative results are theorems about concrete runs; they are
  named in \<open>Losses\<close>, \<open>Durability\<close>, \<open>Crew_Durable\<close>, \<open>Kv_Durability\<close>, \<open>Redis_Store\<close>,
  \<open>Redis_Race\<close> and \<open>Ring\<close>.

  \<^bold>\<open>Bounds.\<close>  Ring capacities from 2 to \<open>2 ^ 62\<close> and fewer than \<open>2 ^ 63\<close> claims where the counters
  must not wrap; frames below the 8 KiB of the buffered writer where a failed append must not
  tear the log; bodies below \<open>2 ^ 32\<close> bytes where a frame must decode.  They are hypotheses of
  the theorems, and the behaviour beyond them is a theorem of its own where it is a defect.

  \<^bold>\<open>Not modelled.\<close>  Acquire and release orderings (atomics are sequentially consistent), sleeping
  and time, the floating-point average of the metrics, \<open>Display\<close> and \<open>Error::source\<close>, poisoned
  mutexes, thread creation, \<open>lib.rs\<close> (re-exports), the tests, a real Redis server; of the
  binaries and examples the environment, paths, printing, pacing and exit codes.  In the demo
  and the examples the worker's iterations are whole and do not overlap with the calls of the main
  thread.  \<open>submit\<close>'s and the flush paths' metrics are in the sequential model only.
\<close>

end
